(* ===== verification/Prelude.thy ===== *)
theory Prelude
  imports Main "HOL-Library.Word"
begin

text \<open>
  Shared vocabulary of the development: the machine integers of \<^verbatim>\<open>cc.h\<close>
  (\<^verbatim>\<open>u8_t\<close>, \<^verbatim>\<open>u16_t\<close>, \<^verbatim>\<open>u32_t\<close>), the byte order of the
  wire and of the processor, and the generic lemmas on lists, words and circular indices
  that the component theories use.  The target is a little-endian ARM Cortex-M3 on which
  plain \<^verbatim>\<open>char\<close> is unsigned.
\<close>

unbundle bit_operations_syntax

section \<open>Collections of rewrite rules\<close>

named_theorems byte_simps \<open>splitting and joining of bytes and words\<close>
named_theorems ring_simps \<open>index arithmetic of circular buffers\<close>

section \<open>Machine integers\<close>

type_synonym u8 = "8 word"
type_synonym u16 = "16 word"
type_synonym u32 = "32 word"

lemma uint_u8: "uint (a :: u8) < 256"
  using uint_lt2p [of a] by simp

lemma unat_u8: "unat (a :: u8) < 256"
  using unsigned_less [of a, where ?'a = nat] by simp

lemma unat_u16: "unat (a :: u16) < 65536"
  using unsigned_less [of a, where ?'a = nat] by simp

lemma unat_u32: "unat (a :: u32) < 4294967296"
  using unsigned_less [of a, where ?'a = nat] by simp

lemma take_bit_uint_u8 [simp]: "8 \<le> n \<Longrightarrow> take_bit n (uint (a :: u8)) = uint a"
  by (rule take_bit_int_eq_self)
    (auto intro: order_less_le_trans [OF uint_u8] simp: power_increasing [of 8 n 2, simplified])

section \<open>Bytes of words\<close>

text \<open>
  \<open>be16\<close> and \<open>be32\<close> join bytes in network order; \<open>le16\<close> is the halfword the
  processor reads through a \<^verbatim>\<open>u16_t *\<close>; \<open>byte n w\<close> is the byte that a
  store of \<^verbatim>\<open>w >> 8*n\<close> into a \<^verbatim>\<open>u8_t\<close> leaves.
\<close>

definition be16 :: "u8 \<Rightarrow> u8 \<Rightarrow> u16" where
  "be16 a b = push_bit 8 (ucast a) OR ucast b"

definition be32 :: "u8 \<Rightarrow> u8 \<Rightarrow> u8 \<Rightarrow> u8 \<Rightarrow> u32" where
  "be32 a b c d =
     push_bit 24 (ucast a) OR push_bit 16 (ucast b) OR push_bit 8 (ucast c) OR ucast d"

definition le16 :: "u8 \<Rightarrow> u8 \<Rightarrow> u16" where
  "le16 a b = be16 b a"

definition byte :: "nat \<Rightarrow> 'a::len word \<Rightarrow> u8" where
  "byte n w = ucast (drop_bit (8 * n) w)"

lemma byte_ranges:
  fixes n :: nat
  shows "n < 8 \<or> 8 \<le> n \<and> n < 16 \<or> 16 \<le> n \<and> n < 24 \<or> 24 \<le> n"
  by auto

lemma be32_bytes [byte_simps]: "be32 (byte 3 d) (byte 2 d) (byte 1 d) (byte 0 d) = (d :: u32)"
proof (rule bit_word_eqI)
  fix n :: nat
  assume "n < LENGTH(32)"
  then show "bit (be32 (byte 3 d) (byte 2 d) (byte 1 d) (byte 0 d)) n \<longleftrightarrow> bit d n"
    using byte_ranges [of n] by (elim disjE) (auto simp: be32_def byte_def bit_simps)
qed

lemma be16_bytes [byte_simps]: "be16 (byte 1 d) (byte 0 d) = (d :: u16)"
proof (rule bit_word_eqI)
  fix n :: nat
  assume "n < LENGTH(16)"
  then show "bit (be16 (byte 1 d) (byte 0 d)) n \<longleftrightarrow> bit d n"
    using byte_ranges [of n] by (elim disjE) (auto simp: be16_def byte_def bit_simps)
qed

lemma le16_bytes [byte_simps]: "le16 (byte 0 d) (byte 1 d) = (d :: u16)"
  by (simp add: le16_def be16_bytes [simplified])

lemma or_concat_int:
  fixes x y :: int
  assumes "0 \<le> y" "y < 2 ^ n"
  shows "push_bit n x OR y = 2 ^ n * x + y"
proof -
  have "push_bit n x OR y = concat_bit n y x"
    using assms by (simp add: concat_bit_def take_bit_int_eq_self or.commute)
  then show ?thesis
    using assms by (simp add: concat_bit_eq push_bit_eq_mult take_bit_int_eq_self mult.commute)
qed

lemma uint_be16: "uint (be16 a b) = 256 * uint a + uint b"
proof -
  have "take_bit 16 (push_bit 8 (uint a)) = push_bit 8 (uint a)"
    using uint_u8 [of a] by (simp add: take_bit_int_eq_self_iff push_bit_eq_mult)
  then have "uint (be16 a b) = push_bit 8 (uint a) OR uint b"
    by (simp add: be16_def unsigned_or_eq unsigned_push_bit_eq unsigned_ucast_eq)
  then show ?thesis using or_concat_int [of "uint b" 8 "uint a"] uint_u8 [of b] by simp
qed

lemma unat_be16 [byte_simps]: "unat (be16 a b) = 256 * unat a + unat b"
proof -
  have "int (unat (be16 a b)) = int (256 * unat a + unat b)" by (simp add: uint_be16)
  then show ?thesis by (simp only: of_nat_eq_iff)
qed

lemma unat_le16 [byte_simps]: "unat (le16 a b) = unat a + 256 * unat b"
  by (simp add: le16_def unat_be16)

lemma uint_be32:
  "uint (be32 a b c d) = 16777216 * uint a + 65536 * uint b + 256 * uint c + uint d"
proof -
  have "take_bit 32 (push_bit 24 (uint a)) = push_bit 24 (uint a)"
    "take_bit 32 (push_bit 16 (uint b)) = push_bit 16 (uint b)"
    "take_bit 32 (push_bit 8 (uint c)) = push_bit 8 (uint c)"
    using uint_u8 [of a] uint_u8 [of b] uint_u8 [of c]
    by (auto simp: take_bit_int_eq_self_iff push_bit_eq_mult)
  then have "uint (be32 a b c d) =
      push_bit 24 (uint a) OR (push_bit 16 (uint b) OR (push_bit 8 (uint c) OR uint d))"
    by (simp add: be32_def unsigned_or_eq unsigned_push_bit_eq unsigned_ucast_eq or.assoc)
  moreover have "push_bit 8 (uint c) OR uint d = 256 * uint c + uint d"
    using or_concat_int [of "uint d" 8 "uint c"] uint_u8 [of d] by simp
  moreover have "push_bit 16 (uint b) OR (256 * uint c + uint d)
      = 65536 * uint b + (256 * uint c + uint d)"
    using or_concat_int [of "256 * uint c + uint d" 16 "uint b"] uint_u8 [of c] uint_u8 [of d]
    by simp
  moreover have "push_bit 24 (uint a) OR (65536 * uint b + (256 * uint c + uint d))
      = 16777216 * uint a + (65536 * uint b + (256 * uint c + uint d))"
    using or_concat_int [of "65536 * uint b + (256 * uint c + uint d)" 24 "uint a"]
      uint_u8 [of b] uint_u8 [of c] uint_u8 [of d]
    by simp
  ultimately show ?thesis by simp
qed

lemma unat_be32 [byte_simps]:
  "unat (be32 a b c d) = 16777216 * unat a + 65536 * unat b + 256 * unat c + unat d"
proof -
  have "int (unat (be32 a b c d))
      = int (16777216 * unat a + 65536 * unat b + 256 * unat c + unat d)"
    by (simp add: uint_be32)
  then show ?thesis by (simp only: of_nat_eq_iff)
qed

section \<open>Circular indices\<close>

lemma mod_add_less_cases [ring_simps]:
  fixes r k M :: nat
  assumes "r < M" "k \<le> M"
  shows "(r + k) mod M = (if r + k < M then r + k else r + k - M)"
  using assms by (cases "r + k < M") (auto simp: mod_if)

lemma mod_Suc_step [ring_simps]: "(k mod M + 1) mod M = Suc k mod (M :: nat)"
  by (simp add: mod_Suc_eq)

section \<open>Lists as C arrays\<close>

text \<open>The cells \<open>off\<close> to \<open>off + n - 1\<close> of an array.\<close>

definition arr_slice :: "nat \<Rightarrow> nat \<Rightarrow> 'a list \<Rightarrow> 'a list" where
  "arr_slice off n xs = take n (drop off xs)"

lemma length_arr_slice [simp]: "off + n \<le> length xs \<Longrightarrow> length (arr_slice off n xs) = n"
  by (simp add: arr_slice_def)

lemma nth_arr_slice [simp]: "i < n \<Longrightarrow> off + i < length xs \<Longrightarrow> arr_slice off n xs ! i = xs ! (off + i)"
  by (simp add: arr_slice_def)

lemma arr_slice_0 [simp]: "arr_slice off 0 xs = []"
  by (simp add: arr_slice_def)

lemma list_of_20:
  assumes "length xs = 20"
  obtains a0 a1 a2 a3 a4 a5 a6 a7 a8 a9 b0 b1 b2 b3 b4 b5 b6 b7 b8 b9 where
    "xs = [a0, a1, a2, a3, a4, a5, a6, a7, a8, a9, b0, b1, b2, b3, b4, b5, b6, b7, b8, b9]"
  using assms by (auto simp: length_Suc_conv numeral_eq_Suc)

section \<open>Repeated partial steps\<close>

fun fold_opt :: "('a \<Rightarrow> 'b \<Rightarrow> 'a option) \<Rightarrow> 'a \<Rightarrow> 'b list \<Rightarrow> 'a option" where
  "fold_opt f s [] = Some s"
| "fold_opt f s (x # xs) = (case f s x of None \<Rightarrow> None | Some s' \<Rightarrow> fold_opt f s' xs)"

lemma fold_opt_append:
  "fold_opt f s (xs @ ys) = (case fold_opt f s xs of None \<Rightarrow> None | Some s' \<Rightarrow> fold_opt f s' ys)"
  by (induction xs arbitrary: s) (auto split: option.split)

end
