(* ===== verification/Data_Form.thy ===== *)
theory Data_Form
  imports Prelude
begin

text \<open>
  The data of \<^verbatim>\<open>User/inc/data_form.h\<close>: the tables of contracts, batches and orders as
  records (the field names carry a prefix, since HOL record fields share one name space),
  the enumerations of message kinds, and the field offsets and status codes of the wire
  format as numbers.
\<close>

section \<open>Enumerations\<close>

datatype req_type = first_req | order_req | batch_status | order_status | printer_status | wifi_order_req

datatype contract_type_e = contract_document | contract_mcu_status | contract_sign
  | contract_sign_confirm | contract_escape | contract_escape_confirm

fun contract_type_code :: "contract_type_e \<Rightarrow> u8" where
  "contract_type_code contract_document = 0"
| "contract_type_code contract_mcu_status = 1"
| "contract_type_code contract_sign = 2"
| "contract_type_code contract_sign_confirm = 3"
| "contract_type_code contract_escape = 4"
| "contract_type_code contract_escape_confirm = 5"

section \<open>Tables\<close>

record contract_info =
  ci_contract_type :: u8
  ci_sever_send_time :: u32
  ci_contract_number :: u16
  ci_mcu_id :: u32
  ci_mcu_speed :: u16
  ci_mcu_max_buf_size :: u16
  ci_mcu_health :: u32
  ci_check_sum :: u16
  ci_next_print_node :: u8

text \<open>The data field of an order is a pointer; 0 is \<^verbatim>\<open>NULL\<close>.\<close>

record order_info =
  oi_mcu_id :: u32
  oi_sever_send_time :: u32
  oi_serial_number :: u32
  oi_size :: u16
  oi_batch_number :: u32
  oi_batch_within_number :: u16
  oi_check_sum :: u16
  oi_preservation :: u16
  oi_data_source :: u16
  oi_data :: u32
  oi_priority :: u8
  oi_status :: u8
  oi_next_print_node :: u8

record batch_info =
  bi_sever_send_time :: u32
  bi_order_number :: u16
  bi_batch_length :: u16
  bi_batch_number :: u16
  bi_check_sum :: u16
  bi_preservation :: u16
  bi_num_printed_order :: u8
  bi_num_order_que :: u8

section \<open>Offsets and codes\<close>

abbreviation (input) "MAX_BATCH_NUM \<equiv> (10 :: nat)"
abbreviation (input) "MAX_CONTRACT_NUM \<equiv> (10 :: nat)"
abbreviation (input) "SEND_DATA_SIZE \<equiv> (20 :: nat)"
abbreviation (input) "REC_DATA_SIZE \<equiv> (20 :: nat)"
abbreviation (input) "MAX_CONTRACT_HEAD_LENGTH \<equiv> (28 :: nat)"
abbreviation (input) "MAX_BATCH_HEAD_LENGTH \<equiv> (20 :: nat)"

abbreviation (input) "CONTRACT_TYPE_OFFSET \<equiv> (2 :: nat)"
abbreviation (input) "CONTRACT_SERVER_SEND_TIME_OFFSET \<equiv> (4 :: nat)"
abbreviation (input) "CONTRACT_CONTRACT_NUMBER_OFFSET \<equiv> (8 :: nat)"
abbreviation (input) "CONTRACT_MCU_ID_OFFSET \<equiv> (12 :: nat)"
abbreviation (input) "CONTRACT_MCU_SPEED_OFFSET \<equiv> (16 :: nat)"
abbreviation (input) "CONTRACT_MCU_MAX_BUFSIZE \<equiv> (18 :: nat)"
abbreviation (input) "CONTRACT_MCU_HEALTH \<equiv> (20 :: nat)"
abbreviation (input) "CONTRACT_CHECK_SUM_OFFSET \<equiv> (24 :: nat)"
abbreviation (input) "CONTRACT_TAIL_OFFSET \<equiv> (26 :: nat)"

abbreviation (input) "ORDER_SIZE_OFFSET \<equiv> (2 :: nat)"
abbreviation (input) "ORDER_MCU_ID_OFFSET \<equiv> (4 :: nat)"
abbreviation (input) "ORDER_SEVER_SEND_TIME_OFFSET \<equiv> (8 :: nat)"
abbreviation (input) "ORDER_SERIAL_NUMBER_OFFSET \<equiv> (12 :: nat)"
abbreviation (input) "ORDER_BATCH_NUMBER_OFFSET \<equiv> (16 :: nat)"
abbreviation (input) "ORDER_BATCH_WITHIN_NUMBER_OFFSET \<equiv> (20 :: nat)"
abbreviation (input) "ORDER_CHECK_SUM_OFFSET \<equiv> (22 :: nat)"

abbreviation (input) "BATCH_ORDER_NUMBER_OFFSET \<equiv> (2 :: nat)"
abbreviation (input) "BATCH_NUMBER_OFFSET \<equiv> (4 :: nat)"
abbreviation (input) "BATCH_TOTAL_LENGTH_OFFSET \<equiv> (6 :: nat)"
abbreviation (input) "BATCH_SEVER_SEND_TIME_OFFSET \<equiv> (8 :: nat)"
abbreviation (input) "BATCH_CHECK_SUM_OFFSET \<equiv> (12 :: nat)"
abbreviation (input) "BATCH_PRESERVATION_OFFSET \<equiv> (14 :: nat)"
abbreviation (input) "BATCH_TAIL_OFFSET \<equiv> (18 :: nat)"

abbreviation (input) "STATUS_TYPE_OFFSET \<equiv> (2 :: nat)"
abbreviation (input) "BATCH_STATUS \<equiv> (0x00 :: u8)"
abbreviation (input) "ORDER_STATUS \<equiv> (0x20 :: u8)"
abbreviation (input) "PRINTER_STATUS \<equiv> (0x40 :: u8)"
abbreviation (input) "FIRST_REQ \<equiv> (0x60 :: u8)"
abbreviation (input) "ORDER_REQ \<equiv> (0x80 :: u8)"
abbreviation (input) "ACK_STATUS \<equiv> (0xa0 :: u8)"
abbreviation (input) "WIFI_ORDER_REQ \<equiv> (0xc0 :: u8)"
abbreviation (input) "WIFI_REQ_ACK \<equiv> (0xe0 :: u8)"

abbreviation (input) "NETORDER_TYPE_NULL \<equiv> (0 :: u8)"
abbreviation (input) "NETORDER_TYPE_CONTRACT \<equiv> (1 :: u8)"
abbreviation (input) "NETORDER_TYPE_BATCH \<equiv> (2 :: u8)"
abbreviation (input) "NETORDER_TYPE_ORDER \<equiv> (3 :: u8)"

end
