(* ===== verification/Wire_Codec.thy ===== *)
theory Wire_Codec
  imports Data_Form
begin

text \<open>
  Packing and analysing of wire messages: \<^verbatim>\<open>User/src/pack_data.c\<close>,
  \<^verbatim>\<open>User/src/analyze_data.c\<close> and the checksum part of
  \<^verbatim>\<open>User/src/more_infomation.c\<close>.  A \<^verbatim>\<open>char *\<close> into a buffer is the
  byte list that starts there; a store through it is a list update.  Reading halfwords
  past the end of the object is the value \<^term>\<open>None\<close>.
\<close>

section \<open>Field macros\<close>

definition SET_DATA_4B :: "u8 list \<Rightarrow> nat \<Rightarrow> u32 \<Rightarrow> u8 list" where
  "SET_DATA_4B msg add data =
     msg[add := byte 3 data, add + 1 := byte 2 data, add + 2 := byte 1 data, add + 3 := byte 0 data]"

definition SET_DATA_2B :: "u8 list \<Rightarrow> nat \<Rightarrow> u32 \<Rightarrow> u8 list" where
  "SET_DATA_2B msg add data = msg[add := byte 1 data, add + 1 := byte 0 data]"

text \<open>
  The analysing macros assign byte after byte to the destination, whose width is that of
  the C variable, so the result type stays open.
\<close>

definition ANALYZE_DATA_4B :: "u8 list \<Rightarrow> nat \<Rightarrow> 'a::len word" where
  "ANALYZE_DATA_4B buf add =
     (let d = ucast (buf ! add);
          d = push_bit 8 d OR ucast (buf ! (add + 1));
          d = push_bit 8 d OR ucast (buf ! (add + 2))
      in push_bit 8 d OR ucast (buf ! (add + 3)))"

definition ANALYZE_DATA_2B :: "u8 list \<Rightarrow> nat \<Rightarrow> 'a::len word" where
  "ANALYZE_DATA_2B buf add =
     (let d = ucast (buf ! add) in push_bit 8 d OR ucast (buf ! (add + 1)))"

text \<open>\<^verbatim>\<open>Analyze_Data_With_Diff_Part\<close>: the same value from two separate pieces.\<close>

fun analyze_part :: "u32 \<Rightarrow> u8 list \<Rightarrow> nat \<Rightarrow> u32" where
  "analyze_part d (b # src) (Suc len) = analyze_part (push_bit 8 d OR ucast b) src len"
| "analyze_part d _ _ = d"

definition Analyze_Data_With_Diff_Part :: "u8 list \<Rightarrow> nat \<Rightarrow> u8 list \<Rightarrow> nat \<Rightarrow> u32" where
  "Analyze_Data_With_Diff_Part src1 len1 src2 len2 =
     analyze_part (analyze_part 0 src1 len1) src2 len2"

section \<open>Checksum\<close>

text \<open>
  \<^verbatim>\<open>Check_Sum\<close> adds little-endian halfwords into 32 bits, folds the carries twice and
  complements; an odd last byte is ignored.  \<^verbatim>\<open>Add_Sum\<close> is the same loop, but adds
  an odd last byte as it stands.
\<close>

fun check_sum_loop :: "u32 \<Rightarrow> u8 list \<Rightarrow> nat \<Rightarrow> u32 option" where
  "check_sum_loop acc (a # b # data) len =
     (if 1 < len then check_sum_loop (acc + ucast (le16 a b)) data (len - 2) else Some acc)"
| "check_sum_loop acc data len = (if 1 < len then None else Some acc)"

definition end_around :: "u32 \<Rightarrow> u16" where
  "end_around s0 =
     (let s = drop_bit 16 s0 + (s0 AND 0xffff); s = s + drop_bit 16 s in ucast (NOT s))"

definition Check_Sum :: "u8 list \<Rightarrow> nat \<Rightarrow> u16 option" where
  "Check_Sum data len = map_option end_around (check_sum_loop 0 data len)"

fun Add_Sum :: "u32 \<Rightarrow> u8 list \<Rightarrow> nat \<Rightarrow> u32 option" where
  "Add_Sum acc (a # b # src) len =
     (if 1 < len then Add_Sum (acc + ucast (le16 a b)) src (len - 2)
      else if len = 1 then Some (acc + ucast a) else Some acc)"
| "Add_Sum acc [a] len = (if 1 < len then None else if len = 1 then Some (acc + ucast a) else Some acc)"
| "Add_Sum acc [] len = (if 0 < len then None else Some acc)"

definition Check_Sum_With_Diff_Part :: "u8 list \<Rightarrow> nat \<Rightarrow> u8 list \<Rightarrow> nat \<Rightarrow> u16 option" where
  "Check_Sum_With_Diff_Part src1 len1 src2 len2 =
     (case Add_Sum 0 src1 len1 of None \<Rightarrow> None
      | Some s \<Rightarrow> map_option end_around (Add_Sum s src2 len2))"

text \<open>\<^verbatim>\<open>CheckRec\<close> of \<^verbatim>\<open>local_conf.c\<close>: a message is accepted when the sum is 0.\<close>

definition CheckRec :: "u8 list \<Rightarrow> nat \<Rightarrow> bool option" where
  "CheckRec data len = map_option (\<lambda>s. s = 0) (Check_Sum data len)"

section \<open>Packing\<close>

text \<open>
  The value stored by \<^verbatim>\<open>SET_DATA_2B(&message[16], ((check_sum << 8) + (check_sum >> 8)))\<close>
  is computed in 32 bits from the 16-bit sum.
\<close>

definition swapped_sum :: "u16 \<Rightarrow> u32" where
  "swapped_sum check_sum = push_bit 8 (ucast check_sum) + drop_bit 8 (ucast check_sum)"

definition Pack_Req_Or_Status_Message ::
  "u8 list \<Rightarrow> u8 \<Rightarrow> u8 \<Rightarrow> u32 \<Rightarrow> u32 \<Rightarrow> u32 \<Rightarrow> u8 list option" where
  "Pack_Req_Or_Status_Message message type symbol id' UNIX_time preservation =
     (let m = message[0 := 0xCF, 1 := 0xFC];
          m = m[2 := type, 3 := symbol];
          m = SET_DATA_4B m 4 id';
          m = SET_DATA_4B m 8 UNIX_time;
          m = SET_DATA_4B m 12 preservation;
          m = m[18 := 0xFC, 19 := 0xCF]
      in case Check_Sum m SEND_DATA_SIZE of None \<Rightarrow> None
         | Some check_sum \<Rightarrow> Some (SET_DATA_2B m 16 (swapped_sum check_sum)))"

definition Pack_Contract_Message ::
  "u8 list \<Rightarrow> contract_type_e \<Rightarrow> u16 \<Rightarrow> u32 \<Rightarrow> u32 \<Rightarrow> u16 \<Rightarrow> u16 \<Rightarrow> u32 \<Rightarrow> u8 list option" where
  "Pack_Contract_Message message type contract_number mcu_id UNIX_time mcu_speed mcu_maxBufSize mcu_health =
     (let m = message[0 := 0xbf, 1 := 0xfb];
          m = m[CONTRACT_TYPE_OFFSET := contract_type_code type];
          m = SET_DATA_4B m CONTRACT_SERVER_SEND_TIME_OFFSET UNIX_time;
          m = SET_DATA_4B m CONTRACT_MCU_ID_OFFSET mcu_id;
          m = SET_DATA_2B m CONTRACT_CONTRACT_NUMBER_OFFSET (ucast contract_number);
          m = SET_DATA_2B m CONTRACT_MCU_SPEED_OFFSET (ucast mcu_speed);
          m = SET_DATA_2B m CONTRACT_MCU_MAX_BUFSIZE (ucast mcu_maxBufSize);
          m = SET_DATA_4B m CONTRACT_MCU_HEALTH mcu_health;
          m = m[CONTRACT_TAIL_OFFSET := 0xfb, CONTRACT_TAIL_OFFSET + 1 := 0xbf]
      in case Check_Sum m MAX_CONTRACT_HEAD_LENGTH of None \<Rightarrow> None
         | Some check_sum \<Rightarrow> Some (SET_DATA_2B m CONTRACT_CHECK_SUM_OFFSET (swapped_sum check_sum)))"

section \<open>Analysing\<close>

definition get_batch_hash :: "u16 \<Rightarrow> u8" where
  "get_batch_hash batch_number = ucast (batch_number mod 10)"

definition get_contract_hash :: "u16 \<Rightarrow> u8" where
  "get_contract_hash contract_number = ucast (contract_number mod 10)"

definition get_batch_length :: "batch_info list \<Rightarrow> u16 \<Rightarrow> u16" where
  "get_batch_length batch_info_table batch_number =
     bi_batch_length (batch_info_table ! unat (get_batch_hash batch_number))"

definition Analyze_Contract_Info_Table :: "contract_info \<Rightarrow> u8 list \<Rightarrow> contract_info" where
  "Analyze_Contract_Info_Table contract_information contract_data =
     contract_information\<lparr>
       ci_contract_number := ANALYZE_DATA_2B contract_data CONTRACT_CONTRACT_NUMBER_OFFSET,
       ci_sever_send_time := ANALYZE_DATA_4B contract_data CONTRACT_SERVER_SEND_TIME_OFFSET,
       ci_check_sum := ANALYZE_DATA_2B contract_data CONTRACT_CHECK_SUM_OFFSET\<rparr>"

definition Analyze_Batch_Info_Table :: "batch_info list \<Rightarrow> u8 list \<Rightarrow> u16 \<Rightarrow> batch_info list" where
  "Analyze_Batch_Info_Table batch_info_table batch_data batch_number =
     (let hash = unat (get_batch_hash batch_number)
      in batch_info_table[hash := (batch_info_table ! hash)\<lparr>
           bi_batch_number := batch_number,
           bi_order_number := ANALYZE_DATA_2B batch_data BATCH_ORDER_NUMBER_OFFSET,
           bi_batch_length := ANALYZE_DATA_2B batch_data BATCH_TOTAL_LENGTH_OFFSET,
           bi_sever_send_time := ANALYZE_DATA_4B batch_data BATCH_SEVER_SEND_TIME_OFFSET,
           bi_check_sum := ANALYZE_DATA_4B batch_data BATCH_CHECK_SUM_OFFSET,
           bi_preservation := ANALYZE_DATA_2B batch_data BATCH_PRESERVATION_OFFSET,
           bi_num_order_que := 0,
           bi_num_printed_order := 0\<rparr>])"

text \<open>
  \<^verbatim>\<open>find_order_head\<close>: the loop advances \<^verbatim>\<open>i\<close> and shortens \<^verbatim>\<open>*len\<close> in
  the same step; \<^verbatim>\<open>i < (*len) - 1\<close> is a comparison of \<^verbatim>\<open>int\<close>s.
\<close>

fun find_order_head_loop :: "u8 list \<Rightarrow> nat \<Rightarrow> nat \<Rightarrow> u8 \<times> nat \<times> nat" where
  "find_order_head_loop sub_data i len =
     (if i + 1 < len then
        if sub_data ! i = 0xbf \<and> sub_data ! (i + 1) = 0xfb then (NETORDER_TYPE_CONTRACT, i, len)
        else if sub_data ! i = 0xaa \<and> sub_data ! (i + 1) = 0x55 then (NETORDER_TYPE_BATCH, i, len)
        else if sub_data ! i = 0x3e \<and> sub_data ! (i + 1) = 0x11 then (NETORDER_TYPE_ORDER, i, len)
        else find_order_head_loop sub_data (i + 1) (len - 1)
      else (NETORDER_TYPE_NULL, i, len))"

declare find_order_head_loop.simps [simp del]

text \<open>The result is the message type, the offset by which the caller's pointer moves and the new length.\<close>

definition find_order_head :: "u8 list \<Rightarrow> nat \<Rightarrow> u8 \<times> nat \<times> nat" where
  "find_order_head data len =
     (let (netbuf_type, i, len') = find_order_head_loop data 0 len
      in (netbuf_type, i, if netbuf_type = 0 then 0 else len'))"

text \<open>
  \<^verbatim>\<open>find_substr_head\<close>: \<open>match_from\<close> is the inner loop, and the outer loop moves
  \<^verbatim>\<open>sub_data\<close> (here the offset \<open>pos\<close>) on while shortening \<^verbatim>\<open>*len\<close>.  Every
  caller passes \<^verbatim>\<open>sub_len = 2\<close>; the guard \<open>0 < len\<close> is implied by
  \<open>sub_len \<le> len\<close> then.  \<^term>\<open>None\<close> stands for an unmoved pointer and \<^verbatim>\<open>*len = 0\<close>.
\<close>

function match_from :: "u8 list \<Rightarrow> u8 list \<Rightarrow> nat \<Rightarrow> nat \<Rightarrow> nat \<Rightarrow> bool" where
  "match_from sub_data substr i len sub_len =
     (if i < len \<and> sub_data ! i = substr ! i
      then if i + 1 = sub_len then True else match_from sub_data substr (i + 1) len sub_len
      else False)"
  by pat_completeness auto
termination
  by (relation "measure (\<lambda>(d, s, i, len, m). len - i)") auto

declare match_from.simps [simp del]

fun find_substr_head_loop :: "u8 list \<Rightarrow> u8 list \<Rightarrow> nat \<Rightarrow> nat \<Rightarrow> nat \<Rightarrow> (nat \<times> nat) option" where
  "find_substr_head_loop data substr pos len sub_len =
     (if sub_len \<le> len \<and> 0 < len
      then if match_from (drop pos data) substr 0 len sub_len then Some (pos, len)
           else find_substr_head_loop data substr (pos + 1) (len - 1) sub_len
      else None)"

declare find_substr_head_loop.simps [simp del]

definition find_substr_head :: "u8 list \<Rightarrow> u8 list \<Rightarrow> nat \<Rightarrow> nat \<Rightarrow> (nat \<times> nat) option" where
  "find_substr_head data substr len sub_len = find_substr_head_loop data substr 0 len sub_len"

section \<open>Reference definitions\<close>

text \<open>
  The one's complement sum of RFC 1071 on natural numbers: \<open>hw_sum\<close> is the sum of the
  halfwords and \<open>fold16\<close> the end-around carry; and the positions at which a header starts.
\<close>

definition fold16 :: "nat \<Rightarrow> nat" where
  "fold16 n = (if n = 0 then 0 else (n - 1) mod 65535 + 1)"

fun hw_sum :: "u8 list \<Rightarrow> nat" where
  "hw_sum (a # b # data) = unat a + 256 * unat b + hw_sum data"
| "hw_sum _ = 0"

definition occurs_at :: "u8 list \<Rightarrow> u8 list \<Rightarrow> nat \<Rightarrow> bool" where
  "occurs_at substr data p = (take (length substr) (drop p data) = substr)"

definition order_head_at :: "u8 list \<Rightarrow> nat \<Rightarrow> u8" where
 "order_head_at data p = (if take 2 (drop p data) = [0xbf, 0xfb] then 1 else if take 2 (drop p data) = [0xaa, 0x55] then 2 else if take 2 (drop p data) = [0x3e, 0x11] then 3 else 0)"


section \<open>The checksum\<close>

lemma mod_shift: "(a :: nat) = b + q * m \<Longrightarrow> b < m \<Longrightarrow> a mod m = b"
  by (simp only: mod_mult_self1 mod_less)

lemma fold16_eq:
  fixes q r :: nat
  assumes "q < 65536" "r < 65536"
  shows "(q + r + (q + r) div 65536) mod 65536 = fold16 (65536 * q + r)"
proof -
  let ?t = "q + r"
  have n: "65536 * q + r = 65535 * q + ?t" by simp
  consider "?t = 0" | "0 < ?t" "?t < 65536" | "65536 \<le> ?t" by linarith
  then show ?thesis
  proof cases
    case 1
    then show ?thesis by (simp add: fold16_def)
  next
    case 2
    then have "(65536 * q + r - 1) mod 65535 = ?t - 1"
      by (intro mod_shift [of _ _ q]) linarith+
    then show ?thesis using 2 by (auto simp: fold16_def)
  next
    case 3
    then have "?t div 65536 = 1" using assms by (intro div_nat_eqI) auto
    then have "(?t + ?t div 65536) mod 65536 = ?t - 65535"
      using 3 assms by (intro mod_shift [of _ _ 1]) linarith+
    moreover have "(65536 * q + r - 1) mod 65535 = ?t - 65536"
    proof (rule mod_shift [of _ _ "q + 1"])
      show "65536 * q + r - 1 = ?t - 65536 + (q + 1) * 65535" using 3 by (simp add: algebra_simps)
      show "?t - 65536 < 65535" using assms by arith
    qed
    ultimately show ?thesis using 3 by (auto simp: fold16_def)
  qed
qed

lemma unat_low16: "unat (w AND 0xffff :: u32) = unat w mod 65536"
proof -
  have "w AND 0xffff = w mod 65536" using take_bit_eq_mask [of 16 w] by (simp add: take_bit_eq_mod mask_eq_exp_minus_1)
  then show ?thesis by (simp add: unat_mod_distrib)
qed

lemma unat_high16: "unat (drop_bit 16 w :: u32) = unat w div 65536"
  by (simp add: drop_bit_eq_div unat_div_distrib)

lemma unat_ucast_not: "unat (ucast (NOT w :: u32) :: u16) = 65535 - unat w mod 65536"
proof -
  have "ucast (NOT w) = (NOT (ucast w) :: u16)" by (rule bit_word_eqI) (auto simp: bit_simps)
  moreover have "unat (NOT (v::u16)) = 65535 - unat v" for v
  proof -
    have "NOT v = 65535 - v" by (simp add: not_eq_complement)
    moreover have "unat (65535 - v) = 65535 - unat v"
      using unat_u16 [of v] by (subst unat_sub) (simp_all add: word_le_nat_alt)
    ultimately show ?thesis by simp
  qed
  moreover have "unat (ucast w :: u16) = unat w mod 65536"
    by (simp add: unsigned_ucast_eq take_bit_eq_mod)
  ultimately show ?thesis by simp
qed

lemma unat_end_around: "unat (end_around s) = 65535 - fold16 (unat s)"
proof -
  let ?q = "unat s div 65536" and ?r = "unat s mod 65536"
  let ?w = "drop_bit 16 s + (s AND 0xffff)"
  have b: "?q < 65536" "?r < 65536" using unat_u32[of s] by auto
  have 1: "unat ?w = ?q + ?r"
    using b by (subst unat_add_lem [THEN iffD1]) (auto simp: unat_high16 unat_low16)
  have 2: "unat (?w + drop_bit 16 ?w) = ?q + ?r + (?q + ?r) div 65536"
    using b 1 by (subst unat_add_lem [THEN iffD1]) (auto simp: unat_high16)
  have "unat (end_around s) = 65535 - (?q + ?r + (?q + ?r) div 65536) mod 65536"
    by (simp add: end_around_def Let_def unat_ucast_not 2)
  also have "\<dots> = 65535 - fold16 (65536 * ?q + ?r)" using fold16_eq[OF b] by simp
  finally show ?thesis by simp
qed


lemma hw_sum_bound: "hw_sum data \<le> 65535 * (length data div 2)"
proof (induction data rule: hw_sum.induct)
  case (1 a b data)
  then show ?case using unat_u8 [of a] unat_u8 [of b] by simp
qed simp_all

lemma unat_ucast_u16 [simp]: "unat (ucast (w :: u16) :: u32) = unat w"
  using unat_u16 [of w] by (simp add: unsigned_ucast_eq take_bit_nat_eq_self_iff)

lemma check_sum_loop_hw:
  assumes "unat acc + 65535 * (n div 2) < 4294967296" "n \<le> length data" 
  shows "\<exists>s. check_sum_loop acc data n = Some s \<and> unat s = unat acc + hw_sum (take (2 * (n div 2)) data)"
  using assms
proof (induction acc data n rule: check_sum_loop.induct)
  case (1 acc a b data n)
  show ?case
  proof (cases "1 < n")
    case False
    then have "n div 2 = 0" by simp
    then show ?thesis using False by simp
  next
    case True
    then obtain k where n: "n = k + 2" by (metis add.commute le_Suc_ex Suc_1 Suc_leI)
    have le: "unat (le16 a b) \<le> 65535" using unat_u16[of "le16 a b"] by simp
    have u: "unat (acc + ucast (le16 a b)) = unat acc + unat (le16 a b)"
      using 1(2) le by (subst unat_add_lem [THEN iffD1]) (auto simp: n)
    have "\<exists>s. check_sum_loop (acc + ucast (le16 a b)) data (n - 2) = Some s \<and>
      unat s = unat (acc + ucast (le16 a b)) + hw_sum (take (2 * ((n - 2) div 2)) data)"
      using True 1 le by (intro "1.IH") (auto simp: u n)
    then show ?thesis using True by (auto simp: n u unat_le16)
  qed
qed simp_all

lemma fold16_le: "fold16 n \<le> 65535"
  unfolding fold16_def using mod_less_divisor[of 65535 "n - 1"] by auto
lemma fold16_le_self: "fold16 n \<le> n"
  unfolding fold16_def using mod_less_eq_dividend[of "n - 1" 65535] by auto
lemma fold16_decomp: "\<exists>q. n = fold16 n + 65535 * q"
proof (cases "n = 0")
  case False
  have "n = 1 + (n - 1) mod 65535 + 65535 * ((n - 1) div 65535)" using False mult_div_mod_eq[of 65535 "n - 1"] by linarith
  then have "n = fold16 n + 65535 * ((n - 1) div 65535)" using False by (simp add: fold16_def)
  then show ?thesis by (rule exI)
qed (simp add: fold16_def)

lemma fold16_full_iff: "fold16 n = 65535 \<longleftrightarrow> 0 < n \<and> n mod 65535 = 0"
proof -
  obtain q where q: "n = fold16 n + 65535 * q" using fold16_decomp by blast
  have m: "n mod 65535 = fold16 n mod 65535" by (subst q) simp
  have z: "fold16 n = 0 \<longleftrightarrow> n = 0" by (simp add: fold16_def)
  have "fold16 n mod 65535 = 0 \<longleftrightarrow> fold16 n = 0 \<or> fold16 n = 65535"
    using fold16_le[of n] by (cases "fold16 n = 65535") auto
  then show ?thesis using m z by auto
qed

lemma Check_Sum_hw:
  assumes "n \<le> length data" "n \<le> 131072"
  obtains c where "Check_Sum data n = Some c"
    and "unat c = 65535 - fold16 (hw_sum (take (2 * (n div 2)) data))"
proof -
  have "65535 * (n div 2) < 4294967296" using assms(2) by linarith
  then obtain s where "check_sum_loop 0 data n = Some s" "unat s = hw_sum (take (2 * (n div 2)) data)"
    using check_sum_loop_hw[of 0 n data] assms(1) by auto
  then show thesis using that by (simp add: Check_Sum_def unat_end_around)
qed

lemma CheckRec_iff:
  assumes "n \<le> length data" "n \<le> 131072" "even n"
  shows "CheckRec data n = Some (0 < hw_sum (take n data) \<and> hw_sum (take n data) mod 65535 = 0)"
proof -
  obtain c where c: "Check_Sum data n = Some c" "unat c = 65535 - fold16 (hw_sum (take n data))"
    using Check_Sum_hw[OF assms(1,2)] assms(3) by auto
  have "c = 0 \<longleftrightarrow> unat c = 0" by (simp add: unat_eq_0)
  also have "\<dots> \<longleftrightarrow> fold16 (hw_sum (take n data)) = 65535" using c(2) fold16_le[of "hw_sum (take n data)"] by auto
  finally show ?thesis using c(1) by (simp add: CheckRec_def fold16_full_iff)
qed

lemma hw_sum_update:
  "i < length m \<Longrightarrow> even (length m) \<Longrightarrow>
   hw_sum (m[i := x]) + (if even i then 1 else 256) * unat (m ! i) = hw_sum m + (if even i then 1 else 256) * unat x"
proof (induction m arbitrary: i rule: hw_sum.induct)
  case (1 a b data)
  then show ?case
    by (cases i; cases "i - 1") (auto simp: algebra_simps nth_Cons' split: nat.splits)
qed auto

lemma unat_byte_sum: "unat (byte 0 c) + 256 * unat (byte (Suc 0) c) = unat (c :: u16)"
  using unat_le16 [of "byte 0 c" "byte 1 c"] le16_bytes[of c] by simp

lemma swapped_sum_or: "swapped_sum c = push_bit 8 (ucast c) OR drop_bit 8 (ucast c)"
proof -
  have "push_bit 8 (ucast c :: u32) AND drop_bit 8 (ucast c) = 0"
    by (rule bit_word_eqI) (auto simp: bit_simps dest: bit_imp_le_length)
  then show ?thesis by (simp add: swapped_sum_def disjunctive_add_eq_or)
qed

lemma swapped_bytes [byte_simps]:
  "byte (Suc 0) (swapped_sum c) = byte 0 c" "byte 0 (swapped_sum c) = byte (Suc 0) c"
proof -
  show "byte (Suc 0) (swapped_sum c) = byte 0 c"
    by (rule bit_word_eqI) (auto simp: swapped_sum_or byte_def bit_simps dest: bit_imp_le_length)
  show "byte 0 (swapped_sum c) = byte (Suc 0) c"
    by (rule bit_word_eqI) (auto simp: swapped_sum_or byte_def bit_simps dest: bit_imp_le_length)
qed

lemma checksum_seals:
  assumes m: "even (length m)" "length m \<le> 131072"
    and k: "even k" "k + 1 < length m" "m ! k = 0" "m ! (k + 1) = 0"
    and c: "Check_Sum m (length m) = Some c"
  shows "CheckRec (SET_DATA_2B m k (swapped_sum c)) (length m) = Some True"
proof -
  let ?m' = "m[k := byte 0 c]" 
  let ?m = "?m'[k + 1 := byte 1 c]"
  have eq: "SET_DATA_2B m k (swapped_sum c) = ?m" by (simp add: SET_DATA_2B_def swapped_bytes)
  have 1: "hw_sum ?m' = hw_sum m + unat (byte 0 c)"
    using hw_sum_update[of k m "byte 0 c"] m k by simp
  have "hw_sum ?m = hw_sum ?m' + 256 * unat (byte 1 c)"
    using hw_sum_update[of "k + 1" ?m' "byte 1 c"] m k by simp
  then have s: "hw_sum ?m = hw_sum m + unat c" using 1 unat_byte_sum[of c] by simp
  have "unat c = 65535 - fold16 (hw_sum m)"
    using Check_Sum_hw[of "length m" m] m c by auto
  then have h: "hw_sum ?m = hw_sum m - fold16 (hw_sum m) + 65535"
    using s fold16_le[of "hw_sum m"] fold16_le_self[of "hw_sum m"] by simp
  obtain q where "hw_sum m = fold16 (hw_sum m) + 65535 * q" using fold16_decomp by blast
  then have "hw_sum ?m = 65535 * (q + 1)" using h by simp
  then have "hw_sum ?m mod 65535 = 0" "0 < hw_sum ?m" by (simp_all only: mod_mult_self1_is_0) auto
  then show ?thesis using m by (simp add: eq CheckRec_iff)
qed

text \<open>One changed byte changes the sum by a nonzero multiple of 1 or 256 that is smaller than 65535.\<close>

lemma even_corruption:
  assumes m: "even (length m)" "length m \<le> 131072" "CheckRec m (length m) = Some True"
    and i: "i < length m" "b \<noteq> m ! i"
  shows "CheckRec (m[i := b]) (length m) = Some False"
proof -
  let ?w = "if even i then 1 else 256 :: nat"
  have z: "hw_sum m mod 65535 = 0" using m by (simp add: CheckRec_iff)
  have u: "hw_sum (m[i := b]) + ?w * unat (m ! i) = hw_sum m + ?w * unat b"
    using hw_sum_update[of i m b] m i by simp
  have ne: "unat b \<noteq> unat (m ! i)" using i(2) word_unat_eq_iff by metis
  have lt: "unat b < 256" "unat (m ! i) < 256" by (rule unat_u8)+
  have "hw_sum (m[i := b]) mod 65535 \<noteq> 0"
  proof
    assume "hw_sum (m[i := b]) mod 65535 = 0"
    then have "65535 dvd hw_sum (m[i := b])" "65535 dvd hw_sum m" using z by (simp_all add: mod_eq_0_iff_dvd)
    then have "int 65535 dvd (int (hw_sum (m[i := b])) - int (hw_sum m))"
      by (metis dvd_diff of_nat_dvd_iff)
    moreover have "int (hw_sum (m[i := b])) - int (hw_sum m) = int ?w * (int (unat b) - int (unat (m ! i)))"
      using arg_cong [OF u, of int] by (simp add: algebra_simps split: if_splits)
    ultimately have d: "65535 dvd int ?w * (int (unat b) - int (unat (m ! i)))" by simp
    moreover have "int ?w * (int (unat b) - int (unat (m ! i))) \<noteq> 0"
    proof -
      have "int (unat b) - int (unat (m ! i)) \<noteq> 0" using ne by (simp only: right_minus_eq of_nat_eq_iff not_False_eq_True)
      moreover have "int ?w \<noteq> 0" by simp
      ultimately show ?thesis by (metis mult_eq_0_iff)
    qed
    ultimately have "65535 \<le> \<bar>int ?w * (int (unat b) - int (unat (m ! i)))\<bar>"
      using zdvd_imp_le[of 65535 "\<bar>int ?w * (int (unat b) - int (unat (m ! i)))\<bar>"] by simp
    moreover have "\<bar>int (unat b) - int (unat (m ! i))\<bar> < 256" using lt by linarith
    then have "\<bar>int ?w * (int (unat b) - int (unat (m ! i)))\<bar> < 65535" by (simp add: abs_mult)
    ultimately show False by linarith
  qed
  then show ?thesis using m by (simp add: CheckRec_iff)
qed

text \<open>The last byte of a message of odd length is in no halfword of the sum.\<close>

lemma CheckRec_even_part:
  assumes "n \<le> length m" "n \<le> 131072"
  shows "CheckRec m n = CheckRec (take (2 * (n div 2)) m) (2 * (n div 2))"
proof -
  let ?k = "2 * (n div 2)"
  have k: "?k \<le> n" by simp
  obtain c where c: "Check_Sum m n = Some c" "unat c = 65535 - fold16 (hw_sum (take ?k m))"
    using Check_Sum_hw [OF assms] by blast
  obtain d where d: "Check_Sum (take ?k m) ?k = Some d" "unat d = 65535 - fold16 (hw_sum (take ?k m))"
    using Check_Sum_hw [of ?k "take ?k m"] assms k by auto
  have "c = d" using c(2) d(2) by (simp add: word_unat_eq_iff)
  then show ?thesis using c(1) d(1) by (simp add: CheckRec_def)
qed

lemma byte_corruption:
  assumes m: "length m \<le> 131072" "CheckRec m (length m) = Some True"
    and i: "i < length m" "b \<noteq> m ! i"
  shows "CheckRec (m[i := b]) (length m) = Some (odd (length m) \<and> i = length m - 1)"
proof (cases "even (length m)")
  case True
  then show ?thesis using even_corruption [OF True m i] by simp
next
  case False
  let ?k = "2 * (length m div 2)"
  have k: "length m = Suc ?k" using False by (metis odd_two_times_div_two_succ Suc_eq_plus1)
  have acc: "CheckRec (take ?k m) (length (take ?k m)) = Some True"
    using CheckRec_even_part [of "length m" m] m k by simp
  have eq: "CheckRec (m[i := b]) (length m) = CheckRec (take ?k (m[i := b])) ?k"
    using CheckRec_even_part [of "length m" "m[i := b]"] m by simp
  show ?thesis
  proof (cases "i = ?k")
    case True
    then show ?thesis using eq acc k False by simp
  next
    case False
    then have ik: "i < ?k" using i(1) k by simp
    have "CheckRec ((take ?k m)[i := b]) (length (take ?k m)) = Some False"
      using ik i m(1) k acc by (intro even_corruption) auto
    moreover have "i \<noteq> length m - 1" using ik k by linarith
    ultimately show ?thesis using eq False by (simp add: take_update_swap)
  qed
qed

text \<open>C2. After any one byte of an accepted message is replaced by another value the message is
  refused, but for the last byte of a message of odd length: no halfword of the sum contains it, so
  the changed message is accepted too.\<close>

theorem corruption_detected:
  assumes "length m \<le> 131072" "CheckRec m (length m) = Some True" "i < length m" "b \<noteq> m ! i"
  shows "CheckRec (m[i := b]) (length m) = Some (odd (length m) \<and> i = length m - 1)"
  using assms by (rule byte_corruption)

theorem corruption_detected_witness:
  "CheckRec ([0xff, 0xff, 0, 0][1 := 3]) (length [0xff, 0xff, 0, 0 :: u8]) = Some False
   \<and> CheckRec ([0xff, 0xff, 7][2 := 3]) (length [0xff, 0xff, 7 :: u8]) = Some True"
proof -
  have "CheckRec [0xff, 0xff, 0, 0] (length [0xff, 0xff, 0, 0 :: u8]) = Some True"
    "CheckRec [0xff, 0xff, 7] (length [0xff, 0xff, 7 :: u8]) = Some True" by code_simp+
  then show ?thesis
    using corruption_detected [of "[0xff, 0xff, 0, 0]" 1 3] corruption_detected [of "[0xff, 0xff, 7]" 2 3] by simp
qed

section \<open>Fields, frames and headers\<close>

lemma ANALYZE_4B_be32: "ANALYZE_DATA_4B buf a = be32 (buf ! a) (buf ! (a + 1)) (buf ! (a + 2)) (buf ! (a + 3))"
proof (rule bit_word_eqI)
  fix n :: nat
  assume "n < LENGTH(32)"
  then show "bit (ANALYZE_DATA_4B buf a :: u32) n
      \<longleftrightarrow> bit (be32 (buf ! a) (buf ! (a + 1)) (buf ! (a + 2)) (buf ! (a + 3))) n"
    by (auto simp: ANALYZE_DATA_4B_def be32_def bit_simps)
qed

lemma ANALYZE_2B_be16: "ANALYZE_DATA_2B buf a = be16 (buf ! a) (buf ! (a + 1))"
  by (simp add: ANALYZE_DATA_2B_def be16_def)

lemma ANALYZE_4B_u16: "ANALYZE_DATA_4B buf a = be16 (buf ! (a + 2)) (buf ! (a + 3))"
proof (rule bit_word_eqI)
  fix n :: nat
  assume "n < LENGTH(16)"
  then show "bit (ANALYZE_DATA_4B buf a :: u16) n \<longleftrightarrow> bit (be16 (buf ! (a + 2)) (buf ! (a + 3))) n"
    by (auto simp: ANALYZE_DATA_4B_def be16_def bit_simps dest: bit_imp_le_length)
qed

lemmas analyze_simps = ANALYZE_4B_be32 ANALYZE_2B_be16 ANALYZE_4B_u16

lemmas set_data_defs = SET_DATA_4B_def SET_DATA_2B_def

lemma be32_bytes' [simp]: "be32 (byte 3 d) (byte 2 d) (byte (Suc 0) d) (byte 0 d) = (d :: u32)"
  using be32_bytes[of d] by simp

lemma Check_Sum_defined: "n \<le> length m \<Longrightarrow> n \<le> 131072 \<Longrightarrow> \<exists>c. Check_Sum m n = Some c"
  by (meson Check_Sum_hw)

text \<open>C1. A request or status frame packed into a 20-byte buffer whose checksum field is
  zero carries the start and end marks, gives back the type, symbol, identifier, time and reserve
  word through the analysing macros, and passes \<^verbatim>\<open>CheckRec\<close>.\<close>

theorem pack_req_frame:
  assumes len: "length message = 20" and zero: "message ! 16 = 0" "message ! 17 = 0"
  shows "\<exists>m. Pack_Req_Or_Status_Message message type symbol id' UNIX_time preservation = Some m
    \<and> length m = 20 \<and> CheckRec m 20 = Some True
    \<and> m ! 0 = 0xCF \<and> m ! 1 = 0xFC \<and> m ! 2 = type \<and> m ! 3 = symbol
    \<and> ANALYZE_DATA_4B m 4 = id' \<and> ANALYZE_DATA_4B m 8 = UNIX_time \<and> ANALYZE_DATA_4B m 12 = preservation
    \<and> m ! 18 = 0xFC \<and> m ! 19 = 0xCF"
proof -
  let ?b = "(SET_DATA_4B (SET_DATA_4B (SET_DATA_4B (message[0 := 0xCF, 1 := 0xFC, 2 := type, 3 := symbol]) 4 id') 8 UNIX_time)
       12 preservation)[18 := 0xFC, 19 := 0xCF]"
  have l: "length ?b = 20" by (simp add: set_data_defs len)
  obtain c where c: "Check_Sum ?b 20 = Some c" using Check_Sum_defined[of 20 ?b] l by auto
  let ?m = "SET_DATA_2B ?b 16 (swapped_sum c)"
  have "CheckRec ?m 20 = Some True"
    using checksum_seals[of ?b 16 c] l c by (simp add: set_data_defs len zero)
  moreover have "Pack_Req_Or_Status_Message message type symbol id' UNIX_time preservation = Some ?m"
    using c by (simp add: Pack_Req_Or_Status_Message_def)
  moreover have "length ?m = 20" by (simp add: set_data_defs len)
  ultimately show ?thesis by (simp add: analyze_simps set_data_defs len)
qed

theorem pack_req_frame_witness:
  "\<exists>m. Pack_Req_Or_Status_Message (replicate 20 0) 0x20 7 0x1234 99 5 = Some m \<and> length m = 20
    \<and> CheckRec m 20 = Some True \<and> ANALYZE_DATA_4B m 4 = (0x1234 :: u32)"
  using pack_req_frame [of "replicate 20 0" "0x20" 7 "0x1234" 99 5] by (auto simp: nth_Cons')

text \<open>A contract frame packed into a 28-byte buffer whose checksum field is zero
  carries its marks and type code, gives back every field (number, times, speed, buffer size and
  health) and passes \<^verbatim>\<open>CheckRec\<close>.\<close>

lemma pack_contract_frame:
  assumes len: "length message = 28" and zero: "message ! 24 = 0" "message ! 25 = 0"
  shows "\<exists>m. Pack_Contract_Message message type contract_number mcu_id UNIX_time mcu_speed mcu_maxBufSize mcu_health = Some m
    \<and> length m = 28 \<and> CheckRec m 28 = Some True
    \<and> m ! 0 = 0xbf \<and> m ! 1 = 0xfb \<and> m ! 2 = contract_type_code type
    \<and> ANALYZE_DATA_4B m 4 = UNIX_time \<and> ANALYZE_DATA_2B m 8 = contract_number
    \<and> ANALYZE_DATA_4B m 12 = mcu_id \<and> ANALYZE_DATA_2B m 16 = mcu_speed
    \<and> ANALYZE_DATA_2B m 18 = mcu_maxBufSize \<and> ANALYZE_DATA_4B m 20 = mcu_health
    \<and> m ! 26 = 0xfb \<and> m ! 27 = 0xbf"
proof -
  let ?b = "(SET_DATA_4B (SET_DATA_2B (SET_DATA_2B (SET_DATA_2B (SET_DATA_4B (SET_DATA_4B
       (message[0 := 0xbf, 1 := 0xfb, 2 := contract_type_code type]) 4 UNIX_time) 12 mcu_id)
        8 (ucast contract_number)) 16 (ucast mcu_speed)) 18 (ucast mcu_maxBufSize)) 20 mcu_health)[26 := 0xfb, 27 := 0xbf]"
  have l: "length ?b = 28" by (simp add: set_data_defs len)
  obtain c where c: "Check_Sum ?b 28 = Some c" using Check_Sum_defined[of 28 ?b] l by auto
  let ?m = "SET_DATA_2B ?b 24 (swapped_sum c)"
  have "CheckRec ?m 28 = Some True"
    using checksum_seals[of ?b 24 c] l c by (simp add: set_data_defs len zero)
  moreover have "Pack_Contract_Message message type contract_number mcu_id UNIX_time mcu_speed mcu_maxBufSize mcu_health = Some ?m"
    using c by (simp add: Pack_Contract_Message_def)
  moreover have "length ?m = 28" by (simp add: set_data_defs len)
  moreover have "byte n (ucast (w :: u16) :: u32) = byte n w" for n w
    by (rule bit_word_eqI) (auto simp: byte_def bit_simps dest: bit_imp_le_length)
  moreover have "be16 (byte (Suc 0) w) (byte 0 w) = w" for w :: u16 using be16_bytes[of w] by simp
  ultimately show ?thesis by (simp add: analyze_simps set_data_defs len)
qed


lemma analyze_part_foldl:
  "analyze_part d src (length src) = foldl (\<lambda>d b. push_bit 8 d OR ucast b) d src"
  by (induction src arbitrary: d) auto

lemma split_parse:
  assumes "length bs = 4" "k \<le> 4"
  shows "Analyze_Data_With_Diff_Part (take k bs) k (drop k bs) (4 - k) = ANALYZE_DATA_4B bs 0"
proof -
  obtain a b c d where bs: "bs = [a, b, c, d]" using assms(1) by (auto simp: length_Suc_conv numeral_eq_Suc)
  have "Analyze_Data_With_Diff_Part (take k bs) k (drop k bs) (4 - k)
      = foldl (\<lambda>d b. push_bit 8 d OR ucast b) 0 (take k bs @ drop k bs)"
    using analyze_part_foldl [of 0 "take k bs"] analyze_part_foldl [of _ "drop k bs"] assms
    by (simp add: Analyze_Data_With_Diff_Part_def del: append_take_drop_id)
  also have "\<dots> = ANALYZE_DATA_4B bs 0" by (simp add: bs ANALYZE_DATA_4B_def)
  finally show ?thesis .
qed

lemma check_sum_loop_append:
  "even (length xs) \<Longrightarrow> check_sum_loop acc (xs @ ys) (length xs + n) =
     (case check_sum_loop acc xs (length xs) of None \<Rightarrow> None | Some s \<Rightarrow> check_sum_loop s ys n)"
proof (induction xs arbitrary: acc rule: hw_sum.induct)
  case (1 a b data)
  then show ?case by simp
qed (auto simp: )

lemma Add_Sum_even: "even n \<Longrightarrow> n \<le> length xs \<Longrightarrow> Add_Sum acc xs n = check_sum_loop acc (take n xs) n"
proof (induction xs arbitrary: acc n rule: hw_sum.induct)
  case (1 a b src)
  show ?case
  proof (cases n)
    case (Suc k)
    then obtain j where "k = Suc j" using 1(2) by (cases k) auto
    then show ?thesis using 1 Suc by simp
  qed simp
qed (auto simp: le_Suc_eq)

text \<open>
  The checksum of a message that lies in two pieces of even length is the checksum of the
  pieces laid end to end.
\<close>

lemma checksum_of_parts:
  assumes "even len1" "even len2" "len1 \<le> length src1" "len2 \<le> length src2"
  shows "Check_Sum_With_Diff_Part src1 len1 src2 len2 = Check_Sum (take len1 src1 @ take len2 src2) (len1 + len2)"
proof -
  have l: "length (take len1 src1) = len1" using assms by simp
  show ?thesis
    using check_sum_loop_append[of "take len1 src1" 0 "take len2 src2" len2] assms
    unfolding l by (auto simp: Check_Sum_With_Diff_Part_def Check_Sum_def Add_Sum_even split: option.splits)
qed

text \<open>
  With an odd split the last byte of the first piece enters as a low byte of its own and the
  second piece is read in shifted halfwords, so an intact message is refused.
\<close>

lemma checksum_of_odd_parts:
  "Check_Sum_With_Diff_Part [0xff] 1 [0xff, 0, 0] 3 \<noteq> Check_Sum [0xff, 0xff, 0, 0] 4"
  by code_simp

lemma match_from_step:
  "match_from d s i len sub_len \<longleftrightarrow>
     i < len \<and> d ! i = s ! i \<and> (Suc i = sub_len \<or> match_from d s (Suc i) len sub_len)"
  by (subst match_from.simps) (simp only: Suc_eq_plus1 if_bool_eq_disj, blast)

lemma match_from_iff:
  "i < sub_len \<Longrightarrow> sub_len \<le> len \<Longrightarrow>
   match_from d s i len sub_len \<longleftrightarrow> (\<forall>j. i \<le> j \<and> j < sub_len \<longrightarrow> d ! j = s ! j)"
proof (induction "sub_len - i" arbitrary: i)
  case (Suc n)
  have split: "(\<forall>j. i \<le> j \<and> j < sub_len \<longrightarrow> d ! j = s ! j)
      \<longleftrightarrow> d ! i = s ! i \<and> (\<forall>j. Suc i \<le> j \<and> j < sub_len \<longrightarrow> d ! j = s ! j)"
    using Suc.prems(1) by (metis Suc_leD le_neq_implies_less less_eq_Suc_le order_refl)
  have "Suc i = sub_len \<or> match_from d s (Suc i) len sub_len
      \<longleftrightarrow> (\<forall>j. Suc i \<le> j \<and> j < sub_len \<longrightarrow> d ! j = s ! j)"
  proof (cases "Suc i = sub_len")
    case False
    then have "match_from d s (Suc i) len sub_len \<longleftrightarrow> (\<forall>j. Suc i \<le> j \<and> j < sub_len \<longrightarrow> d ! j = s ! j)"
      using Suc by (intro Suc.hyps) auto
    then show ?thesis using False by (simp only: simp_thms)
  qed auto
  then show ?case unfolding split match_from_step[of d s i]
    using Suc.prems by (meson less_le_trans)
qed simp

lemma match_from_occurs:
  assumes "0 < length substr" "length substr \<le> len" "p + len \<le> length data"
  shows "match_from (drop p data) substr 0 len (length substr) = occurs_at substr data p"
proof -
  have "length (take (length substr) (drop p data)) = length substr" using assms by simp
  then have "occurs_at substr data p \<longleftrightarrow> (\<forall>j < length substr. drop p data ! j = substr ! j)"
    by (simp only: occurs_at_def list_eq_iff_nth_eq) simp
  then show ?thesis using match_from_iff[OF assms(1,2), of "drop p data" substr] by simp
qed

lemma find_substr_step:
  "find_substr_head_loop data substr pos len sub_len =
     (if sub_len \<le> len \<and> 0 < len
      then if match_from (drop pos data) substr 0 len sub_len then Some (pos, len)
           else find_substr_head_loop data substr (Suc pos) (len - 1) sub_len
      else None)"
  by (subst find_substr_head_loop.simps) (simp only: Suc_eq_plus1)

lemma find_substr_head_loop_find:
  assumes "0 < length substr" "pos + len \<le> length data"
  shows "find_substr_head_loop data substr pos len (length substr) =
    map_option (\<lambda>p. (p, pos + len - p)) (List.find (occurs_at substr data) [pos ..< pos + len + 1 - length substr])"
  using assms
proof (induction len arbitrary: pos)
  case 0
  then have "[pos ..< pos + 0 + 1 - length substr] = []" by (intro upt_eq_Nil_conv[THEN iffD2]) linarith
  then show ?case using 0 unfolding find_substr_step[of data substr pos 0] by (simp only: find.simps) simp
next
  case (Suc len)
  show ?case
  proof (cases "length substr \<le> Suc len")
    case True
    then have u: "[pos ..< pos + Suc len + 1 - length substr] = pos # [Suc pos ..< Suc pos + len + 1 - length substr]"
      by (subst upt_conv_Cons) auto
    have ih: "find_substr_head_loop data substr (Suc pos) len (length substr) =
      map_option (\<lambda>p. (p, Suc pos + len - p)) (List.find (occurs_at substr data) [Suc pos ..< Suc pos + len + 1 - length substr])"
      using Suc.prems by (intro Suc.IH) auto
    have m: "match_from (drop pos data) substr 0 (Suc len) (length substr) = occurs_at substr data pos"
      using Suc.prems True by (intro match_from_occurs) auto
    show ?thesis
      unfolding find_substr_step[of data substr pos "Suc len"] u find.simps m
      using ih True by (cases "occurs_at substr data pos") simp_all
  next
    case False
    then have "[pos ..< pos + Suc len + 1 - length substr] = []"  by (intro upt_eq_Nil_conv[THEN iffD2]) linarith
    then show ?thesis using False by (subst find_substr_step) simp
  qed
qed

lemma order_head_step:
  assumes "Suc i < len" "Suc i < length data"
  shows "find_order_head_loop data i len =
     (if order_head_at data i = 0 then find_order_head_loop data (Suc i) (len - 1) else (order_head_at data i, i, len))"
proof -
  have tk: "take 2 (drop i data) = [data ! i, data ! Suc i]"
    using assms(2) by (simp add: numeral_2_eq_2 take_Suc_conv_app_nth)
  show ?thesis
    by (subst (1) find_order_head_loop.simps) (simp add: order_head_at_def tk assms(1))
qed

lemma find_order_head_loop_find:
  assumes "i + len \<le> length data"
  shows "find_order_head_loop data i len =
   (case List.find (\<lambda>p. order_head_at data p \<noteq> 0) [i ..< (i + len) div 2] of
      None \<Rightarrow> (0, i + (len - i) div 2, len - (len - i) div 2)
    | Some p \<Rightarrow> (order_head_at data p, p, len - (p - i)))"
  using assms
proof (induction "len - i" arbitrary: i len rule: less_induct)
  case less
  show ?case
  proof (cases "Suc i < len")
    case True
    then have "Suc i < length data" using less.prems by linarith
    have u: "[i ..< (i + len) div 2] = i # [Suc i ..< (Suc i + (len - 1)) div 2]"
      using True by (subst upt_conv_Cons) auto
    have ih: "find_order_head_loop data (Suc i) (len - 1) =
   (case List.find (\<lambda>p. order_head_at data p \<noteq> 0) [Suc i ..< (Suc i + (len - 1)) div 2] of
      None \<Rightarrow> (0, Suc i + (len - 1 - Suc i) div 2, (len - 1) - (len - 1 - Suc i) div 2)
    | Some p \<Rightarrow> (order_head_at data p, p, (len - 1) - (p - Suc i)))"
      using True less.prems by (intro less.hyps) auto
    have d: "(len - i) div 2 = Suc ((len - 1 - Suc i) div 2)" using True by arith
    show ?thesis
    proof (cases "order_head_at data i = 0")
      case t: True
      have "p \<ge> Suc i" if "List.find (\<lambda>p. order_head_at data p \<noteq> 0) [Suc i ..< (Suc i + (len - 1)) div 2] = Some p" for p
        using that by (auto simp: find_Some_iff)
      then show ?thesis unfolding u find.simps order_head_step[OF True \<open>Suc i < length data\<close>]
        using ih t d by (auto split: option.split)
    next
      case f: False
      then show ?thesis unfolding u find.simps order_head_step[OF True \<open>Suc i < length data\<close>]
        using f by auto
    qed
  next
    case False
    then have "[i ..< (i + len) div 2] = []" by (intro upt_eq_Nil_conv[THEN iffD2]) linarith
    then show ?thesis using False by (subst find_order_head_loop.simps) simp
  qed
qed


text \<open>\<^verbatim>\<open>find_substr_head\<close> moves the pointer to the first occurrence of
  the header in the first \<open>len\<close> bytes and shortens the length by the bytes it skipped;
  without an occurrence it leaves the pointer and sets the length to 0.\<close>

lemma substr_head_first:
  assumes "substr \<noteq> []" "len \<le> length data"
  shows "find_substr_head data substr len (length substr) =
    map_option (\<lambda>p. (p, len - p)) (List.find (occurs_at substr data) [0 ..< len + 1 - length substr])"
  using find_substr_head_loop_find [of substr 0 len data] assms by (simp add: find_substr_head_def)

text \<open>C3. \<^verbatim>\<open>find_order_head\<close> reports the first contract, batch or order header
  that starts in the first half of the buffer, with its offset and the remaining length, and
  reports none, with length 0, when no header starts there: the loop moves its index up and
  the length down in each step.\<close>

theorem order_head_first_half:
  assumes "len \<le> length data"
  shows "find_order_head data len =
    (case List.find (\<lambda>p. order_head_at data p \<noteq> 0) [0 ..< len div 2] of
       None \<Rightarrow> (0, len div 2, 0)
     | Some p \<Rightarrow> (order_head_at data p, p, len - p))"
proof (cases "List.find (\<lambda>p. order_head_at data p \<noteq> 0) [0 ..< len div 2]")
  case None
  then show ?thesis
    using find_order_head_loop_find [of 0 len data] assms by (simp add: find_order_head_def)
next
  case (Some p)
  then have "order_head_at data p \<noteq> 0" by (auto simp: find_Some_iff)
  then show ?thesis
    using find_order_head_loop_find [of 0 len data] assms Some by (simp add: find_order_head_def)
qed

theorem order_head_first_half_witness:
  "find_order_head [7, 0x3e, 0x11, 0, 0, 0] 6 = (3, 1, 5) \<and> find_order_head [7, 7, 0xaa, 0x55] 4 = (0, 2, 0)"
  using order_head_first_half [of 6 "[7, 0x3e, 0x11, 0, 0, 0]"] order_head_first_half [of 4 "[7, 7, 0xaa, 0x55]"]
  by (simp add: upt_rec order_head_at_def)

text \<open>
  The batch table keeps a 16-bit checksum but is filled with the four-byte macro, whose upper
  half is shifted out: the field holds the reserve bytes 14 and 15 and not the checksum bytes
  12 and 13.
\<close>

lemma batch_check_sum_is_reserve:
  assumes "length batch_info_table = 10"
  shows "bi_check_sum (Analyze_Batch_Info_Table batch_info_table d n ! unat (get_batch_hash n)) =
         bi_preservation (Analyze_Batch_Info_Table batch_info_table d n ! unat (get_batch_hash n))"
proof -
  have "unat (get_batch_hash n) < 10"
    by (simp add: get_batch_hash_def unsigned_ucast_eq take_bit_eq_mod unat_mod_distrib)
  then show ?thesis
    by (simp add: Analyze_Batch_Info_Table_def Let_def assms analyze_simps)
qed

end
