(* ===== verification/Request_Heap.thy ===== *)
theory Request_Heap
  imports Prelude "HOL-Library.Multiset"
begin

text \<open>
  The queue of wifi order requests, \<^verbatim>\<open>User/src/RequestHeap.c\<close>: an array heap of at
  most 49 requests, earliest creation time first, and the task \<^verbatim>\<open>DealWifiReq\<close> that
  grants requests while the buffer capacity lasts.  Using an array cell outside
  \<^verbatim>\<open>req[50]\<close> is the value \<^term>\<open>None\<close>.  Since any index above 49 is such a use,
  the \<^verbatim>\<open>u8_t\<close> positions never wrap before and are natural numbers here; the counter
  keeps its width.
\<close>

section \<open>State\<close>

record Request =
  rq_orderLen :: u32
  rq_recTime :: u32
  rq_ipAdd :: u32

record Heap =
  hp_flag :: u8
  hp_count :: u8
  hp_capcity :: u32
  hp_req :: "Request list"

abbreviation (input) "REQ_MAX_SIZE \<equiv> (50 :: nat)"
abbreviation (input) "WAIT_FOR_BUF \<equiv> (1 :: u8)"
abbreviation (input) "BUF_CAP_FULFILL \<equiv> (0 :: u8)"
abbreviation (input) "MAX_CAPCITY \<equiv> (10240 :: u32)"

section \<open>Heap operations\<close>

definition swapReq :: "Request list \<Rightarrow> nat \<Rightarrow> nat \<Rightarrow> Request list" where
  "swapReq r a b = r[a := r ! b, b := r ! a]"

fun AdjustHeap :: "Request list \<Rightarrow> nat \<Rightarrow> Request list" where
  "AdjustHeap r pos =
     (if 1 < pos
      then if rq_recTime (r ! pos) < rq_recTime (r ! (pos div 2))
           then AdjustHeap (swapReq r (pos div 2) pos) (pos div 2) else r
      else r)"

declare AdjustHeap.simps [simp del]

definition InsertHeap :: "Heap \<Rightarrow> Request \<Rightarrow> Heap option" where
  "InsertHeap heap req =
     (let n = hp_count heap + 1
      in if unat n < length (hp_req heap)
         then Some (heap\<lparr>hp_count := n, hp_req := AdjustHeap ((hp_req heap)[unat n := req]) (unat n)\<rparr>)
         else None)"

text \<open>
  \<^verbatim>\<open>DownHeap\<close> (the bound on the child covers the neighbour too) picks the right child when the element exceeds its right neighbour in the
  array, and compares with the left child even when there is none.
\<close>

definition down_child :: "Request list \<Rightarrow> nat \<Rightarrow> nat \<Rightarrow> nat" where
  "down_child r cnt index =
     (if 2 * index < cnt \<and> rq_recTime (r ! (index + 1)) < rq_recTime (r ! index)
      then 2 * index + 1 else 2 * index)"

function DownHeap :: "Request list \<Rightarrow> nat \<Rightarrow> nat \<Rightarrow> Request list option" where
  "DownHeap r cnt index =
     (if index \<le> cnt
      then if length r \<le> down_child r cnt index then None
           else if rq_recTime (r ! down_child r cnt index) < rq_recTime (r ! index)
           then DownHeap (swapReq r index (down_child r cnt index)) cnt (down_child r cnt index)
           else Some r
      else Some r)"
  by pat_completeness auto
termination
proof (relation "measure (\<lambda>(r, cnt, index). length r - index)")
  fix r :: "Request list" and cnt index :: nat
  assume a: "\<not> (length r \<le> down_child r cnt index)"
    "rq_recTime (r ! down_child r cnt index) < rq_recTime (r ! index)"
  then have "index \<noteq> down_child r cnt index" by auto
  then have "index < down_child r cnt index" by (auto simp: down_child_def split: if_splits)
  then show "((swapReq r index (down_child r cnt index), cnt, down_child r cnt index), r, cnt, index)
      \<in> measure (\<lambda>(r, cnt, index). length r - index)"
    using a by (auto simp: swapReq_def)
qed simp

declare DownHeap.simps [simp del]

definition DeleteHeap :: "Heap \<Rightarrow> Heap option" where
  "DeleteHeap heap =
     (if unat (hp_count heap) < length (hp_req heap)
      then let r = (hp_req heap)[1 := hp_req heap ! unat (hp_count heap)]; n = hp_count heap - 1
           in map_option (\<lambda>r. heap\<lparr>hp_count := n, hp_req := r\<rparr>) (DownHeap r (unat n) 1)
      else None)"

definition UpdateHeap :: "Heap \<Rightarrow> Heap" where
  "UpdateHeap heap = (if 0 < hp_count heap then heap\<lparr>hp_flag := WAIT_FOR_BUF\<rparr> else heap)"

definition InitHeap :: "Heap \<Rightarrow> Heap" where
  "InitHeap heap = heap\<lparr>hp_count := 0, hp_flag := BUF_CAP_FULFILL, hp_capcity := MAX_CAPCITY\<rparr>"

definition zero_heap :: Heap where
  "zero_heap = \<lparr>hp_flag = 0, hp_count = 0, hp_capcity = 0,
     hp_req = replicate REQ_MAX_SIZE \<lparr>rq_orderLen = 0, rq_recTime = 0, rq_ipAdd = 0\<rparr>\<rparr>"

section \<open>Granting requests\<close>

definition WAIT :: "Heap \<Rightarrow> bool" where
  "WAIT heap \<longleftrightarrow> hp_capcity heap < rq_orderLen (hp_req heap ! 1)"

text \<open>\<^verbatim>\<open>ChangeCpa\<close> of \<^verbatim>\<open>wifi_conf.c\<close>: the capacity that a received order gives back.\<close>

definition ChangeCpa :: "Heap \<Rightarrow> u16 \<Rightarrow> Heap" where
  "ChangeCpa heap len = heap\<lparr>hp_capcity := hp_capcity heap + ucast len\<rparr>"

text \<open>The tail of the loop body: the address that is acknowledged, and the heap without the top.\<close>

definition grant :: "Heap \<Rightarrow> (u32 \<times> Heap) option" where
  "grant heap = map_option (Pair (rq_ipAdd (hp_req heap ! 1)))
     (DeleteHeap (heap\<lparr>hp_capcity := hp_capcity heap - rq_orderLen (hp_req heap ! 1)\<rparr>))"

text \<open>
  The system of the receiving task, which inserts a request and posts \<^verbatim>\<open>Rec_Wifi_Req_Sem\<close>,
  the order receiver, which gives capacity back and posts \<^verbatim>\<open>Capacity_Change_Sem\<close>, and the
  task \<^verbatim>\<open>DealWifiReq\<close>, which is between requests or waiting for capacity.  A step is
  the code between \<^verbatim>\<open>OSMutexPend(heap->mutex)\<close> and the matching post, taken as a whole: this
  is what the lock is meant to give, and the program does not give it, since it never creates
  \<^verbatim>\<open>heap->mutex\<close> (theory \<open>Start_Up\<close>), so its tasks may also meet inside these sections.
  An insertion outside \<^verbatim>\<open>req[50]\<close> has no step either: the runs here are those with
  at most 49 requests at a time.  \<open>ws_sent\<close> lists the acknowledged addresses, latest first.
\<close>

datatype deal_pc = Pend_Req | Pend_Cap

record wifi_state =
  ws_heap :: Heap
  ws_req_sem :: nat
  ws_cap_sem :: nat
  ws_pc :: deal_pc
  ws_sent :: "u32 list"

definition deal_body :: "wifi_state \<Rightarrow> wifi_state option" where
  "deal_body s =
     (if 0 < hp_count (ws_heap s) \<and> WAIT (ws_heap s) \<or> ws_pc s = Pend_Cap \<and> WAIT (ws_heap s)
      then Some (s\<lparr>ws_pc := Pend_Cap\<rparr>)
      else map_option (\<lambda>(ip, h). s\<lparr>ws_heap := h, ws_pc := Pend_Req, ws_sent := ip # ws_sent s\<rparr>)
             (grant (ws_heap s)))"

inductive wifi_step :: "wifi_state \<Rightarrow> wifi_state \<Rightarrow> bool" where
  receive: "InsertHeap (ws_heap s) req = Some h \<Longrightarrow>
     wifi_step s (s\<lparr>ws_heap := h, ws_req_sem := ws_req_sem s + 1\<rparr>)"
| give_back: "wifi_step s (s\<lparr>ws_heap := ChangeCpa (ws_heap s) len, ws_cap_sem := ws_cap_sem s + 1\<rparr>)"
| deal: "ws_pc s = Pend_Req \<Longrightarrow> 0 < ws_req_sem s \<Longrightarrow>
     deal_body (s\<lparr>ws_req_sem := ws_req_sem s - 1\<rparr>) = Some s' \<Longrightarrow> wifi_step s s'"
| retry: "ws_pc s = Pend_Cap \<Longrightarrow> 0 < ws_cap_sem s \<Longrightarrow>
     deal_body (s\<lparr>ws_cap_sem := ws_cap_sem s - 1\<rparr>) = Some s' \<Longrightarrow> wifi_step s s'"

definition wifi_init :: wifi_state where
  "wifi_init = \<lparr>ws_heap = InitHeap zero_heap, ws_req_sem = 0, ws_cap_sem = 0, ws_pc = Pend_Req, ws_sent = []\<rparr>"

section \<open>Heap order and contents\<close>

definition heap_array :: "Request list \<Rightarrow> nat \<Rightarrow> bool" where
  "heap_array r n \<longleftrightarrow> (\<forall>i \<in> {2..n}. rq_recTime (r ! (i div 2)) \<le> rq_recTime (r ! i))"

definition requests :: "Heap \<Rightarrow> Request list" where
  "requests heap = map (\<lambda>i. hp_req heap ! i) [1 ..< unat (hp_count heap) + 1]"

definition heap_ok :: "Heap \<Rightarrow> bool" where
  "heap_ok heap \<longleftrightarrow> length (hp_req heap) = REQ_MAX_SIZE \<and> unat (hp_count heap) < REQ_MAX_SIZE
     \<and> heap_array (hp_req heap) (unat (hp_count heap))"

section \<open>Insertion\<close>

lemma length_AdjustHeap [simp]: "length (AdjustHeap r pos) = length r"
proof (induction r pos rule: AdjustHeap.induct)
  case (1 r pos)
  then show ?case by (subst AdjustHeap.simps) (simp add: swapReq_def)
qed

text \<open>Heap order except between \<open>pos\<close> and its parent, and the children of \<open>pos\<close> fit under that parent.\<close>

definition heap_but :: "Request list \<Rightarrow> nat \<Rightarrow> nat \<Rightarrow> bool" where
  "heap_but r n pos \<longleftrightarrow>
     (\<forall>i \<in> {2..n}. i \<noteq> pos \<longrightarrow> rq_recTime (r ! (i div 2)) \<le> rq_recTime (r ! i))
   \<and> (\<forall>i \<in> {2..n}. i div 2 = pos \<longrightarrow> 1 < pos \<longrightarrow> rq_recTime (r ! (pos div 2)) \<le> rq_recTime (r ! i))"

lemma AdjustHeap_heap:
  "heap_but r n pos \<Longrightarrow> pos \<le> n \<Longrightarrow> n < length r \<Longrightarrow> heap_array (AdjustHeap r pos) n"
proof (induction r pos rule: AdjustHeap.induct)
  case (1 r pos)
  note hb = "1.prems"(1)
  show ?case
  proof (cases "1 < pos \<and> rq_recTime (r ! pos) < rq_recTime (r ! (pos div 2))")
    case True
    let ?p = "pos div 2" and ?r = "swapReq r (pos div 2) pos"
    have p: "?p < pos" "0 < ?p" using True by auto
    have val: "?r ! i = (if i = pos then r ! ?p else if i = ?p then r ! pos else r ! i)" if "i \<le> n" for i
      using that 1 p by (auto simp: swapReq_def nth_list_update)
    have "heap_but ?r n ?p"
      unfolding heap_but_def
    proof (intro conjI ballI impI)
      fix i assume i: "i \<in> {2..n}" "i \<noteq> ?p"
      have d: "i div 2 \<le> n" using i by auto
      consider "i = pos" | "i \<noteq> pos" "i div 2 = pos" | "i \<noteq> pos" "i div 2 = ?p"
        | "i \<noteq> pos" "i div 2 \<noteq> pos" "i div 2 \<noteq> ?p" by blast
      then show "rq_recTime (?r ! (i div 2)) \<le> rq_recTime (?r ! i)"
      proof cases
        case 1
        then show ?thesis using val d i True p by (simp add: less_imp_le)
      next
        case 2
        then show ?thesis using hb i True val d by (auto simp: heap_but_def)
      next
        case 3
        then have "rq_recTime (r ! ?p) \<le> rq_recTime (r ! i)" using hb i by (auto simp: heap_but_def)
        then show ?thesis using 3 i p True val d by auto
      next
        case 4
        then show ?thesis using hb i val d by (auto simp: heap_but_def)
      qed
    next
      fix i assume i: "i \<in> {2..n}" "i div 2 = ?p" "1 < ?p"
      have pp: "rq_recTime (r ! (?p div 2)) \<le> rq_recTime (r ! ?p)"
        using hb i p "1.prems"(2) by (auto simp: heap_but_def)
      have "?p div 2 \<noteq> pos" "?p div 2 \<noteq> ?p" "?p div 2 \<le> n" using i p 1 by auto
      moreover have "rq_recTime (r ! (?p div 2)) \<le> rq_recTime (?r ! i)"
      proof (cases "i = pos")
        case True
        then show ?thesis using val i pp by auto
      next
        case False
        then have "rq_recTime (r ! ?p) \<le> rq_recTime (r ! i)" using hb i by (auto simp: heap_but_def)
        then show ?thesis using False pp val i by auto
      qed
      ultimately show "rq_recTime (?r ! (?p div 2)) \<le> rq_recTime (?r ! i)" using val by simp
    qed
    then have "heap_array (AdjustHeap ?r ?p) n"
      using True p 1 by (intro "1.IH") (auto simp: swapReq_def)
    then show ?thesis using True by (subst AdjustHeap.simps) simp
  next
    case False
    then have "rq_recTime (r ! (i div 2)) \<le> rq_recTime (r ! i)" if "i \<in> {2..n}" for i
      using that hb by (cases "i = pos") (auto simp: heap_but_def not_less)
    then have "heap_array r n" by (simp add: heap_array_def)
    then show ?thesis using False by (subst AdjustHeap.simps) auto
  qed
qed

lemma mset_swapReq:
  "a < length r \<Longrightarrow> b < length r \<Longrightarrow> mset (swapReq r a b) = mset r"
  by (simp add: swapReq_def mset_swap)

lemma AdjustHeap_mset: "pos < length r \<Longrightarrow> mset (AdjustHeap r pos) = mset r"
proof (induction r pos rule: AdjustHeap.induct)
  case (1 r pos)
  have "length (swapReq r a b) = length r" for a b by (simp add: swapReq_def)
  then show ?case using 1 by (subst AdjustHeap.simps) (auto simp: mset_swapReq)
qed

lemma AdjustHeap_outside:
  "pos \<le> n \<Longrightarrow> AdjustHeap r pos ! 0 = r ! 0 \<and> drop (Suc n) (AdjustHeap r pos) = drop (Suc n) r"
proof (induction r pos rule: AdjustHeap.induct)
  case (1 r pos)
  show ?case
  proof (cases "1 < pos \<and> rq_recTime (r ! pos) < rq_recTime (r ! (pos div 2))")
    case True
    then show ?thesis using 1 by (subst (1 2) AdjustHeap.simps) (simp add: swapReq_def)
  next
    case False
    then show ?thesis by (subst (1 2) AdjustHeap.simps) auto
  qed
qed

text \<open>The live requests are the array without cell 0 and without the cells above the counter.\<close>

lemma mset_live:
  assumes "n < length r"
  shows "mset r = mset [r ! 0] + mset (map ((!) r) [1 ..< n + 1]) + mset (drop (Suc n) r)"
proof -
  have "take (Suc n) r = map ((!) r) [0 ..< Suc n]" using assms by (intro nth_equalityI) (simp_all del: upt_Suc)
  then have "take (Suc n) r = r ! 0 # map ((!) r) [1 ..< n + 1]" by (simp add: upt_conv_Cons del: upt_Suc)
  then have "mset (take (Suc n) r @ drop (Suc n) r) = mset [r ! 0] + mset (map ((!) r) [1 ..< n + 1]) + mset (drop (Suc n) r)"
    by simp
  then show ?thesis by simp
qed

lemma requests_mset:
  assumes "InsertHeap heap req = Some heap'" "heap_ok heap"
  shows "mset (requests heap') = mset (requests heap) + {#req#}"
proof -
  let ?n = "unat (hp_count heap + 1)" and ?r = "hp_req heap"
  let ?u = "?r[?n := req]"
  have l: "length ?r = 50" "unat (hp_count heap) < 50" using assms by (auto simp: heap_ok_def)
  have n: "?n = Suc (unat (hp_count heap))" using l by (simp add: unat_word_ariths)
  have n50: "?n < 50" using assms(1) l by (auto simp: InsertHeap_def Let_def split: if_splits)
  have h: "hp_req heap' = AdjustHeap ?u ?n" "hp_count heap' = hp_count heap + 1"
    using assms(1) by (auto simp: InsertHeap_def Let_def split: if_splits)
  have "mset (AdjustHeap ?u ?n) = mset ?u" by (rule AdjustHeap_mset) (simp add: n50 l)
  moreover have "AdjustHeap ?u ?n ! 0 = ?u ! 0" "drop (Suc ?n) (AdjustHeap ?u ?n) = drop (Suc ?n) ?u"
    using AdjustHeap_outside [of ?n ?n ?u] by auto
  ultimately have "mset (map ((!) (AdjustHeap ?u ?n)) [1 ..< ?n + 1]) = mset (map ((!) ?u) [1 ..< ?n + 1])"
    using mset_live [of ?n "AdjustHeap ?u ?n"] mset_live [of ?n ?u] n50 l by simp
  also have "\<dots> = mset (map ((!) ?u) [1 ..< ?n]) + {#?u ! ?n#}" using n by simp
  also have "map ((!) ?u) [1 ..< ?n] = requests heap" using n by (auto simp: requests_def)
  also have "?u ! ?n = req" using n50 l by simp
  finally show ?thesis by (simp only: requests_def h)
qed

lemma insert_heap:
  assumes "heap_ok heap"
  shows "if unat (hp_count heap) < 49
    then \<exists>heap'. InsertHeap heap req = Some heap' \<and> heap_ok heap'
      \<and> hp_count heap' = hp_count heap + 1 \<and> hp_capcity heap' = hp_capcity heap
      \<and> mset (requests heap') = mset (requests heap) + {#req#}
    else InsertHeap heap req = None"
proof -
  let ?n = "unat (hp_count heap + 1)" and ?r = "hp_req heap"
  have l: "length ?r = 50" "unat (hp_count heap) < 50" using assms by (auto simp: heap_ok_def)
  have n: "?n = Suc (unat (hp_count heap))" using l by (simp add: unat_word_ariths)
  show ?thesis
  proof (cases "unat (hp_count heap) < 49")
    case True
    let ?h = "heap\<lparr>hp_count := hp_count heap + 1, hp_req := AdjustHeap (?r[?n := req]) ?n\<rparr>"
    have ih: "InsertHeap heap req = Some ?h" using True l n by (simp add: InsertHeap_def Let_def)
    have "heap_but (?r[?n := req]) ?n ?n"
      using assms n by (auto simp: heap_but_def heap_ok_def heap_array_def nth_list_update)
    then have "heap_array (AdjustHeap (?r[?n := req]) ?n) ?n"
      using True l n by (intro AdjustHeap_heap) auto
    then have "heap_ok ?h" using True l n by (simp add: heap_ok_def)
    then show ?thesis using True ih requests_mset [OF ih assms] by simp
  next
    case False
    then show ?thesis using l n by (simp add: InsertHeap_def Let_def)
  qed
qed

text \<open>C8. Below 49 requests \<^verbatim>\<open>InsertHeap\<close> stays inside the array, keeps every request
  no earlier than its parent, counts one more and holds exactly one more request, the new one;
  the fiftieth insertion is a store outside \<^verbatim>\<open>req[50]\<close>.\<close>

theorem insert_heap_ok:
  assumes "heap_ok heap"
  shows "if unat (hp_count heap) < 49
    then \<exists>heap'. InsertHeap heap req = Some heap' \<and> heap_ok heap'
      \<and> hp_count heap' = hp_count heap + 1 \<and> hp_capcity heap' = hp_capcity heap
      \<and> mset (requests heap') = mset (requests heap) + {#req#}
    else InsertHeap heap req = None"
  using assms by (rule insert_heap)

lemma heap_ok_init: "length (hp_req h) = 50 \<Longrightarrow> heap_ok (InitHeap h)"
  by (simp add: heap_ok_def InitHeap_def heap_array_def)

theorem insert_heap_ok_witness:
  "\<exists>heap'. InsertHeap (InitHeap zero_heap) \<lparr>rq_orderLen = 5, rq_recTime = 9, rq_ipAdd = 1\<rparr> = Some heap'
     \<and> heap_ok heap' \<and> hp_count heap' = 1"
  using insert_heap_ok [OF heap_ok_init [of zero_heap], of "\<lparr>rq_orderLen = 5, rq_recTime = 9, rq_ipAdd = 1\<rparr>"]
  by (auto simp: zero_heap_def InitHeap_def)

section \<open>The queue of requests as a priority queue\<close>

locale earliest_first =
  fixes ok :: "'h \<Rightarrow> bool"
    and items :: "'h \<Rightarrow> Request multiset"
    and insert_req :: "'h \<Rightarrow> Request \<Rightarrow> 'h option"
    and top :: "'h \<Rightarrow> Request"
    and limit :: nat
  assumes insert_law: "ok h \<Longrightarrow> size (items h) < limit \<Longrightarrow>
      \<exists>h'. insert_req h r = Some h' \<and> ok h' \<and> items h' = items h + {#r#}"
    and top_law: "ok h \<Longrightarrow> items h \<noteq> {#} \<Longrightarrow>
      top h \<in># items h \<and> (\<forall>r \<in># items h. rq_recTime (top h) \<le> rq_recTime r)"
begin

lemma inserts_ok:
  "ok h \<Longrightarrow> size (items h) + length rs \<le> limit \<Longrightarrow>
   \<exists>h'. fold_opt insert_req h rs = Some h' \<and> ok h' \<and> items h' = items h + mset rs"
proof (induction rs arbitrary: h)
  case (Cons r rs)
  then obtain h' where h': "insert_req h r = Some h'" "ok h'" "items h' = items h + {#r#}"
    using insert_law [of h r] by auto
  then show ?case using Cons.IH [of h'] Cons.prems by auto
qed simp

lemma earliest_on_top:
  assumes "ok h" "size (items h) + length rs \<le> limit" "rs \<noteq> []"
  shows "\<exists>h'. fold_opt insert_req h rs = Some h' \<and> top h' \<in># items h + mset rs
    \<and> (\<forall>r \<in># items h + mset rs. rq_recTime (top h') \<le> rq_recTime r)"
proof -
  obtain h' where h': "fold_opt insert_req h rs = Some h'" "ok h'" "items h' = items h + mset rs"
    using inserts_ok [OF assms(1,2)] by blast
  have "items h' \<noteq> {#}" using h'(3) assms(3) by simp
  then show ?thesis using top_law [OF h'(2)] h' by simp
qed

end

lemma heap_array_top:
  "heap_array r n \<Longrightarrow> 1 \<le> i \<Longrightarrow> i \<le> n \<Longrightarrow> rq_recTime (r ! 1) \<le> rq_recTime (r ! i)"
proof (induction i rule: less_induct)
  case (less i)
  show ?case
  proof (cases "i = 1")
    case False
    then have "rq_recTime (r ! (i div 2)) \<le> rq_recTime (r ! i)"
      using less.prems by (auto simp: heap_array_def)
    moreover have "rq_recTime (r ! 1) \<le> rq_recTime (r ! (i div 2))"
      using less False by (intro less.IH) auto
    ultimately show ?thesis by (rule order_trans [rotated])
  qed simp
qed

lemma length_requests [simp]: "length (requests h) = unat (hp_count h)"
  by (simp add: requests_def)

lemma set_requests: "set (requests h) = (!) (hp_req h) ` {1 ..< unat (hp_count h) + 1}"
  by (simp add: requests_def del: upt_Suc)

interpretation hp: earliest_first heap_ok "\<lambda>h. mset (requests h)" InsertHeap "\<lambda>h. hp_req h ! 1" 49
proof unfold_locales
  fix h r
  assume "heap_ok h" "size (mset (requests h)) < 49"
  then show "\<exists>h'. InsertHeap h r = Some h' \<and> heap_ok h' \<and> mset (requests h') = mset (requests h) + {#r#}"
    using insert_heap [of h r] by auto
next
  fix h
  assume a: "heap_ok h" "mset (requests h) \<noteq> {#}"
  have "requests h \<noteq> []" using a(2) by simp
  then have "1 \<le> unat (hp_count h)" using length_requests [of h] by (cases "requests h") auto
  then show "hp_req h ! 1 \<in># mset (requests h) \<and> (\<forall>r \<in># mset (requests h). rq_recTime (hp_req h ! 1) \<le> rq_recTime r)"
    using a(1) heap_array_top [of "hp_req h" "unat (hp_count h)"] by (auto simp: set_requests heap_ok_def)
qed

text \<open>After up to 49 requests have come in, in any order, the request that
  \<^verbatim>\<open>DealWifiReq\<close> looks at next is one of them and none was created earlier.\<close>

lemma earliest_request_first:
  assumes "rs \<noteq> []" "length rs \<le> 49" "length (hp_req h) = REQ_MAX_SIZE"
  shows "\<exists>h'. fold_opt InsertHeap (InitHeap h) rs = Some h' \<and> hp_req h' ! 1 \<in> set rs
    \<and> (\<forall>r \<in> set rs. rq_recTime (hp_req h' ! 1) \<le> rq_recTime r)"
proof -
  have "requests (InitHeap h) = []" by (simp add: requests_def InitHeap_def)
  then show ?thesis
    using hp.earliest_on_top [OF heap_ok_init [OF assms(3)], of rs] assms by simp
qed

section \<open>Deletion\<close>

text \<open>A request created at a time, and the times of the requests of a heap.\<close>

definition at_time :: "u32 \<Rightarrow> Request" where
  "at_time t = \<lparr>rq_orderLen = 10, rq_recTime = t, rq_ipAdd = t\<rparr>"

definition times :: "Heap \<Rightarrow> u32 list" where
  "times h = map rq_recTime (requests h)"

lemma length_DownHeap: "DownHeap r n i = Some r' \<Longrightarrow> length r' = length r"
proof (induction r n i rule: DownHeap.induct)
  case (1 r n i)
  have "length (swapReq r a b) = length r" for a b by (simp add: swapReq_def)
  then show ?case using "1.IH" "1.prems" [unfolded DownHeap.simps [of r n i]]
    by (simp split: if_splits)
qed

lemma DeleteHeap_fields:
  assumes "DeleteHeap h = Some h'"
  shows "length (hp_req h') = length (hp_req h)" "hp_count h' = hp_count h - 1"
    "hp_capcity h' = hp_capcity h" "unat (hp_count h) < length (hp_req h)"
  using assms by (auto simp: DeleteHeap_def Let_def length_DownHeap split: if_splits)

lemma requests_three:
  "requests h = [a, b, c] \<Longrightarrow> hp_count h = 3 \<and> hp_req h ! 1 = a \<and> hp_req h ! 2 = b \<and> hp_req h ! 3 = c"
proof -
  assume r: "requests h = [a, b, c]"
  then have "unat (hp_count h) = unat (3 :: u8)" using length_requests [of h] by simp
  then have n: "hp_count h = 3" by (simp only: word_unat_eq_iff)
  have "[1 ..< unat (3 :: u8) + 1] = [1, 2, 3]" by (simp add: upt_rec)
  then show ?thesis using r n by (simp add: requests_def)
qed

lemma requests_two: "hp_count h = 2 \<Longrightarrow> requests h = [hp_req h ! 1, hp_req h ! 2]"
proof -
  have "[1 ..< unat (2 :: u8) + 1] = [1, 2]" by (simp add: upt_rec)
  then show "hp_count h = 2 \<Longrightarrow> requests h = [hp_req h ! 1, hp_req h ! 2]" by (simp add: requests_def)
qed

text \<open>Sifting down among two requests: the second comparison is with cell 4, above the counter.\<close>

lemma DownHeap_two:
  assumes "4 < length r"
  shows "DownHeap r 2 1 =
    Some (if rq_recTime (r ! 2) < rq_recTime (r ! 1)
          then if rq_recTime (r ! 4) < rq_recTime (r ! 1) then r[1 := r ! 2, 2 := r ! 4, 4 := r ! 1]
               else r[1 := r ! 2, 2 := r ! 1]
          else r)"
proof -
  have high: "DownHeap r' 2 4 = Some r'" for r' by (subst DownHeap.simps) simp
  have low: "DownHeap r' 2 2 = (if rq_recTime (r' ! 4) < rq_recTime (r' ! 2) then Some (swapReq r' 2 4) else Some r')"
    if "4 < length r'" for r'
    using that by (subst DownHeap.simps) (simp add: down_child_def high)
  have l: "DownHeap (swapReq r 1 2) 2 2 =
      Some (if rq_recTime (r ! 4) < rq_recTime (r ! 1) then r[1 := r ! 2, 2 := r ! 4, 4 := r ! 1] else r[1 := r ! 2, 2 := r ! 1])"
    using assms low [of "swapReq r 1 2"] by (simp add: swapReq_def)
  have "DownHeap r 2 1 = (if rq_recTime (r ! 2) < rq_recTime (r ! 1) then DownHeap (swapReq r 1 2) 2 2 else Some r)"
    using assms by (subst DownHeap.simps) (simp add: down_child_def)
  then show ?thesis by (simp only: l split: if_split) simp
qed

text \<open>C9. \<^verbatim>\<open>DeleteHeap\<close> on three requests loses the third when it is later than the second and
  than the content of cell 4, which lies above the counter: that content comes back as a request in its place.
  Until a fourth request has been stored once, cell 4 has time 0, so this is every third request later than the
  second.  Otherwise the two remaining requests are kept, earliest on top.\<close>

theorem third_request_lost:
  assumes "heap_ok h" "requests h = [a, b, c]"
  shows "\<exists>h'. DeleteHeap h = Some h' \<and> hp_capcity h' = hp_capcity h
    \<and> requests h' = (if rq_recTime b < rq_recTime c
         then if rq_recTime (hp_req h ! 4) < rq_recTime c then [b, hp_req h ! 4] else [b, c]
         else [c, b])"
proof -
  have l: "length (hp_req h) = 50" using assms(1) by (simp add: heap_ok_def)
  note r = requests_three [OF assms(2)]
  let ?u = "(hp_req h)[1 := hp_req h ! 3]"
  obtain r' where r': "DownHeap ?u 2 1 = Some r'" using DownHeap_two [of ?u] l by simp
  have d: "DeleteHeap h = Some (h\<lparr>hp_count := 2, hp_req := r'\<rparr>)"
    using l r r' by (simp add: DeleteHeap_def)
  show ?thesis
    using d r' r l DownHeap_two [of ?u] by (auto simp: requests_two split: if_splits)
qed

theorem third_request_lost_witness:
  "map_option times (Option.bind (fold_opt InsertHeap (InitHeap zero_heap) (map at_time [1, 5, 7])) DeleteHeap) = Some [5, 0]"
proof -
  define h where "h = the (fold_opt InsertHeap (InitHeap zero_heap) (map at_time [1, 5, 7]))"
  have s: "fold_opt InsertHeap (InitHeap zero_heap) (map at_time [1, 5, 7]) = Some h" unfolding h_def by code_simp
  have o: "heap_ok h" "requests h = [at_time 1, at_time 5, at_time 7]" "rq_recTime (hp_req h ! 4) = 0"
    unfolding h_def by code_simp+
  obtain h' where "DeleteHeap h = Some h'" "requests h' = [at_time 5, hp_req h ! 4]"
    using third_request_lost [OF o(1,2)] o(3) by (auto simp: at_time_def)
  then show ?thesis using o(3) unfolding s by (simp add: times_def) (simp add: at_time_def)
qed

text \<open>
  With four requests the wrong child is taken as well.  After requests with times 1, 5, 7 and 9 the first deletion loses the request of time 9, leaves the
  later of the others on top, and brings up a request from the never written cells.
\<close>

lemma delete_heap_loses:
  "map_option times (fold_opt InsertHeap (InitHeap zero_heap) (map at_time [1, 5, 7, 9])) = Some [1, 5, 7, 9]"
  "map_option times (Option.bind (fold_opt InsertHeap (InitHeap zero_heap) (map at_time [1, 5, 7, 9])) DeleteHeap)
     = Some [7, 5, 0]"
  by code_simp+

section \<open>The granting task\<close>

definition wifi_inv :: "wifi_state \<Rightarrow> bool" where
  "wifi_inv s \<longleftrightarrow> length (hp_req (ws_heap s)) = REQ_MAX_SIZE \<and> unat (hp_count (ws_heap s)) < REQ_MAX_SIZE
     \<and> unat (hp_count (ws_heap s)) = ws_req_sem s + (if ws_pc s = Pend_Cap then 1 else 0)"

lemma deal_body_cases:
  assumes "deal_body s = Some s'"
  obtains (wait) "s' = s\<lparr>ws_pc := Pend_Cap\<rparr>"
  | (grant) h where "\<not> (0 < hp_count (ws_heap s) \<and> WAIT (ws_heap s))"
      "DeleteHeap ((ws_heap s)\<lparr>hp_capcity := hp_capcity (ws_heap s) - rq_orderLen (hp_req (ws_heap s) ! 1)\<rparr>) = Some h"
      "s' = s\<lparr>ws_heap := h, ws_pc := Pend_Req, ws_sent := rq_ipAdd (hp_req (ws_heap s) ! 1) # ws_sent s\<rparr>"
  using assms by (auto simp: deal_body_def grant_def split: if_splits)

lemma unat_dec: "0 < unat (c :: u8) \<Longrightarrow> unat (c - 1) = unat c - 1"
  by (subst unat_sub) (simp_all add: word_le_nat_alt)

lemma wifi_inv_deal:
  assumes "deal_body s = Some s'" "length (hp_req (ws_heap s)) = 50"
    "unat (hp_count (ws_heap s)) = ws_req_sem s + 1" "unat (hp_count (ws_heap s)) < 50"
  shows "wifi_inv s'"
  using assms(1)
proof (cases rule: deal_body_cases)
  case wait
  then show ?thesis using assms by (simp add: wifi_inv_def)
next
  case (grant h)
  then show ?thesis using assms DeleteHeap_fields [OF grant(2)] by (simp add: wifi_inv_def unat_dec)
qed

lemma wifi_inv_step: "wifi_step s s' \<Longrightarrow> wifi_inv s \<Longrightarrow> wifi_inv s'"
proof (induction rule: wifi_step.induct)
  case (receive s req h)
  have n: "unat (hp_count (ws_heap s)) < 50" using receive(2) by (simp add: wifi_inv_def)
  have "unat (hp_count (ws_heap s) + 1) = unat (hp_count (ws_heap s)) + 1"
    using n by (simp add: unat_word_ariths)
  then show ?case using receive by (auto simp: wifi_inv_def InsertHeap_def Let_def split: if_splits)
next
  case (give_back s len)
  then show ?case by (simp add: wifi_inv_def ChangeCpa_def)
next
  case (deal s s')
  then show ?case by (intro wifi_inv_deal [OF deal(3)]) (auto simp: wifi_inv_def)
next
  case (retry s s')
  then show ?case by (intro wifi_inv_deal [OF retry(3)]) (auto simp: wifi_inv_def)
qed

lemma wifi_inv_reach: "wifi_step\<^sup>*\<^sup>* wifi_init s \<Longrightarrow> wifi_inv s"
proof (induction rule: rtranclp_induct)
  case base
  show ?case by (simp add: wifi_inv_def wifi_init_def InitHeap_def zero_heap_def)
qed (rule wifi_inv_step)

text \<open>In the runs of these steps the heap holds as many requests as the semaphore counts, plus the
  one that waits for capacity; so a grant finds a request, takes the one on top, decreases the counter without
  wrapping and does not promise more than the remaining capacity.\<close>

lemma grants_are_sound:
  assumes "wifi_step\<^sup>*\<^sup>* wifi_init s" "wifi_step s s'" "ws_sent s' = ip # ws_sent s"
  shows "0 < hp_count (ws_heap s) \<and> unat (hp_count (ws_heap s')) + 1 = unat (hp_count (ws_heap s))
    \<and> ip = rq_ipAdd (hp_req (ws_heap s) ! 1)
    \<and> unat (hp_capcity (ws_heap s')) + unat (rq_orderLen (hp_req (ws_heap s) ! 1))
      = unat (hp_capcity (ws_heap s))"
proof -
  have inv: "wifi_inv s" using assms(1) by (rule wifi_inv_reach)
  have main: ?thesis if d: "deal_body t = Some s'" and t: "ws_heap t = ws_heap s" "ws_sent t = ws_sent s"
    and c: "0 < unat (hp_count (ws_heap s))" for t
    using d
  proof (cases rule: deal_body_cases)
    case wait
    then show ?thesis using assms(3) t by simp
  next
    case (grant h)
    have "rq_orderLen (hp_req (ws_heap s) ! 1) \<le> hp_capcity (ws_heap s)"
      using grant(1) c t by (auto simp: WAIT_def unat_gt_0 word_gt_0 not_less)
    then show ?thesis
      using grant assms(3) t c DeleteHeap_fields [OF grant(2)]
      by (simp add: unat_dec unat_sub word_le_nat_alt word_gt_0 unat_gt_0)
  qed
  show ?thesis using assms(2)
  proof cases
    case (receive req h)
    then show ?thesis using assms(3) by simp
  next
    case (give_back len)
    then show ?thesis using assms(3) by simp
  next
    case deal
    then show ?thesis using inv by (intro main [OF deal(3)]) (auto simp: wifi_inv_def)
  next
    case retry
    then show ?thesis using inv by (intro main [OF retry(3)]) (auto simp: wifi_inv_def)
  qed
qed

end
