(* ===== verification/Ring_Buffer.thy ===== *)
theory Ring_Buffer
  imports Data_Form
begin

text \<open>
  The circular byte buffers of \<^verbatim>\<open>User/src/queue_buf.c\<close>.  The server, urgent, serial
  and wifi buffers are all values of \<open>SqQueue\<close>; the mutex that brackets a write is not a
  field, each operation being one atomic step.  The locale \<open>byte_fifo\<close> states what
  the clients rely on: a bounded first-in first-out queue of bytes with random access.
\<close>

section \<open>State\<close>

record SqQueue =
  sq_base :: "u8 list"
  sq_read :: u32
  sq_write :: u32
  sq_MAX :: u32
  sq_buf_empty :: u8

abbreviation (input) "MAXQSIZE \<equiv> (10240 :: nat)"
abbreviation (input) "MAXUSIZE \<equiv> (10240 :: nat)"
abbreviation (input) "KB \<equiv> (1024 :: nat)"
abbreviation (input) "BUF_HEAD \<equiv> (24 :: nat)"
abbreviation (input) "BUF_END \<equiv> (4 :: nat)"
abbreviation (input) "THRESHOLD_SIZE \<equiv> (7168 :: nat)"

abbreviation (input) "BUF_OK \<equiv> (0 :: int)"
abbreviation (input) "BUF_FULL \<equiv> (-2 :: int)"
abbreviation (input) "BUF_EMPTY \<equiv> (-3 :: int)"
abbreviation (input) "BUF_ARG_ERR \<equiv> (-4 :: int)"
abbreviation (input) "Que_NOT_EMPTY \<equiv> (0 :: int)"
abbreviation (input) "Que_EMPTY \<equiv> (1 :: int)"

definition init_SqQueue :: "nat \<Rightarrow> SqQueue" where
  "init_SqQueue size' = \<lparr>sq_base = replicate size' 0, sq_read = 0, sq_write = 0,
     sq_MAX = of_nat size', sq_buf_empty = 1\<rparr>"

text \<open>\<^verbatim>\<open>Init_Queue\<close>: the server, urgent, serial and wifi buffer, in this order.\<close>

definition Init_Queue :: "SqQueue \<times> SqQueue \<times> SqQueue \<times> SqQueue" where
  "Init_Queue = (init_SqQueue MAXQSIZE, init_SqQueue MAXUSIZE, init_SqQueue MAXUSIZE,
     init_SqQueue (MAXUSIZE + KB * 1))"

section \<open>Operations\<close>

text \<open>The cell \<^verbatim>\<open>base[(read + i) % MAX]\<close>.\<close>

definition peek :: "SqQueue \<Rightarrow> nat \<Rightarrow> u8" where
  "peek buf i = sq_base buf ! unat ((sq_read buf + of_nat i) mod sq_MAX buf)"

text \<open>
  The write loop of \<^verbatim>\<open>Write_Buf\<close>; reading the source \<open>e\<close> past its end is
  \<^term>\<open>None\<close>.
\<close>

fun write_loop :: "SqQueue \<Rightarrow> u8 list \<Rightarrow> nat \<Rightarrow> SqQueue option" where
  "write_loop buf e 0 = Some buf"
| "write_loop buf (c # e) (Suc len) =
     write_loop (buf\<lparr>sq_base := (sq_base buf)[unat (sq_write buf) := c],
                     sq_write := (sq_write buf + 1) mod sq_MAX buf\<rparr>) e len"
| "write_loop buf [] (Suc len) = None"

text \<open>
  \<^verbatim>\<open>Write_Buf\<close> returns the error code, the buffer and the capacity counter
  \<^verbatim>\<open>order_print_table.buf_node.common_buf_remain_capacity\<close>, which it decreases whichever
  buffer is written.  A later check overwrites the code of an earlier one.
\<close>

definition Write_Buf :: "SqQueue \<Rightarrow> u32 \<Rightarrow> u8 list \<Rightarrow> u32 \<Rightarrow> (int \<times> SqQueue \<times> u32) option" where
  "Write_Buf buf cap e len =
     (let buf_err = (if sq_MAX buf < len \<or> len = 0 then BUF_ARG_ERR else BUF_OK);
          buf_err =
            (if sq_read buf < sq_write buf
             then if sq_MAX buf - (sq_write buf - sq_read buf) < len then BUF_FULL else buf_err
             else if sq_write buf < sq_read buf
             then if sq_read buf - sq_write buf < len then BUF_FULL else buf_err
             else if sq_buf_empty buf = 0 then BUF_FULL else buf_err)
      in if buf_err \<noteq> BUF_OK then Some (buf_err, buf, cap)
         else case write_loop buf e (unat len) of None \<Rightarrow> None
           | Some buf' \<Rightarrow> Some (BUF_OK, buf'\<lparr>sq_buf_empty := 0\<rparr>, cap - len))"

text \<open>The length is stored through the pointer only when the buffer is not empty.\<close>

definition Read_Order_Length_Queue :: "SqQueue \<Rightarrow> u16 \<Rightarrow> int \<times> u16" where
  "Read_Order_Length_Queue buf order_len =
     (if sq_buf_empty buf = 0
      then (Que_NOT_EMPTY, be16 (peek buf ORDER_SIZE_OFFSET) (peek buf (ORDER_SIZE_OFFSET + 1)))
      else (Que_EMPTY, order_len))"

text \<open>
  \<^verbatim>\<open>Check_Buf_Request_Signal\<close> computes the free space modulo the size and, above the
  threshold, takes one count of \<^verbatim>\<open>Batch_Rec_Sem\<close>; the result is the new count and
  whether an order request is sent.
\<close>

definition Check_Buf_Request_Signal :: "SqQueue \<Rightarrow> u16 \<Rightarrow> u16 \<times> bool" where
  "Check_Buf_Request_Signal buf batch_rec_cnt =
     (let empty_buf_size = ucast (sq_MAX buf -
            (sq_write buf + sq_MAX buf - sq_read buf) mod sq_MAX buf) :: u16
      in if THRESHOLD_SIZE \<le> unat empty_buf_size \<and> 0 < batch_rec_cnt
         then (batch_rec_cnt - 1, True) else (batch_rec_cnt, False))"

text \<open>
  \<^verbatim>\<open>Read_Order_Queue\<close> copies the body of the order at the read pointer into the
  memory block \<open>e\<close>, writes a NUL byte and moves the read pointer behind the order.  The
  NUL goes to \<^verbatim>\<open>orderDataPtr[order_len]\<close> after the loop has already advanced
  \<^verbatim>\<open>orderDataPtr\<close> by \<^verbatim>\<open>order_len\<close>.  A store outside the block is
  \<^term>\<open>None\<close>.
\<close>

fun copy_order :: "SqQueue \<Rightarrow> nat \<Rightarrow> u8 list \<Rightarrow> u8 list option" where
  "copy_order buf 0 e = Some e"
| "copy_order buf (Suc i) e =
     (case copy_order buf i e of None \<Rightarrow> None
      | Some e \<Rightarrow> if i < length e then Some (e[i := peek buf i]) else None)"

definition Read_Order_Queue :: "SqQueue \<Rightarrow> u32 \<Rightarrow> u8 list \<Rightarrow> (SqQueue \<times> u32 \<times> u8 list) option" where
  "Read_Order_Queue buf cap e =
     (let order_len = unat (snd (Read_Order_Length_Queue buf 0));
          buf = buf\<lparr>sq_read := (sq_read buf + of_nat BUF_HEAD) mod sq_MAX buf\<rparr>
      in case copy_order buf order_len e of None \<Rightarrow> None
         | Some e \<Rightarrow>
           if order_len + order_len < length e
           then let e = e[order_len + order_len := 0];
                    buf = buf\<lparr>sq_read := (sq_read buf + of_nat order_len + of_nat BUF_END) mod sq_MAX buf\<rparr>;
                    buf = (if sq_read buf = sq_write buf then buf\<lparr>sq_buf_empty := 1\<rparr> else buf)
                in Some (buf, cap + of_nat order_len + of_nat BUF_HEAD + of_nat BUF_END, e)
           else None)"

text \<open>The two header tests return an offset into the buffer instead of a pointer.\<close>

definition Get_Batch_Head :: "SqQueue \<Rightarrow> u32 option" where
  "Get_Batch_Head buf =
     (if sq_base buf ! unat (sq_read buf) = 0xaa \<and> peek buf 1 = 0x55 then Some (sq_read buf) else None)"

definition Get_Order_Head :: "SqQueue \<Rightarrow> u32 option" where
  "Get_Order_Head buf =
     (if sq_base buf ! unat (sq_read buf) = 0x3e \<and> peek buf 1 = 0x11 then Some (sq_read buf) else None)"

definition Is_Empty_Queue :: "SqQueue \<Rightarrow> u8" where
  "Is_Empty_Queue buf = sq_buf_empty buf"

text \<open>One step of the write loop as the interrupt hooks perform it, with the flag cleared.\<close>

definition put_byte :: "SqQueue \<Rightarrow> u8 \<Rightarrow> SqQueue" where
  "put_byte buf c = buf\<lparr>sq_base := (sq_base buf)[unat (sq_write buf) := c],
     sq_write := (sq_write buf + 1) mod sq_MAX buf, sq_buf_empty := 0\<rparr>"

text \<open>Moving the read pointer over \<open>n\<close> bytes, as every consumer does.\<close>

definition skip_bytes :: "SqQueue \<Rightarrow> nat \<Rightarrow> SqQueue" where
  "skip_bytes buf n =
     (let buf = buf\<lparr>sq_read := (sq_read buf + of_nat n) mod sq_MAX buf\<rparr>
      in if sq_read buf = sq_write buf then buf\<lparr>sq_buf_empty := 1\<rparr> else buf)"

section \<open>Well-formed buffers and their contents\<close>

definition ring :: "SqQueue \<Rightarrow> bool" where
  "ring buf \<longleftrightarrow> 0 < sq_MAX buf \<and> unat (sq_MAX buf) < 65536 \<and> length (sq_base buf) = unat (sq_MAX buf)
     \<and> sq_read buf < sq_MAX buf \<and> sq_write buf < sq_MAX buf
     \<and> (sq_buf_empty buf = 0 \<or> sq_buf_empty buf = 1 \<and> sq_read buf = sq_write buf)"

definition used :: "SqQueue \<Rightarrow> nat" where
  "used buf =
     (if sq_buf_empty buf \<noteq> 0 then 0
      else if sq_read buf < sq_write buf then unat (sq_write buf) - unat (sq_read buf)
      else unat (sq_MAX buf) + unat (sq_write buf) - unat (sq_read buf))"

definition contents :: "SqQueue \<Rightarrow> u8 list" where
  "contents buf = map (peek buf) [0 ..< used buf]"

definition room :: "SqQueue \<Rightarrow> nat" where
  "room buf = unat (sq_MAX buf) - used buf"

section \<open>The interface\<close>

locale byte_fifo =
  fixes ok :: "'q \<Rightarrow> bool"
    and bytes :: "'q \<Rightarrow> u8 list"
    and free :: "'q \<Rightarrow> nat"
    and put :: "'q \<Rightarrow> u8 \<Rightarrow> 'q"
    and skip :: "'q \<Rightarrow> nat \<Rightarrow> 'q"
    and at :: "'q \<Rightarrow> nat \<Rightarrow> u8"
  assumes put_law: "ok q \<Longrightarrow> 0 < free q \<Longrightarrow>
      ok (put q c) \<and> bytes (put q c) = bytes q @ [c] \<and> Suc (free (put q c)) = free q"
    and skip_law: "ok q \<Longrightarrow> 0 < n \<Longrightarrow> n \<le> length (bytes q) \<Longrightarrow>
      ok (skip q n) \<and> bytes (skip q n) = drop n (bytes q) \<and> free (skip q n) = free q + n"
    and at_law: "ok q \<Longrightarrow> i < length (bytes q) \<Longrightarrow> at q i = bytes q ! i"
begin

lemma puts:
  "ok q \<Longrightarrow> length cs \<le> free q \<Longrightarrow>
   ok (foldl put q cs) \<and> bytes (foldl put q cs) = bytes q @ cs
     \<and> free (foldl put q cs) + length cs = free q"
proof (induction cs arbitrary: q)
  case (Cons c cs)
  then show ?case using put_law [of q c] Cons.IH [of "put q c"] by auto
qed simp

lemma put_then_skip:
  assumes "ok q" "length cs \<le> free q" "bytes q \<noteq> []"
  shows "bytes (skip (foldl put q cs) (length (bytes q))) = cs"
  using assms puts [of q cs] skip_law [of "foldl put q cs" "length (bytes q)"] by simp

lemma at_range:
  "ok q \<Longrightarrow> k + n \<le> length (bytes q) \<Longrightarrow> map (\<lambda>i. at q (k + i)) [0 ..< n] = take n (drop k (bytes q))"
  by (rule nth_equalityI) (simp_all add: at_law)

end

section \<open>The ring buffer is such a queue\<close>

lemma ring_index:
  assumes "ring buf" "i < 4294901760"
  shows "unat ((sq_read buf + of_nat i) mod sq_MAX buf) = (unat (sq_read buf) + i) mod unat (sq_MAX buf)"
proof -
  have "unat (sq_read buf) < 65536" using assms(1) by (auto simp: ring_def word_less_nat_alt)
  then have "unat (sq_read buf + of_nat i) = unat (sq_read buf) + i"
    using assms(2) by (subst unat_add_lem [THEN iffD1]) (auto simp: unat_of_nat)
  then show ?thesis by (simp add: unat_mod_distrib)
qed

lemma peek_nat:
  "ring buf \<Longrightarrow> i < 4294901760 \<Longrightarrow>
   peek buf i = sq_base buf ! ((unat (sq_read buf) + i) mod unat (sq_MAX buf))"
  by (simp add: peek_def ring_index)

lemma used_le: "ring buf \<Longrightarrow> used buf \<le> unat (sq_MAX buf)"
  by (auto simp: ring_def used_def word_less_nat_alt word_le_nat_alt)

lemma used_less: "ring buf \<Longrightarrow> used buf < 65536"
  using used_le [of buf] by (auto simp: ring_def)

lemma length_contents [simp]: "length (contents buf) = used buf"
  by (simp add: contents_def)

lemma ring_write:
  assumes "ring buf"
  shows "unat (sq_write buf) = (unat (sq_read buf) + used buf) mod unat (sq_MAX buf)"
proof -
  have b: "unat (sq_read buf) < unat (sq_MAX buf)" "unat (sq_write buf) < unat (sq_MAX buf)"
    using assms by (auto simp: ring_def word_less_nat_alt)
  then show ?thesis
    using assms by (auto simp: ring_def used_def word_less_nat_alt mod_if)
qed

lemma mod_neq_ahead:
  fixes r i n M :: nat
  assumes "i < n" "n < M"
  shows "(r + i) mod M \<noteq> (r + n) mod M"
proof
  assume "(r + i) mod M = (r + n) mod M"
  then have "M dvd (r + n) - (r + i)"
    using mod_eq_dvd_iff_nat [of "r + i" "r + n" M] assms by simp
  then show False using assms nat_dvd_not_less [of "n - i" M] by simp
qed

text \<open>The distance from \<open>r\<close> to \<open>w\<close> around a circle of \<open>M\<close> cells, where equal positions mean full.\<close>

definition ring_dist :: "nat \<Rightarrow> nat \<Rightarrow> nat \<Rightarrow> nat" where
  "ring_dist r w M = (if r < w then w - r else M + w - r)"

lemma ring_dist_eq:
  assumes "r < M" "0 < n" "n \<le> M"
  shows "ring_dist r ((r + n) mod M) M = n"
  using assms by (auto simp: ring_dist_def mod_if)

lemma ring_dist_skip:
  assumes "r < M" "k < n" "n \<le> M"
  shows "ring_dist ((r + k) mod M) ((r + n) mod M) M = n - k"
proof -
  have "(r + n) mod M = ((r + k) mod M + (n - k)) mod M"
    using assms by (metis add.assoc le_add_diff_inverse less_imp_le_nat mod_add_left_eq)
  then show ?thesis using ring_dist_eq [of "(r + k) mod M" M "n - k"] assms by simp
qed

lemma used_dist:
  "used buf = (if sq_buf_empty buf \<noteq> 0 then 0
     else ring_dist (unat (sq_read buf)) (unat (sq_write buf)) (unat (sq_MAX buf)))"
  by (simp add: used_def ring_dist_def word_less_nat_alt)

lemma ring_bounds:
  assumes "ring buf"
  shows "unat (sq_read buf) < unat (sq_MAX buf)" "unat (sq_write buf) < unat (sq_MAX buf)"
    "0 < unat (sq_MAX buf)" "unat (sq_MAX buf) < 65536" "length (sq_base buf) = unat (sq_MAX buf)"
  using assms by (auto simp: ring_def word_less_nat_alt)

lemma unat_mod_Suc:
  assumes "unat w < 65536"
  shows "unat ((w + 1) mod M :: u32) = (unat w + 1) mod unat M"
proof -
  have "unat (w + 1) = unat w + 1"
    using assms by (subst unat_add_lem [THEN iffD1]) auto
  then show ?thesis by (simp add: unat_mod_distrib)
qed

lemma put_write:
  assumes "ring buf"
  shows "unat (sq_write (put_byte buf c)) = (unat (sq_read buf) + Suc (used buf)) mod unat (sq_MAX buf)"
proof -
  have "unat (sq_write (put_byte buf c)) = (unat (sq_write buf) + 1) mod unat (sq_MAX buf)"
    using ring_bounds [OF assms] by (simp add: put_byte_def unat_mod_Suc)
  then show ?thesis by (simp add: ring_write [OF assms] mod_Suc_eq)
qed

lemma put_ring:
  assumes "ring buf"
  shows "ring (put_byte buf c)"
  using assms ring_bounds [OF assms] by (simp add: ring_def put_byte_def word_less_nat_alt unat_mod_Suc)

lemma put_fields [simp]:
  "sq_read (put_byte buf c) = sq_read buf" "sq_MAX (put_byte buf c) = sq_MAX buf"
  "sq_buf_empty (put_byte buf c) = 0"
  "sq_base (put_byte buf c) = (sq_base buf)[unat (sq_write buf) := c]"
  by (simp_all add: put_byte_def)

lemma put_used:
  assumes "ring buf" "0 < room buf"
  shows "used (put_byte buf c) = Suc (used buf)"
  using assms ring_dist_eq [of "unat (sq_read buf)" "unat (sq_MAX buf)" "Suc (used buf)"]
    ring_bounds [OF assms(1)]
  by (subst used_dist) (simp add: put_write room_def)

lemma put_peek:
  assumes "ring buf" "0 < room buf" "i \<le> used buf"
  shows "peek (put_byte buf c) i = (if i = used buf then c else peek buf i)"
proof -
  have i: "i < 4294901760" using assms(3) used_less [OF assms(1)] by simp
  have n: "used buf < unat (sq_MAX buf)" using assms(2) by (simp add: room_def)
  show ?thesis
    using mod_neq_ahead [of i "used buf" "unat (sq_MAX buf)" "unat (sq_read buf)"] assms(3) n
      ring_bounds [OF assms(1)]
    by (auto simp: peek_nat [OF assms(1) i] peek_nat [OF put_ring [OF assms(1)] i] ring_write [OF assms(1)])
qed

lemma put_contents:
  assumes "ring buf" "0 < room buf"
  shows "contents (put_byte buf c) = contents buf @ [c]"
  using assms by (auto simp: contents_def put_used put_peek)

lemma skip_fields [simp]:
  "sq_write (skip_bytes buf n) = sq_write buf" "sq_MAX (skip_bytes buf n) = sq_MAX buf"
  "sq_base (skip_bytes buf n) = sq_base buf"
  "sq_read (skip_bytes buf n) = (sq_read buf + of_nat n) mod sq_MAX buf"
  by (simp_all add: skip_bytes_def Let_def)

lemma skip_ring:
  assumes "ring buf" "0 < n" "n \<le> used buf"
  shows "ring (skip_bytes buf n)"
  using assms by (auto simp: ring_def skip_bytes_def Let_def word_less_nat_alt unat_mod_distrib used_def split: if_splits)

lemma skip_used:
  assumes "ring buf" "0 < n" "n \<le> used buf"
  shows "used (skip_bytes buf n) = used buf - n"
proof -
  let ?r = "unat (sq_read buf)" and ?M = "unat (sq_MAX buf)"
  have e: "sq_buf_empty buf = 0" using assms by (auto simp: used_def split: if_splits)
  have idx: "unat ((sq_read buf + of_nat n) mod sq_MAX buf) = (?r + n) mod ?M"
    using assms used_less [OF assms(1)] by (intro ring_index) auto
  show ?thesis
  proof (cases "n = used buf")
    case True
    then have "(sq_read buf + of_nat n) mod sq_MAX buf = sq_write buf"
      using ring_write [OF assms(1)] idx by (simp add: word_unat_eq_iff)
    then show ?thesis using True by (simp add: used_def skip_bytes_def)
  next
    case False
    then have n: "n < used buf" using assms(3) by simp
    have ne: "(sq_read buf + of_nat n) mod sq_MAX buf \<noteq> sq_write buf" if "used buf < ?M"
      using mod_neq_ahead [OF n that, of ?r] ring_write [OF assms(1)] idx by (metis)
    have ne': "(sq_read buf + of_nat n) mod sq_MAX buf \<noteq> sq_write buf" if "used buf = ?M"
    proof -
      have "(?r + n) mod ?M \<noteq> ?r mod ?M"
        using mod_neq_ahead [of 0 n ?M ?r] assms(2) n that by simp
      then show ?thesis using ring_write [OF assms(1)] idx that by (metis mod_add_self2)
    qed
    have "used buf = ?M \<or> used buf < ?M" using used_le [OF assms(1)] by auto
    then have "(sq_read buf + of_nat n) mod sq_MAX buf \<noteq> sq_write buf" using ne ne' by blast
    then have "sq_buf_empty (skip_bytes buf n) = 0" by (simp add: skip_bytes_def e)
    then show ?thesis
      using ring_dist_skip [of ?r ?M n "used buf"] ring_bounds [OF assms(1)] n used_le [OF assms(1)]
      by (subst used_dist) (simp add: idx ring_write [OF assms(1)])
  qed
qed

lemma skip_peek:
  assumes "ring buf" "0 < n" "n \<le> used buf" "i < used buf"
  shows "peek (skip_bytes buf n) i = peek buf (n + i)"
proof -
  have l: "n + i < 4294901760" "i < 4294901760" "n < 4294901760"
    using assms used_less [OF assms(1)] by auto
  show ?thesis
    by (simp add: peek_nat [OF skip_ring [OF assms(1,2,3)] l(2)] peek_nat [OF assms(1) l(1)]
      ring_index [OF assms(1) l(3)] mod_add_left_eq add.assoc)
qed

lemma skip_contents:
  assumes "ring buf" "0 < n" "n \<le> used buf"
  shows "contents (skip_bytes buf n) = drop n (contents buf)"
  using assms by (intro nth_equalityI) (simp_all add: skip_used contents_def skip_peek)

interpretation rb: byte_fifo ring contents room put_byte skip_bytes peek
proof unfold_locales
  fix buf c
  assume a: "ring buf" "0 < room buf"
  then show "ring (put_byte buf c) \<and> contents (put_byte buf c) = contents buf @ [c]
      \<and> Suc (room (put_byte buf c)) = room buf"
    by (auto simp: put_ring put_contents room_def put_used)
next
  fix buf n
  assume a: "ring buf" "0 < n" "n \<le> length (contents buf)"
  then show "ring (skip_bytes buf n) \<and> contents (skip_bytes buf n) = drop n (contents buf)
      \<and> room (skip_bytes buf n) = room buf + n"
    using used_le [OF a(1)] by (auto simp: skip_ring skip_contents room_def skip_used)
next
  fix buf i
  assume "ring buf" "i < length (contents buf)"
  then show "peek buf i = contents buf ! i" by (simp add: contents_def)
qed


section \<open>Writing\<close>

lemma write_loop_puts:
  "0 < len \<Longrightarrow> len \<le> length e \<Longrightarrow>
   map_option (sq_buf_empty_update (\<lambda>_. 0)) (write_loop buf e len) = Some (foldl put_byte buf (take len e))"
proof (induction buf e len rule: write_loop.induct)
  case (2 buf c e len)
  show ?case
  proof (cases len)
    case 0
    then show ?thesis by (simp add: put_byte_def)
  next
    case (Suc k)
    have put_empty: "foldl put_byte (b\<lparr>sq_buf_empty := x\<rparr>) cs = foldl put_byte b cs" if "cs \<noteq> []" for b x cs
      using that by (cases cs) (simp_all add: put_byte_def)
    have "take len e \<noteq> []" using 2 Suc by (cases e) auto
    then show ?thesis
      using 2 Suc put_empty [where b = "buf\<lparr>sq_base := (sq_base buf)[unat (sq_write buf) := c],
                     sq_write := (sq_write buf + 1) mod sq_MAX buf\<rparr>" and x = 0 and cs = "take len e"]
      by (simp add: put_byte_def [of buf])
  qed
qed auto

lemma write_code:
  assumes "ring buf"
  shows "(let buf_err = (if sq_MAX buf < len \<or> len = 0 then BUF_ARG_ERR else BUF_OK)
      in (if sq_read buf < sq_write buf
             then if sq_MAX buf - (sq_write buf - sq_read buf) < len then BUF_FULL else buf_err
             else if sq_write buf < sq_read buf
             then if sq_read buf - sq_write buf < len then BUF_FULL else buf_err
             else if sq_buf_empty buf = 0 then BUF_FULL else buf_err))
    = (if len = 0 \<and> 0 < room buf then BUF_ARG_ERR
       else if room buf < unat len \<or> len = 0
       then if sq_buf_empty buf = 0 then BUF_FULL else BUF_ARG_ERR else BUF_OK)"
proof -
  have w: "unat (sq_write buf - sq_read buf) = unat (sq_write buf) - unat (sq_read buf)"
    if "sq_read buf < sq_write buf" using that by (simp add: unat_sub)
  have r: "unat (sq_read buf - sq_write buf) = unat (sq_read buf) - unat (sq_write buf)"
    if "sq_write buf < sq_read buf" using that by (simp add: unat_sub)
  have m: "unat (sq_MAX buf - (sq_write buf - sq_read buf))
      = unat (sq_MAX buf) - (unat (sq_write buf) - unat (sq_read buf))"
    if "sq_read buf < sq_write buf"
  proof -
    have "sq_write buf - sq_read buf \<le> sq_MAX buf"
      using w [OF that] ring_bounds [OF assms] by (simp add: word_le_nat_alt)
    then show ?thesis by (simp add: unat_sub w [OF that])
  qed
  have z: "len = 0 \<longleftrightarrow> unat len = 0" by (simp add: unat_eq_0)
  consider "sq_read buf < sq_write buf" | "sq_write buf < sq_read buf" | "sq_read buf = sq_write buf"
    by (metis linorder_cases)
  then show ?thesis
  proof cases
    case 1
    then have "sq_buf_empty buf = 0" using assms by (auto simp: ring_def)
    then show ?thesis using 1 ring_bounds [OF assms] unfolding z word_less_nat_alt
      by (auto simp: m [OF 1] room_def used_dist ring_dist_def Let_def)
  next
    case 2
    then have "sq_buf_empty buf = 0" using assms by (auto simp: ring_def)
    then show ?thesis using 2 ring_bounds [OF assms] unfolding z word_less_nat_alt
      by (auto simp: r [OF 2] room_def used_dist ring_dist_def Let_def)
  next
    case 3
    then show ?thesis using assms ring_bounds [OF assms] unfolding z word_less_nat_alt
      by (auto simp: room_def used_dist ring_dist_def Let_def)
  qed
qed

lemma write_appends:
  assumes "ring buf" "unat len \<le> length e"
  shows "if 0 < len \<and> unat len \<le> room buf
    then \<exists>buf'. Write_Buf buf cap e len = Some (BUF_OK, buf', cap - len) \<and> ring buf'
      \<and> contents buf' = contents buf @ take (unat len) e \<and> room buf' + unat len = room buf
    else \<exists>code \<in> {BUF_FULL, BUF_ARG_ERR}. Write_Buf buf cap e len = Some (code, buf, cap)"
proof (cases "0 < len \<and> unat len \<le> room buf")
  case True
  then have l: "0 < unat len" "len \<noteq> 0" by (auto simp: unat_gt_0)
  obtain b where b: "write_loop buf e (unat len) = Some b"
    "b\<lparr>sq_buf_empty := 0\<rparr> = foldl put_byte buf (take (unat len) e)"
    using write_loop_puts [OF l(1) assms(2), of buf] by auto
  have "Write_Buf buf cap e len = Some (BUF_OK, foldl put_byte buf (take (unat len) e), cap - len)"
    unfolding Write_Buf_def Let_def
    using write_code [OF assms(1), of len, unfolded Let_def] True b l by simp
  then show ?thesis using True rb.puts [OF assms(1), of "take (unat len) e"] assms by auto
next
  case False
  then have "len = 0 \<or> room buf < unat len" by (auto simp: word_gt_0)
  then show ?thesis unfolding Write_Buf_def Let_def
    using write_code [OF assms(1), of len, unfolded Let_def] False by auto
qed

text \<open>C4. \<^verbatim>\<open>Write_Buf\<close> succeeds exactly when the length is positive and at most
  the free space; it then appends the \<open>len\<close> bytes to the contents of the buffer, keeps it well
  formed and charges \<open>len\<close> to the capacity counter.  Otherwise nothing changes and the code
  is \<^verbatim>\<open>BUF_FULL\<close> or \<^verbatim>\<open>BUF_ARG_ERR\<close>.\<close>

theorem write_buf_appends:
  assumes "ring buf" "unat len \<le> length e"
  shows "if 0 < len \<and> unat len \<le> room buf
    then \<exists>buf'. Write_Buf buf cap e len = Some (BUF_OK, buf', cap - len) \<and> ring buf'
      \<and> contents buf' = contents buf @ take (unat len) e \<and> room buf' + unat len = room buf
    else \<exists>code \<in> {BUF_FULL, BUF_ARG_ERR}. Write_Buf buf cap e len = Some (code, buf, cap)"
  using assms by (rule write_appends)

lemma init_ring: "0 < n \<Longrightarrow> n < 65536 \<Longrightarrow> ring (init_SqQueue n) \<and> contents (init_SqQueue n) = []"
  by (auto simp: ring_def init_SqQueue_def contents_def used_def unat_of_nat word_less_nat_alt)

theorem write_buf_appends_witness:
  "\<exists>buf'. Write_Buf (init_SqQueue 5) 100 [7, 8, 9, 1] 3 = Some (0, buf', 97) \<and> contents buf' = [7, 8, 9]"
proof -
  have "room (init_SqQueue 5) = 5" by (simp add: room_def used_def init_SqQueue_def)
  then show ?thesis
    using write_buf_appends [of "init_SqQueue 5" 3 "[7, 8, 9, 1]" 100] init_ring [of 5] by auto
qed

section \<open>Reading one order\<close>

lemma read_ahead:
  assumes "ring buf" "n < 100000" "i < 100000"
  shows "peek (buf\<lparr>sq_read := (sq_read buf + of_nat n) mod sq_MAX buf\<rparr>) i = peek buf (n + i)"
proof -
  let ?b = "buf\<lparr>sq_read := (sq_read buf + of_nat n) mod sq_MAX buf, sq_buf_empty := 0\<rparr>"
  have "ring ?b" using assms(1) by (auto simp: ring_def word_less_nat_alt unat_mod_distrib)
  then have "peek ?b i = sq_base buf ! ((unat ((sq_read buf + of_nat n) mod sq_MAX buf) + i) mod unat (sq_MAX buf))"
    using assms by (simp add: peek_nat)
  also have "\<dots> = peek buf (n + i)"
    using assms by (simp add: ring_index peek_nat mod_add_left_eq add.assoc)
  finally show ?thesis by (simp add: peek_def)
qed

lemma copy_order_ok:
  "n \<le> length e \<Longrightarrow> copy_order buf n e = Some (map (peek buf) [0 ..< n] @ drop n e)"
proof (induction n)
  case (Suc n)
  then show ?case by (simp add: list_update_append Cons_nth_drop_Suc [symmetric])
qed simp

lemma copy_order_out:
  "length e < n \<Longrightarrow> copy_order buf n e = None"
proof (induction n)
  case (Suc n)
  show ?case
  proof (cases "length e < n")
    case False
    then have "n = length e" using Suc.prems by simp
    then show ?thesis using copy_order_ok [of n e buf] by simp
  qed (use Suc in simp)
qed simp

lemma skip_twice:
  assumes "ring buf" "n < 100000" "k < 100000"
  shows "((sq_read buf + of_nat n) mod sq_MAX buf + of_nat k) mod sq_MAX buf
    = (sq_read buf + of_nat (n + k)) mod sq_MAX buf"
proof -
  let ?b = "buf\<lparr>sq_read := (sq_read buf + of_nat n) mod sq_MAX buf, sq_buf_empty := 0\<rparr>"
  have "ring ?b" using assms(1) by (auto simp: ring_def word_less_nat_alt unat_mod_distrib)
  then have "unat ((sq_read ?b + of_nat k) mod sq_MAX ?b)
      = (unat (sq_read ?b) + k) mod unat (sq_MAX ?b)"
    using assms by (intro ring_index) auto
  also have "\<dots> = (unat (sq_read buf) + (n + k)) mod unat (sq_MAX buf)"
    using ring_index [OF assms(1), of n] assms by (simp add: mod_add_left_eq add.assoc)
  also have "\<dots> = unat ((sq_read buf + of_nat (n + k)) mod sq_MAX buf)"
    using assms by (subst ring_index) auto
  finally show ?thesis by (simp add: word_unat_eq_iff)
qed

lemma order_length:
  assumes "ring buf" "28 \<le> used buf"
  shows "Read_Order_Length_Queue buf x = (Que_NOT_EMPTY, be16 (contents buf ! 2) (contents buf ! 3))"
proof -
  have "sq_buf_empty buf = 0" using assms(2) by (auto simp: used_def split: if_splits)
  then show ?thesis using assms rb.at_law [OF assms(1), of 2] rb.at_law [OF assms(1), of 3]
    by (simp add: Read_Order_Length_Queue_def)
qed

lemma read_one_order:
  assumes "ring buf" "contents buf = hd' @ body @ tl' @ rest" "length hd' = 24" "length tl' = 4"
    and "unat (be16 (hd' ! 2) (hd' ! 3)) = length body"
  shows "if 2 * length body < length e
    then \<exists>buf'. Read_Order_Queue buf cap e =
        Some (buf', cap + of_nat (length body) + 24 + 4, (body @ drop (length body) e)[2 * length body := 0])
      \<and> ring buf' \<and> contents buf' = rest
    else Read_Order_Queue buf cap e = None"
proof -
  let ?n = "length body"
  let ?b = "buf\<lparr>sq_read := (sq_read buf + 24) mod sq_MAX buf\<rparr>"
  have u: "used buf = 28 + ?n + length rest"
    using arg_cong [OF assms(2), of length] assms(3,4) by simp
  have n: "?n < 65536" using used_less [OF assms(1)] u by simp
  have c: "contents buf ! 2 = hd' ! 2" "contents buf ! 3 = hd' ! 3"
    using assms(2,3) by (auto simp: nth_append)
  have len: "unat (snd (Read_Order_Length_Queue buf 0)) = ?n"
    using order_length [OF assms(1)] u assms(5) c by simp
  have body: "map (peek ?b) [0 ..< ?n] = body"
  proof -
    have "map (peek ?b) [0 ..< ?n] = map (\<lambda>i. peek buf (24 + i)) [0 ..< ?n]"
      using read_ahead [OF assms(1), of 24] n by auto
    also have "\<dots> = take ?n (drop 24 (contents buf))"
      using u by (intro rb.at_range [OF assms(1)]) simp
    also have "\<dots> = body" using assms(2,3) by simp
    finally show ?thesis .
  qed
  show ?thesis
  proof (cases "?n \<le> length e")
    case True
    have cp: "copy_order ?b ?n e = Some (body @ drop ?n e)" using copy_order_ok [OF True] body by simp
    have sk: "((sq_read buf + 24) mod sq_MAX buf + of_nat ?n + 4) mod sq_MAX buf
        = (sq_read buf + of_nat (28 + ?n)) mod sq_MAX buf"
      using skip_twice [OF assms(1), of 24 "?n + 4"] n by (simp add: algebra_simps)
    have "contents (skip_bytes buf (28 + ?n)) = rest" "ring (skip_bytes buf (28 + ?n))"
      using rb.skip_law [OF assms(1), of "28 + ?n"] u assms(2,3,4) by auto
    moreover have "Read_Order_Queue buf cap e = (if 2 * ?n < length e then
        Some (skip_bytes buf (28 + ?n), cap + of_nat ?n + 24 + 4, (body @ drop ?n e)[2 * ?n := 0]) else None)"
      using True by (simp add: Read_Order_Queue_def Let_def len cp sk skip_bytes_def mult_2)
    ultimately show ?thesis by auto
  next
    case False
    then have "copy_order ?b ?n e = None" by (intro copy_order_out) simp
    then show ?thesis using False by (simp add: Read_Order_Queue_def Let_def len)
  qed
qed

text \<open>C5. When a whole order (24 header bytes, the body announced in the header, 4 tail bytes) is
  at the front of a well-formed buffer, \<^verbatim>\<open>Read_Order_Queue\<close> copies the body to the
  start of the memory block, removes exactly the order from the buffer and credits its length to
  the capacity counter, provided that the block is longer than twice the body.  For a shorter
  block it stores outside the block, since the closing NUL goes to twice the body length.\<close>

theorem read_order_queue:
  assumes "ring buf" "contents buf = hd' @ body @ tl' @ rest" "length hd' = 24" "length tl' = 4"
    and "unat (be16 (hd' ! 2) (hd' ! 3)) = length body"
  shows "if 2 * length body < length e
    then \<exists>buf'. Read_Order_Queue buf cap e =
        Some (buf', cap + of_nat (length body) + 24 + 4, (body @ drop (length body) e)[2 * length body := 0])
      \<and> ring buf' \<and> contents buf' = rest
    else Read_Order_Queue buf cap e = None"
  using assms by (rule read_one_order)

text \<open>An order of 30 bytes that wraps around the end of a buffer of 40.\<close>

definition wrapped_order :: SqQueue where
  "wrapped_order = \<lparr>sq_base = replicate 9 0 @ [5, 6, 0, 0, 0x11, 0xe3] @ replicate 10 9 @ [0x3e, 0x11, 0, 2] @ replicate 11 0,
     sq_read = 25, sq_write = 15, sq_MAX = 40, sq_buf_empty = 0\<rparr>"

theorem read_order_queue_witness:
  "Read_Order_Queue wrapped_order 10 [1, 2, 3, 4] = None
   \<and> (\<exists>buf'. Read_Order_Queue wrapped_order 10 [1, 2, 3, 4, 7] = Some (buf', 40, [5, 6, 3, 4, 0])
        \<and> contents buf' = [])"
proof -
  have c: "contents wrapped_order = (0x3e # 0x11 # 0 # 2 # replicate 20 0) @ [5, 6] @ [0, 0, 0x11, 0xe3] @ []"
    by code_simp
  have r: "ring wrapped_order" by (simp add: ring_def wrapped_order_def)
  have l: "length (0x3e # 0x11 # 0 # 2 # replicate 20 0 :: u8 list) = 24"
    "length [0, 0, 0x11, 0xe3 :: u8] = 4"
    "unat (be16 ((0x3e # 0x11 # 0 # 2 # replicate 20 0) ! 2) ((0x3e # 0x11 # 0 # 2 # replicate 20 0) ! 3)) = length [5, 6 :: u8]"
    by (simp_all add: unat_be16)
  from read_order_queue [OF r c l, of "[1, 2, 3, 4]" 10] read_order_queue [OF r c l, of "[1, 2, 3, 4, 7]" 10]
  show ?thesis by auto
qed

section \<open>Asking the server for more\<close>

lemma circle_used:
  assumes "ring buf"
  shows "unat ((sq_write buf + sq_MAX buf - sq_read buf) mod sq_MAX buf) =
    (if used buf = unat (sq_MAX buf) then 0 else used buf)"
proof -
  note b = ring_bounds [OF assms]
  have w: "unat (sq_write buf + sq_MAX buf) = unat (sq_write buf) + unat (sq_MAX buf)"
    using b by (subst unat_add_lem [THEN iffD1]) auto
  moreover have "sq_read buf \<le> sq_write buf + sq_MAX buf"
    using b w by (simp add: word_le_nat_alt)
  ultimately have "unat (sq_write buf + sq_MAX buf - sq_read buf)
      = unat (sq_write buf) + unat (sq_MAX buf) - unat (sq_read buf)"
    by (simp add: unat_sub)
  then have "unat ((sq_write buf + sq_MAX buf - sq_read buf) mod sq_MAX buf)
      = (unat (sq_write buf) + unat (sq_MAX buf) - unat (sq_read buf)) mod unat (sq_MAX buf)"
    by (simp add: unat_mod_distrib)
  also have "\<dots> = (if used buf = unat (sq_MAX buf) then 0 else used buf)"
  proof (cases "sq_buf_empty buf = 0")
    case True
    have "(w + M - r) mod M = (if ring_dist r w M = M then 0 else ring_dist r w M)"
      if "r < M" "w < M" for r w M :: nat
      using that by (auto simp: ring_dist_def mod_if)
    from this [OF b(1,2)] show ?thesis by (simp add: used_dist True)
  next
    case False
    then show ?thesis using assms b by (auto simp: ring_def used_def)
  qed
  finally show ?thesis .
qed

text \<open>C6. \<^verbatim>\<open>Check_Buf_Request_Signal\<close> takes a count of the semaphore and asks for
  orders when the free space reaches the threshold, but it counts a completely full buffer as
  completely free.\<close>

theorem request_signal:
  assumes "ring buf"
  shows "Check_Buf_Request_Signal buf cnt =
    (if THRESHOLD_SIZE \<le> (if room buf = 0 then unat (sq_MAX buf) else room buf) \<and> 0 < cnt
     then (cnt - 1, True) else (cnt, False))"
proof -
  let ?u = "(sq_write buf + sq_MAX buf - sq_read buf) mod sq_MAX buf"
  note b = ring_bounds [OF assms] and c = circle_used [OF assms] and l = used_le [OF assms]
  have "?u \<le> sq_MAX buf" using c l by (simp add: word_le_nat_alt split: if_splits)
  then have "unat (sq_MAX buf - ?u) = (if room buf = 0 then unat (sq_MAX buf) else room buf)"
    using c l by (auto simp: unat_sub room_def)
  moreover have "unat (sq_MAX buf - ?u) < 65536" using b \<open>?u \<le> sq_MAX buf\<close> by (simp add: unat_sub)
  ultimately have "unat (ucast (sq_MAX buf - ?u) :: u16) = (if room buf = 0 then unat (sq_MAX buf) else room buf)"
    by (simp add: unsigned_ucast_eq take_bit_nat_eq_self_iff)
  then show ?thesis by (simp add: Check_Buf_Request_Signal_def Let_def)
qed

theorem request_signal_witness:
  "Check_Buf_Request_Signal (init_SqQueue 8000) 3 = (2, True)
   \<and> Check_Buf_Request_Signal wrapped_order 1 = (1, False)"
proof -
  have "ring wrapped_order" "room wrapped_order = 10"
    by (simp_all add: ring_def room_def used_def wrapped_order_def)
  moreover have "room (init_SqQueue 8000) = 8000"
    by (simp add: room_def used_def init_SqQueue_def)
  ultimately show ?thesis
    using request_signal [of "init_SqQueue 8000" 3] request_signal [of wrapped_order 1] init_ring [of 8000] by simp
qed

end
