(* ===== verification/Os_Memory.thy ===== *)
theory Os_Memory
  imports Prelude
begin

text \<open>
  The services of the kernel that the program's components share: counting semaphores
  (\<^verbatim>\<open>UCOSII/Source/os_sem.c\<close>) and fixed-size memory partitions
  (\<^verbatim>\<open>UCOSII/Source/os_mem.c\<close>) over a flat byte memory, in which the free blocks of a
  partition are chained through their first word.  A semaphore is its count: a task that pends on
  0 is a step that is not enabled yet, so a post always reaches the count.
\<close>

section \<open>Semaphores\<close>

definition OSSemAccept :: "u16 \<Rightarrow> u16 \<times> u16" where
  "OSSemAccept cnt = (cnt, if 0 < cnt then cnt - 1 else cnt)"

definition OSSemPost :: "u16 \<Rightarrow> u16" where
  "OSSemPost cnt = (if cnt < 65535 then cnt + 1 else cnt)"

definition OSSemPend :: "u16 \<Rightarrow> u16 option" where
  "OSSemPend cnt = (if 0 < cnt then Some (cnt - 1) else None)"

section \<open>Memory\<close>

type_synonym memory = "u32 \<Rightarrow> u8"

definition load32 :: "memory \<Rightarrow> u32 \<Rightarrow> u32" where
  "load32 m a = be32 (m (a + 3)) (m (a + 2)) (m (a + 1)) (m a)"

definition store32 :: "memory \<Rightarrow> u32 \<Rightarrow> u32 \<Rightarrow> memory" where
  "store32 m a v = m(a := byte 0 v, a + 1 := byte 1 v, a + 2 := byte 2 v, a + 3 := byte 3 v)"

text \<open>The bytes of a block, and the store of a whole block.\<close>

definition load_block :: "memory \<Rightarrow> u32 \<Rightarrow> nat \<Rightarrow> u8 list" where
  "load_block m a n = map (\<lambda>i. m (a + of_nat i)) [0 ..< n]"

fun store_block :: "memory \<Rightarrow> u32 \<Rightarrow> u8 list \<Rightarrow> memory" where
  "store_block m a [] = m"
| "store_block m a (b # bs) = store_block (m(a := b)) (a + 1) bs"

section \<open>Partitions\<close>

record OS_MEM =
  OSMemAddr :: u32
  OSMemFreeList :: u32
  OSMemBlkSize :: u32
  OSMemNBlks :: u32
  OSMemNFree :: u32

fun link_blocks :: "memory \<Rightarrow> u32 \<Rightarrow> nat \<Rightarrow> u32 \<Rightarrow> memory" where
  "link_blocks m p 0 blksize = store32 m p 0"
| "link_blocks m p (Suc n) blksize = link_blocks (store32 m p (p + blksize)) (p + blksize) n blksize"

definition OSMemCreate :: "memory \<Rightarrow> u32 \<Rightarrow> u32 \<Rightarrow> u32 \<Rightarrow> memory \<times> OS_MEM" where
  "OSMemCreate m addr nblks blksize =
     (link_blocks m addr (unat (nblks - 1)) blksize,
      \<lparr>OSMemAddr = addr, OSMemFreeList = addr, OSMemBlkSize = blksize, OSMemNBlks = nblks, OSMemNFree = nblks\<rparr>)"

text \<open>The block (0 when there is none) and the partition.\<close>

definition OSMemGet :: "memory \<Rightarrow> OS_MEM \<Rightarrow> u32 \<times> OS_MEM" where
  "OSMemGet m pmem =
     (if 0 < OSMemNFree pmem
      then (OSMemFreeList pmem,
            pmem\<lparr>OSMemFreeList := load32 m (OSMemFreeList pmem), OSMemNFree := OSMemNFree pmem - 1\<rparr>)
      else (0, pmem))"

text \<open>The flag tells whether the block was taken back (\<^verbatim>\<open>OS_ERR_NONE\<close>) or refused.\<close>

definition OSMemPut :: "memory \<Rightarrow> OS_MEM \<Rightarrow> u32 \<Rightarrow> bool \<times> memory \<times> OS_MEM" where
  "OSMemPut m pmem pblk =
     (if OSMemNBlks pmem \<le> OSMemNFree pmem then (False, m, pmem)
      else (True, store32 m pblk (OSMemFreeList pmem),
            pmem\<lparr>OSMemFreeList := pblk, OSMemNFree := OSMemNFree pmem + 1\<rparr>))"

section \<open>Free blocks\<close>

fun free_list :: "memory \<Rightarrow> u32 \<Rightarrow> nat \<Rightarrow> u32 list" where
  "free_list m p 0 = []"
| "free_list m p (Suc n) = p # free_list m (load32 m p) n"

definition free_blocks :: "memory \<times> OS_MEM \<Rightarrow> u32 list" where
  "free_blocks s = free_list (fst s) (OSMemFreeList (snd s)) (unat (OSMemNFree (snd s)))"

definition blocks :: "OS_MEM \<Rightarrow> u32 list" where
  "blocks pmem = map (\<lambda>i. OSMemAddr pmem + of_nat i * OSMemBlkSize pmem) [0 ..< unat (OSMemNBlks pmem)]"

definition geometry :: "u32 \<Rightarrow> u32 \<Rightarrow> u32 \<Rightarrow> bool" where
  "geometry addr nblks blksize \<longleftrightarrow> addr \<noteq> 0 \<and> 4 \<le> blksize \<and> 0 < nblks
     \<and> unat addr + unat nblks * unat blksize < 4294967296"

definition part_ok :: "memory \<times> OS_MEM \<Rightarrow> bool" where
  "part_ok s \<longleftrightarrow> geometry (OSMemAddr (snd s)) (OSMemNBlks (snd s)) (OSMemBlkSize (snd s))
     \<and> distinct (free_blocks s) \<and> set (free_blocks s) \<subseteq> set (blocks (snd s))"

definition get_block :: "memory \<times> OS_MEM \<Rightarrow> u32 \<times> memory \<times> OS_MEM" where
  "get_block s = (let (b, pmem) = OSMemGet (fst s) (snd s) in (b, fst s, pmem))"

definition put_block :: "memory \<times> OS_MEM \<Rightarrow> u32 \<Rightarrow> memory \<times> OS_MEM" where
  "put_block s b = snd (OSMemPut (fst s) (snd s) b)"

section \<open>Loads and stores\<close>

lemma store32_bytes:
  "store32 m a v a = byte 0 v" "store32 m a v (a + 1) = byte 1 v"
  "store32 m a v (a + 2) = byte 2 v" "store32 m a v (a + 3) = byte 3 v"
  by (simp_all add: store32_def)

lemma load_store [simp]: "load32 (store32 m a v) a = v"
  by (simp only: load32_def store32_bytes be32_bytes)

lemma store32_other:
  "x \<notin> {a, a + 1, a + 2, a + 3} \<Longrightarrow> store32 m a v x = m x"
  by (simp add: store32_def)

text \<open>Words that start in different blocks do not overlap.\<close>

definition apart :: "u32 \<Rightarrow> u32 \<Rightarrow> bool" where
  "apart a b \<longleftrightarrow> {a, a + 1, a + 2, a + 3} \<inter> {b, b + 1, b + 2, b + 3} = {}"

lemma load_store_apart: "apart a b \<Longrightarrow> load32 (store32 m a v) b = load32 m b"
  by (auto simp: apart_def load32_def store32_other)

lemma free_list_store:
  "\<forall>b \<in> set (free_list m p n). apart a b \<Longrightarrow> free_list (store32 m a v) p n = free_list m p n"
  by (induction n arbitrary: p) (auto simp: load_store_apart)

lemma unat_offset:
  "unat (a :: u32) + k < 4294967296 \<Longrightarrow> unat (a + of_nat k) = unat a + k"
  by (subst unat_add_lem [THEN iffD1]) (auto simp: unat_of_nat)

section \<open>The free list of a partition\<close>

lemma block_addr:
  assumes "geometry addr nblks blksize" "k < unat nblks"
  shows "unat (addr + of_nat k * blksize) = unat addr + k * unat blksize"
    and "unat addr + k * unat blksize + unat blksize < 4294967296"
proof -
  have "k * unat blksize + unat blksize \<le> unat nblks * unat blksize"
    using assms(2) by (metis Suc_leI add.commute mult_Suc mult_le_mono1)
  then show l: "unat addr + k * unat blksize + unat blksize < 4294967296"
    using assms(1) by (simp add: geometry_def)
  have "of_nat k * blksize = of_nat (k * unat blksize)" by simp
  then show "unat (addr + of_nat k * blksize) = unat addr + k * unat blksize"
    using l by (simp only:) (rule unat_offset, linarith)
qed

lemma block_bytes_apart:
  assumes g: "geometry addr nblks blksize" and "i < unat nblks" "j < unat nblks" "i \<noteq> j"
    and "x < unat blksize" "y < unat blksize"
  shows "addr + of_nat i * blksize + of_nat x \<noteq> addr + of_nat j * blksize + of_nat y"
proof
  assume eq: "addr + of_nat i * blksize + of_nat x = addr + of_nat j * blksize + of_nat y"
  have "unat (addr + of_nat i * blksize + of_nat x) = unat addr + i * unat blksize + x"
    using block_addr [OF g assms(2)] assms(5) by (subst unat_offset) auto
  moreover have "unat (addr + of_nat j * blksize + of_nat y) = unat addr + j * unat blksize + y"
    using block_addr [OF g assms(3)] assms(6) by (subst unat_offset) auto
  ultimately have e: "i * unat blksize + x = j * unat blksize + y" using eq by simp
  have "(i * unat blksize + x) div unat blksize = i" "(j * unat blksize + y) div unat blksize = j"
    using assms(5,6) by (auto simp: div_add1_eq)
  then show False using e assms(4) by metis
qed

lemma blocks_apart:
  assumes "geometry addr nblks blksize" "i < unat nblks" "j < unat nblks" "i \<noteq> j"
  shows "apart (addr + of_nat i * blksize) (addr + of_nat j * blksize)"
proof -
  have "4 \<le> unat blksize" using assms(1) by (simp add: geometry_def word_le_nat_alt)
  then have "addr + of_nat i * blksize + of_nat x \<noteq> addr + of_nat j * blksize + of_nat y"
    if "x < 4" "y < 4" for x y
    using that assms by (intro block_bytes_apart) auto
  from this [of 0 0] this [of 0 1] this [of 0 2] this [of 0 3] this [of 1 0] this [of 1 1] this [of 1 2]
    this [of 1 3] this [of 2 0] this [of 2 1] this [of 2 2] this [of 2 3] this [of 3 0] this [of 3 1]
    this [of 3 2] this [of 3 3]
  show ?thesis by (auto simp: apart_def)
qed

lemma set_blocks: "set (blocks pmem) = {OSMemAddr pmem + of_nat i * OSMemBlkSize pmem | i. i < unat (OSMemNBlks pmem)}"
  by (auto simp: blocks_def)

lemma distinct_blocks:
  assumes "geometry (OSMemAddr pmem) (OSMemNBlks pmem) (OSMemBlkSize pmem)"
  shows "distinct (blocks pmem)"
proof -
  have "x = y" if "x < unat (OSMemNBlks pmem)" "y < unat (OSMemNBlks pmem)"
    "OSMemAddr pmem + of_nat x * OSMemBlkSize pmem = OSMemAddr pmem + of_nat y * OSMemBlkSize pmem" for x y
    using blocks_apart [OF assms that(1,2)] that(3) by (auto simp: apart_def)
  then show ?thesis by (auto simp: blocks_def distinct_map inj_on_def)
qed

lemma apart_in_blocks:
  assumes "part_ok s" "a \<in> set (blocks (snd s))" "b \<in> set (blocks (snd s))" "a \<noteq> b"
  shows "apart a b"
  using assms blocks_apart by (force simp: part_ok_def set_blocks)

lemma length_free_list [simp]: "length (free_list m p n) = n"
  by (induction n arbitrary: p) auto

lemma length_free_blocks [simp]: "length (free_blocks s) = unat (OSMemNFree (snd s))"
  by (simp add: free_blocks_def)

lemma unat_minus_1: "0 < (w :: 'a::len word) \<Longrightarrow> unat (w - 1) = unat w - 1"
  by (metis One_nat_def unat_1 unat_minus_one word_gt_0)

lemma get_block_some:
  assumes "free_blocks s = b # bs"
  shows "get_block s = (b, fst s, (snd s)\<lparr>OSMemFreeList := load32 (fst s) b, OSMemNFree := OSMemNFree (snd s) - 1\<rparr>)"
    and "free_blocks (snd (get_block s)) = bs"
proof -
  have p: "0 < OSMemNFree (snd s)"
    using arg_cong [OF assms, of length] by (auto simp: word_gt_0)
  obtain n where n: "unat (OSMemNFree (snd s)) = Suc n" using arg_cong [OF assms, of length] by auto
  have b: "OSMemFreeList (snd s) = b" "free_list (fst s) (load32 (fst s) b) n = bs"
    using assms by (auto simp: free_blocks_def n)
  show "get_block s = (b, fst s, (snd s)\<lparr>OSMemFreeList := load32 (fst s) b, OSMemNFree := OSMemNFree (snd s) - 1\<rparr>)"
    using p b by (simp add: get_block_def OSMemGet_def)
  then show "free_blocks (snd (get_block s)) = bs"
    using b p n by (simp add: free_blocks_def unat_minus_1)
qed

lemma free_nonempty: "0 < OSMemNFree (snd s) \<Longrightarrow> free_blocks s \<noteq> []"
proof
  assume "0 < OSMemNFree (snd s)" "free_blocks s = []"
  then show False using length_free_blocks [of s] by (simp add: unat_gt_0 word_gt_0 unat_eq_0)
qed

lemma get_block_none: "free_blocks s = [] \<Longrightarrow> get_block s = (0, s)"
  by (cases "unat (OSMemNFree (snd s))") (auto simp: free_blocks_def get_block_def OSMemGet_def word_gt_0 unat_eq_0)

lemma free_le_blocks:
  assumes "part_ok s" "b \<in> set (blocks (snd s))" "b \<notin> set (free_blocks s)"
  shows "unat (OSMemNFree (snd s)) < unat (OSMemNBlks (snd s))"
proof -
  have "insert b (set (free_blocks s)) \<subseteq> set (blocks (snd s))" using assms by (auto simp: part_ok_def)
  then have "card (insert b (set (free_blocks s))) \<le> card (set (blocks (snd s)))" by (intro card_mono) auto
  moreover have "card (set (blocks (snd s))) \<le> unat (OSMemNBlks (snd s))"
    using card_length [of "blocks (snd s)"] by (simp add: blocks_def)
  moreover have "card (set (free_blocks s)) = unat (OSMemNFree (snd s))"
    using assms(1) by (simp add: part_ok_def distinct_card)
  ultimately show ?thesis using assms(3) by simp
qed

lemma put_block_free:
  assumes "part_ok s" "b \<in> set (blocks (snd s))" "b \<notin> set (free_blocks s)"
  shows "put_block s b = (store32 (fst s) b (OSMemFreeList (snd s)),
      (snd s)\<lparr>OSMemFreeList := b, OSMemNFree := OSMemNFree (snd s) + 1\<rparr>)"
    and "free_blocks (put_block s b) = b # free_blocks s"
proof -
  let ?n = "unat (OSMemNFree (snd s))"
  have lt: "?n < unat (OSMemNBlks (snd s))" by (rule free_le_blocks [OF assms])
  then show e: "put_block s b = (store32 (fst s) b (OSMemFreeList (snd s)),
      (snd s)\<lparr>OSMemFreeList := b, OSMemNFree := OSMemNFree (snd s) + 1\<rparr>)"
    by (simp add: put_block_def OSMemPut_def word_le_nat_alt)
  have n: "unat (OSMemNFree (snd s) + 1) = Suc ?n"
    using lt unat_u32 [of "OSMemNBlks (snd s)"] by (subst unat_add_lem [THEN iffD1]) auto
  have "\<forall>x \<in> set (free_list (fst s) (OSMemFreeList (snd s)) ?n). apart b x"
    using assms apart_in_blocks [OF assms(1,2)] by (auto simp: part_ok_def free_blocks_def)
  then show "free_blocks (put_block s b) = b # free_blocks s"
    by (simp add: e free_blocks_def n free_list_store)
qed

section \<open>The interface\<close>

text \<open>
  What the users of a partition rely on: a stack of free blocks out of a fixed set; a block is
  handed out only while it is free, and taken back only when it is not.
\<close>

locale block_pool =
  fixes ok :: "'s \<Rightarrow> bool"
    and pool :: "'s \<Rightarrow> u32 list"
    and avail :: "'s \<Rightarrow> u32 list"
    and get :: "'s \<Rightarrow> u32 \<times> 's"
    and put :: "'s \<Rightarrow> u32 \<Rightarrow> 's"
  assumes avail_law: "ok s \<Longrightarrow> distinct (avail s) \<and> set (avail s) \<subseteq> set (pool s) \<and> 0 \<notin> set (pool s)"
    and get_law: "ok s \<Longrightarrow> avail s = b # bs \<Longrightarrow>
      fst (get s) = b \<and> ok (snd (get s)) \<and> avail (snd (get s)) = bs \<and> pool (snd (get s)) = pool s"
    and get_none: "ok s \<Longrightarrow> avail s = [] \<Longrightarrow> get s = (0, s)"
    and put_law: "ok s \<Longrightarrow> b \<in> set (pool s) \<Longrightarrow> b \<notin> set (avail s) \<Longrightarrow>
      ok (put s b) \<and> avail (put s b) = b # avail s \<and> pool (put s b) = pool s"
begin

text \<open>The blocks that are out, and how an allocation and a release move one block.\<close>

definition lent :: "'s \<Rightarrow> u32 set" where
  "lent s = set (pool s) - set (avail s)"

lemma get_lends:
  assumes "ok s" "avail s \<noteq> []"
  shows "ok (snd (get s)) \<and> fst (get s) \<notin> lent s \<and> fst (get s) \<noteq> 0
    \<and> lent (snd (get s)) = insert (fst (get s)) (lent s)"
proof -
  obtain b bs where a: "avail s = b # bs" using assms(2) by (cases "avail s") auto
  then show ?thesis using get_law [OF assms(1) a] avail_law [OF assms(1)] by (auto simp: lent_def)
qed

lemma put_returns:
  assumes "ok s" "b \<in> lent s"
  shows "ok (put s b) \<and> lent (put s b) = lent s - {b}"
  using assms put_law [of s b] by (auto simp: lent_def)

lemma get_put:
  assumes "ok s" "avail s \<noteq> []"
  shows "avail (put (snd (get s)) (fst (get s))) = avail s"
proof -
  obtain b bs where a: "avail s = b # bs" using assms(2) by (cases "avail s") auto
  then show ?thesis
    using get_law [OF assms(1) a] avail_law [OF assms(1)] put_law [of "snd (get s)" b] by auto
qed

end

interpretation mem: block_pool part_ok "\<lambda>s. blocks (snd s)" free_blocks get_block put_block
proof unfold_locales
  fix s :: "memory \<times> OS_MEM"
  assume ok: "part_ok s"
  have "OSMemAddr (snd s) + of_nat i * OSMemBlkSize (snd s) \<noteq> 0" if "i < unat (OSMemNBlks (snd s))" for i
  proof -
    have g: "geometry (OSMemAddr (snd s)) (OSMemNBlks (snd s)) (OSMemBlkSize (snd s))"
      using ok by (simp add: part_ok_def)
    then have "0 < unat (OSMemAddr (snd s))" by (simp add: geometry_def unat_gt_0)
    then have "unat (OSMemAddr (snd s) + of_nat i * OSMemBlkSize (snd s)) \<noteq> 0"
      using block_addr(1) [OF g that] by simp
    then show ?thesis by (metis unat_0)
  qed
  then show "distinct (free_blocks s) \<and> set (free_blocks s) \<subseteq> set (blocks (snd s)) \<and> 0 \<notin> set (blocks (snd s))"
    using ok by (auto simp: part_ok_def set_blocks)
next
  fix s :: "memory \<times> OS_MEM" and b bs
  assume ok: "part_ok s" and f: "free_blocks s = b # bs"
  show "fst (get_block s) = b \<and> part_ok (snd (get_block s)) \<and> free_blocks (snd (get_block s)) = bs
      \<and> blocks (snd (snd (get_block s))) = blocks (snd s)"
    using ok f get_block_some [OF f] by (simp add: part_ok_def blocks_def)
next
  fix s :: "memory \<times> OS_MEM"
  assume "part_ok s" "free_blocks s = []"
  then show "get_block s = (0, s)" by (intro get_block_none)
next
  fix s :: "memory \<times> OS_MEM" and b
  assume a: "part_ok s" "b \<in> set (blocks (snd s))" "b \<notin> set (free_blocks s)"
  show "part_ok (put_block s b) \<and> free_blocks (put_block s b) = b # free_blocks s
      \<and> blocks (snd (put_block s b)) = blocks (snd s)"
    using a put_block_free [OF a] by (simp add: part_ok_def blocks_def)
qed

section \<open>A fresh partition\<close>

lemma link_blocks_below:
  assumes "unat p + (n + 1) * unat z < 4294967296" "4 \<le> unat z" "unat a < unat p"
  shows "link_blocks m p n z a = m a"
  using assms
proof (induction n arbitrary: m p)
  case 0
  then have "unat (p + of_nat k) = unat p + k" if "k < 4" for k using that by (intro unat_offset) simp
  from this [of 0] this [of 1] this [of 2] this [of 3] show ?case
    using 0 by (auto intro!: store32_other)
next
  case (Suc n)
  have l: "unat p + unat z < 4294967296" using Suc.prems(1) by simp
  have "unat (p + of_nat k) = unat p + k" if "k < 4" for k using that Suc l by (intro unat_offset) simp
  from this [of 0] this [of 1] this [of 2] this [of 3] have s: "store32 m p (p + z) a = m a"
    using Suc by (auto intro!: store32_other)
  have "unat (p + z) = unat p + unat z" using l by (subst unat_add_lem [THEN iffD1]) auto
  then show ?case using Suc.prems Suc.IH [of "p + z" "store32 m p (p + z)"] s by simp
qed

lemma load_link_below:
  assumes "unat p + (n + 1) * unat z < 4294967296" "4 \<le> unat z" "unat a + 4 \<le> unat p"
  shows "load32 (link_blocks m p n z) a = load32 m a"
proof -
  have "unat (a + of_nat k) = unat a + k" if "k < 4" for k using that assms by (intro unat_offset) simp
  from this [of 0] this [of 1] this [of 2] this [of 3] show ?thesis
    using assms by (simp add: load32_def link_blocks_below)
qed

lemma free_list_link:
  assumes "unat p + (n + 1) * unat z < 4294967296" "4 \<le> unat z"
  shows "free_list (link_blocks m p n z) p (Suc n) = map (\<lambda>i. p + of_nat i * z) [0 ..< Suc n]"
  using assms
proof (induction n arbitrary: m p)
  case (Suc n)
  have l: "unat p + unat z < 4294967296" using Suc.prems(1) by simp
  have u: "unat (p + z) = unat p + unat z" using l by (subst unat_add_lem [THEN iffD1]) auto
  have "load32 (link_blocks (store32 m p (p + z)) (p + z) n z) p = p + z"
    using Suc.prems u by (subst load_link_below) auto
  then have "free_list (link_blocks m p (Suc n) z) p (Suc (Suc n))
      = p # free_list (link_blocks (store32 m p (p + z)) (p + z) n z) (p + z) (Suc n)"
    by simp
  also have "\<dots> = p # map (\<lambda>i. (p + z) + of_nat i * z) [0 ..< Suc n]"
    using Suc.IH [of "p + z" "store32 m p (p + z)"] Suc.prems u by simp
  also have "\<dots> = map (\<lambda>i. p + of_nat i * z) [0 ..< Suc (Suc n)]"
    by (simp add: upt_conv_Cons map_Suc_upt [symmetric] algebra_simps del: upt_Suc)
  finally show ?case .
qed simp

lemma create_ok:
  assumes "geometry addr nblks blksize"
  shows "part_ok (OSMemCreate m addr nblks blksize)"
    and "free_blocks (OSMemCreate m addr nblks blksize) = blocks (snd (OSMemCreate m addr nblks blksize))"
proof -
  have n: "unat nblks = Suc (unat (nblks - 1))"
  proof -
    have "0 < nblks" using assms by (simp add: geometry_def)
    then show ?thesis using unat_minus_1 [of nblks] by (simp add: word_less_nat_alt)
  qed
  have z: "4 \<le> unat blksize" using assms by (simp add: geometry_def word_le_nat_alt)
  have "unat addr + (unat (nblks - 1) + 1) * unat blksize < 4294967296"
    using assms n by (simp add: geometry_def)
  from free_list_link [OF this z]
  show f: "free_blocks (OSMemCreate m addr nblks blksize) = blocks (snd (OSMemCreate m addr nblks blksize))"
    by (simp add: free_blocks_def blocks_def OSMemCreate_def n del: upt_Suc)
  then show "part_ok (OSMemCreate m addr nblks blksize)"
    using assms distinct_blocks [of "snd (OSMemCreate m addr nblks blksize)"]
    by (simp add: part_ok_def OSMemCreate_def)
qed

section \<open>Clients of a partition\<close>

text \<open>
  A client that allocates, releases what it holds, and writes any byte of a block it holds; the
  set is what it holds.
\<close>

inductive pool_run :: "memory \<times> OS_MEM \<Rightarrow> u32 set \<Rightarrow> bool" where
  start: "geometry addr nblks blksize \<Longrightarrow> pool_run (OSMemCreate m addr nblks blksize) {}"
| alloc: "pool_run s held \<Longrightarrow> 0 < OSMemNFree (snd s) \<Longrightarrow>
    pool_run (snd (get_block s)) (insert (fst (get_block s)) held)"
| release: "pool_run s held \<Longrightarrow> b \<in> held \<Longrightarrow> pool_run (put_block s b) (held - {b})"
| use: "pool_run s held \<Longrightarrow> b \<in> held \<Longrightarrow> i < unat (OSMemBlkSize (snd s)) \<Longrightarrow>
    pool_run ((fst s)(b + of_nat i := v), snd s) held"

lemma free_list_use:
  assumes "\<forall>c \<in> set (free_list m p n). a \<notin> {c, c + 1, c + 2, c + 3}"
  shows "free_list (m(a := v)) p n = free_list m p n"
  using assms
proof (induction n arbitrary: p)
  case (Suc n)
  then have "load32 (m(a := v)) p = load32 m p" by (auto simp: load32_def)
  then show ?case using Suc by (simp del: fun_upd_apply)
qed simp

lemma use_block:
  assumes "part_ok s" "b \<in> set (blocks (snd s))" "b \<notin> set (free_blocks s)" "i < unat (OSMemBlkSize (snd s))"
  shows "free_blocks ((fst s)(b + of_nat i := v), snd s) = free_blocks s"
proof -
  let ?A = "OSMemAddr (snd s)" and ?Z = "OSMemBlkSize (snd s)" and ?N = "OSMemNBlks (snd s)"
  have g: "geometry ?A ?N ?Z" using assms(1) by (simp add: part_ok_def)
  then have z: "4 \<le> unat ?Z" by (simp add: geometry_def word_le_nat_alt)
  obtain j where j: "b = ?A + of_nat j * ?Z" "j < unat ?N" using assms(2) by (auto simp: set_blocks)
  have "b + of_nat i \<notin> {c, c + 1, c + 2, c + 3}" if "c \<in> set (free_blocks s)" for c
  proof -
    have "c \<in> set (blocks (snd s))" using that assms(1) by (auto simp: part_ok_def)
    then obtain k where k: "c = ?A + of_nat k * ?Z" "k < unat ?N" by (auto simp: set_blocks)
    have "j \<noteq> k" using that assms(3) j k by auto
    then have "b + of_nat i \<noteq> c + of_nat y" if "y < 4" for y
      using block_bytes_apart [OF g j(2) k(2) _ assms(4), of y] that z j k by simp
    from this [of 0] this [of 1] this [of 2] this [of 3] show ?thesis by simp
  qed
  then show ?thesis by (simp add: free_blocks_def free_list_use)
qed

lemma pool_run_inv: "pool_run s held \<Longrightarrow> part_ok s \<and> held = mem.lent s"
proof (induction rule: pool_run.induct)
  case (start addr nblks blksize m)
  then show ?case using create_ok [OF start] by (simp add: mem.lent_def)
next
  case (alloc s held)
  then have "free_blocks s \<noteq> []" by (intro free_nonempty)
  then show ?case using alloc mem.get_lends [of s] by simp
next
  case (release s held b)
  then show ?case using mem.put_returns [of s b] by simp
next
  case (use s held b i v)
  then have "free_blocks ((fst s)(b + of_nat i := v), snd s) = free_blocks s"
    by (intro use_block) (auto simp: mem.lent_def)
  then show ?case using use by (simp add: part_ok_def mem.lent_def)
qed

text \<open>C7. However a client allocates, releases and fills its blocks, \<^verbatim>\<open>OSMemGet\<close>
  hands out a block of the partition that the client does not hold yet, as long as blocks are
  left, and blocks held and blocks free add up to the partition.\<close>

theorem no_block_twice:
  assumes "pool_run s held"
  shows "card held + unat (OSMemNFree (snd s)) = unat (OSMemNBlks (snd s))
    \<and> (0 < OSMemNFree (snd s) \<longrightarrow>
         fst (OSMemGet (fst s) (snd s)) \<in> set (blocks (snd s)) - held \<and> fst (OSMemGet (fst s) (snd s)) \<noteq> 0)"
proof -
  have inv: "part_ok s" "held = mem.lent s" using pool_run_inv [OF assms] by auto
  have d: "distinct (free_blocks s)" "set (free_blocks s) \<subseteq> set (blocks (snd s))" "distinct (blocks (snd s))"
    using inv(1) distinct_blocks by (auto simp: part_ok_def)
  have "card held = card (set (blocks (snd s))) - card (set (free_blocks s))"
    unfolding inv(2) mem.lent_def by (rule card_Diff_subset) (use d in auto)
  moreover have "card (set (free_blocks s)) \<le> card (set (blocks (snd s)))" using d by (intro card_mono) auto
  ultimately have c: "card held + unat (OSMemNFree (snd s)) = unat (OSMemNBlks (snd s))"
    using d by (simp add: distinct_card) (simp add: blocks_def)
  have "fst (OSMemGet (fst s) (snd s)) \<in> set (blocks (snd s)) - held \<and> fst (OSMemGet (fst s) (snd s)) \<noteq> 0"
    if p: "0 < OSMemNFree (snd s)"
  proof -
    have "free_blocks s \<noteq> []" using p by (rule free_nonempty)
    then obtain b bs where f: "free_blocks s = b # bs" by (cases "free_blocks s") auto
    have "fst (OSMemGet (fst s) (snd s)) = b"
      using get_block_some(1) [OF f] by (simp add: get_block_def split: prod.splits)
    then show ?thesis using f mem.avail_law [OF inv(1)] inv(2) by (auto simp: mem.lent_def)
  qed
  then show ?thesis using c by blast
qed

definition two_blocks :: "memory \<times> OS_MEM" where
  "two_blocks = OSMemCreate (\<lambda>a. 0) 0x20000000 2 8"

theorem no_block_twice_witness:
  "fst (OSMemGet (fst (snd (get_block two_blocks))) (snd (snd (get_block two_blocks)))) \<noteq> fst (get_block two_blocks)"
proof -
  have "geometry 0x20000000 2 8" by (simp add: geometry_def)
  then have "pool_run two_blocks {}" unfolding two_blocks_def by (rule pool_run.start)
  then have r: "pool_run (snd (get_block two_blocks)) (insert (fst (get_block two_blocks)) {})"
    by (rule alloc) (simp add: two_blocks_def OSMemCreate_def)
  have "0 < OSMemNFree (snd (snd (get_block two_blocks)))"
    by (simp add: two_blocks_def OSMemCreate_def get_block_def OSMemGet_def)
  then show ?thesis using no_block_twice [OF r] by auto
qed

end
