(* ===== verification/Order_Table.thy ===== *)
theory Order_Table
  imports Ring_Buffer Os_Memory
begin

text \<open>
  The print queue's store of orders, the data structure half of
  \<^verbatim>\<open>User/src/print_queue.c\<close>: eleven order nodes in four block classes (1K, 2K, 4K, 10K), a
  memory partition and a semaphore of free blocks per class, and a linked queue through
  \<^verbatim>\<open>next_print_node\<close>.  Using \<^verbatim>\<open>order_node\<close> out of range, a loop that does not
  end and a store outside a memory block are the value \<^term>\<open>None\<close>.
\<close>

section \<open>State\<close>

record buf_info =
  bn_common_buf_size :: u32
  bn_urgent_buf_size :: u32
  bn_common_buf_remain_capacity :: u32
  bn_urgent_buf_remain_capacity :: u32

record order_print_queue_info =
  pt_buf_node :: buf_info
  pt_order_node :: "order_info list"
  pt_head :: u8
  pt_tail :: u8
  pt_empty :: u8

text \<open>
  The table with the resources it manages, indexed by block class 0 to 3:
  \<^verbatim>\<open>queue_1K\<close> to \<^verbatim>\<open>queue_10K\<close> and \<^verbatim>\<open>Block_1K_Sem\<close> to
  \<^verbatim>\<open>Block_10K_Sem\<close>.
\<close>

record order_store =
  st_table :: order_print_queue_info
  st_mem :: memory
  st_parts :: "OS_MEM list"
  st_sems :: "u16 list"

abbreviation (input) "ALL_BLOCK_NUM \<equiv> (11 :: nat)"
abbreviation (input) "ORDER_PRIO_LOW \<equiv> (0 :: u8)"
abbreviation (input) "ORDER_PRIO_HIGH \<equiv> (1 :: u8)"
abbreviation (input) "ORDER_PRIO_INVALID \<equiv> (2 :: u8)"
abbreviation (input) "ORDER_QUEUE_OK \<equiv> (0 :: int)"
abbreviation (input) "ORDER_EMPTY_BLOCK \<equiv> (-3 :: int)"
abbreviation (input) "ORDER_TOO_LARGER \<equiv> (-100 :: int)"
abbreviation (input) "ORDER_FIND_INDEX_ERR \<equiv> (-101 :: int)"
abbreviation (input) "ORDER_QUEUE_EMPTY \<equiv> (-103 :: int)"

text \<open>Start and end index, block size and lack code of a class.\<close>

definition class_start :: "nat \<Rightarrow> nat" where
  "class_start c = [0, 4, 7, 10] ! c"

definition class_end :: "nat \<Rightarrow> nat" where
  "class_end c = [4, 7, 10, 11] ! c"

definition class_size :: "nat \<Rightarrow> nat" where
  "class_size c = [1024, 2048, 4096, 10240] ! c"

definition Lack_Of :: "nat \<Rightarrow> int" where
  "Lack_Of c = [-1, -2, -4, -5] ! c"

definition class_of_index :: "nat \<Rightarrow> nat" where
  "class_of_index i = (if i < 4 then 0 else if i < 7 then 1 else if i < 10 then 2 else 3)"

definition class_of_len :: "nat \<Rightarrow> nat" where
  "class_of_len len = (if len \<le> 1024 then 0 else if len \<le> 2048 then 1 else if len \<le> 4096 then 2 else 3)"

definition blank_order :: order_info where
  "blank_order = \<lparr>oi_mcu_id = 0, oi_sever_send_time = 0, oi_serial_number = 0, oi_size = 0,
     oi_batch_number = 0, oi_batch_within_number = 0, oi_check_sum = 0, oi_preservation = 0,
     oi_data_source = 0, oi_data = 0, oi_priority = ORDER_PRIO_INVALID, oi_status = 100,
     oi_next_print_node = 0\<rparr>"

definition Init_Order_Table :: order_print_queue_info where
  "Init_Order_Table = \<lparr>pt_buf_node = \<lparr>bn_common_buf_size = of_nat MAXQSIZE, bn_urgent_buf_size = of_nat MAXUSIZE,
       bn_common_buf_remain_capacity = of_nat MAXQSIZE, bn_urgent_buf_remain_capacity = of_nat MAXUSIZE\<rparr>,
     pt_order_node = replicate ALL_BLOCK_NUM blank_order, pt_head = 0, pt_tail = 0, pt_empty = 1\<rparr>"

abbreviation node :: "order_print_queue_info \<Rightarrow> u8 \<Rightarrow> order_info" where
  "node t i \<equiv> pt_order_node t ! unat i"

definition in_table :: "order_print_queue_info \<Rightarrow> u8 \<Rightarrow> bool" where
  "in_table t i \<longleftrightarrow> unat i < length (pt_order_node t)"

definition set_next :: "u8 \<Rightarrow> u8 \<Rightarrow> order_print_queue_info \<Rightarrow> order_print_queue_info" where
  "set_next i n t = t\<lparr>pt_order_node := (pt_order_node t)[unat i := (node t i)\<lparr>oi_next_print_node := n\<rparr>]\<rparr>"

section \<open>Finding a node\<close>

text \<open>
  \<^verbatim>\<open>Find_Block_Num\<close>: an urgent order accepts a block or reports the lack of one, a common
  order pends; \<^term>\<open>None\<close> is a pend that is not enabled yet.  The class stands for the block
  size that the switch maps to it.
\<close>

definition Find_Block_Num :: "order_store \<Rightarrow> nat \<Rightarrow> bool \<Rightarrow> (int \<times> order_store) option" where
  "Find_Block_Num s c order_prio_sigal =
     (let (cnt, cnt') = OSSemAccept (st_sems s ! c)
      in if cnt = 0 then (if order_prio_sigal then Some (Lack_Of c, s) else None)
         else let s' = s\<lparr>st_sems := (st_sems s)[c := cnt']\<rparr>
              in case List.find (\<lambda>i. oi_data (pt_order_node (st_table s) ! i) = 0) [class_start c ..< class_end c] of
                   Some i \<Rightarrow> Some (int i, s')
                 | None \<Rightarrow> Some (ORDER_FIND_INDEX_ERR, s'))"

definition Find_Entry :: "order_store \<Rightarrow> u16 \<Rightarrow> bool \<Rightarrow> (int \<times> order_store) option" where
  "Find_Entry s len order_prio_sigal =
     (if 10240 < unat len then Some (ORDER_TOO_LARGER, s)
      else Find_Block_Num s (class_of_len (unat len)) order_prio_sigal)"

section \<open>The linked queue\<close>

text \<open>
  The loop of \<^verbatim>\<open>Change_Normal_Order_Seque\<close> over the urgent orders: the first other node,
  and the last urgent one.
\<close>

partial_function (option) urgent_walk :: "order_print_queue_info \<Rightarrow> u8 \<Rightarrow> u8 \<Rightarrow> (u8 \<times> u8) option" where
  "urgent_walk t start_index start_index_front =
     (if in_table t start_index
      then if oi_data (node t start_index) \<noteq> 0 \<and> oi_priority (node t start_index) = ORDER_PRIO_HIGH
           then urgent_walk t (oi_next_print_node (node t start_index)) start_index
           else Some (start_index, start_index_front)
      else None)"

definition Change_Normal_Order_Seque :: "order_print_queue_info \<Rightarrow> u8 \<Rightarrow> order_print_queue_info option" where
  "Change_Normal_Order_Seque t entry_index =
     (if oi_priority (node t entry_index) = ORDER_PRIO_HIGH
      then case urgent_walk t (pt_head t) (pt_head t) of
             None \<Rightarrow> None
           | Some (start_index, start_index_front) \<Rightarrow>
               if start_index = start_index_front
               then Some ((set_next entry_index (pt_head t) t)\<lparr>pt_head := entry_index\<rparr>)
               else let t = set_next entry_index (oi_next_print_node (node t start_index_front)) t;
                        t = set_next start_index_front entry_index t
                    in if oi_data (node t start_index) = 0
                       then Some (set_next entry_index 255 (t\<lparr>pt_tail := entry_index\<rparr>))
                       else Some t
      else Some ((set_next (pt_tail t) entry_index t)\<lparr>pt_tail := entry_index\<rparr>))"

text \<open>\<^verbatim>\<open>GetOrderFromQueue\<close>: the code, the entry it stores, and the table.\<close>

definition GetOrderFromQueue :: "order_print_queue_info \<Rightarrow> int \<times> u8 option \<times> order_print_queue_info" where
  "GetOrderFromQueue t =
     (if pt_empty t = 1 then (ORDER_QUEUE_EMPTY, None, t)
      else let entry = pt_head t;
               t = (if pt_head t = pt_tail t then t\<lparr>pt_empty := 1, pt_head := 0, pt_tail := 0\<rparr>
                    else t\<lparr>pt_head := oi_next_print_node (node t (pt_head t))\<rparr>)
           in (ORDER_QUEUE_OK, Some entry, set_next entry 0 t))"

section \<open>Adding and deleting an order\<close>

text \<open>
  The header is read through \<^verbatim>\<open>buf->base + buf->read\<close> without wrapping, so a header that
  crosses the end of the buffer is read outside of it.
\<close>

definition parse_order_head :: "u8 list \<Rightarrow> u8 \<Rightarrow> order_info \<Rightarrow> order_info" where
  "parse_order_head h prio n = n\<lparr>
     oi_size := be16 (h ! ORDER_SIZE_OFFSET) (h ! (ORDER_SIZE_OFFSET + 1)),
     oi_mcu_id := be32 (h ! ORDER_MCU_ID_OFFSET) (h ! (ORDER_MCU_ID_OFFSET + 1)) (h ! (ORDER_MCU_ID_OFFSET + 2)) (h ! (ORDER_MCU_ID_OFFSET + 3)),
     oi_sever_send_time := be32 (h ! ORDER_SEVER_SEND_TIME_OFFSET) (h ! (ORDER_SEVER_SEND_TIME_OFFSET + 1)) (h ! (ORDER_SEVER_SEND_TIME_OFFSET + 2)) (h ! (ORDER_SEVER_SEND_TIME_OFFSET + 3)),
     oi_serial_number := be32 (h ! ORDER_SERIAL_NUMBER_OFFSET) (h ! (ORDER_SERIAL_NUMBER_OFFSET + 1)) (h ! (ORDER_SERIAL_NUMBER_OFFSET + 2)) (h ! (ORDER_SERIAL_NUMBER_OFFSET + 3)),
     oi_batch_number := ucast (be16 (h ! ORDER_BATCH_NUMBER_OFFSET) (h ! (ORDER_BATCH_NUMBER_OFFSET + 1))),
     oi_batch_within_number := be16 (h ! ORDER_BATCH_WITHIN_NUMBER_OFFSET) (h ! (ORDER_BATCH_WITHIN_NUMBER_OFFSET + 1)),
     oi_check_sum := be16 (h ! ORDER_CHECK_SUM_OFFSET) (h ! (ORDER_CHECK_SUM_OFFSET + 1)),
     oi_data_source := oi_preservation n,
     oi_priority := prio,
     oi_next_print_node := 255\<rparr>"

definition link_order :: "order_print_queue_info \<Rightarrow> u8 \<Rightarrow> order_print_queue_info option" where
  "link_order t entry_index =
     (if pt_empty t = 1 then Some (t\<lparr>pt_head := entry_index, pt_tail := entry_index, pt_empty := 0\<rparr>)
      else Change_Normal_Order_Seque t entry_index)"

definition Add_Order_To_Print_Queue ::
  "order_store \<Rightarrow> SqQueue \<Rightarrow> u8 \<Rightarrow> u8 \<Rightarrow> (order_store \<times> SqQueue) option" where
  "Add_Order_To_Print_Queue s buf entry_index order_prio_sigal =
     (let order_head = drop (unat (sq_read buf)) (sq_base buf);
          c = class_of_index (unat entry_index);
          (p, part) = OSMemGet (st_mem s) (st_parts s ! c);
          t = st_table s;
          t = t\<lparr>pt_order_node := (pt_order_node t)[unat entry_index :=
                 (parse_order_head order_head order_prio_sigal ((node t entry_index)\<lparr>oi_data := p\<rparr>))]\<rparr>
      in if length order_head < 24 then None
         else case link_order t entry_index of None \<Rightarrow> None
           | Some t \<Rightarrow>
             if p = 0 then None
             else case Read_Order_Queue buf (bn_common_buf_remain_capacity (pt_buf_node t))
                         (load_block (st_mem s) p (class_size c)) of
               None \<Rightarrow> None
             | Some (buf', cap, block) \<Rightarrow>
                 Some (s\<lparr>st_table := t\<lparr>pt_buf_node := (pt_buf_node t)\<lparr>bn_common_buf_remain_capacity := cap\<rparr>\<rparr>,
                         st_mem := store_block (st_mem s) p block,
                         st_parts := (st_parts s)[c := part]\<rparr>, buf'))"

definition Delete_Order :: "order_store \<Rightarrow> u8 \<Rightarrow> int \<times> order_store" where
  "Delete_Order s entry_index =
     (let t = st_table s; data = oi_data (node t entry_index); c = class_of_index (unat entry_index);
          s = s\<lparr>st_table := t\<lparr>pt_order_node := (pt_order_node t)[unat entry_index := (node t entry_index)\<lparr>oi_data := 0\<rparr>]\<rparr>\<rparr>
      in if data = 0 then (ORDER_EMPTY_BLOCK, s)
         else let (ok, m, part) = OSMemPut (st_mem s) (st_parts s ! c) data
              in (ORDER_QUEUE_OK, s\<lparr>st_mem := m, st_parts := (st_parts s)[c := part],
                    st_sems := (st_sems s)[c := OSSemPost (st_sems s ! c)]\<rparr>))"

section \<open>The queue as a list\<close>

text \<open>
  \<open>qpath ns h xs l\<close>: following \<^verbatim>\<open>next_print_node\<close> from \<open>h\<close> visits \<open>xs\<close> and ends at \<open>l\<close>.
\<close>

fun qpath :: "order_info list \<Rightarrow> u8 \<Rightarrow> u8 list \<Rightarrow> u8 \<Rightarrow> bool" where
  "qpath ns h [] l = False"
| "qpath ns h [x] l = (h = x \<and> l = x)"
| "qpath ns h (x # y # xs) l = (h = x \<and> qpath ns (oi_next_print_node (ns ! unat x)) (y # xs) l)"

definition is_queue :: "order_print_queue_info \<Rightarrow> u8 list \<Rightarrow> bool" where
  "is_queue t xs \<longleftrightarrow> distinct xs
     \<and> (\<forall>x \<in> set xs. in_table t x \<and> oi_data (node t x) \<noteq> 0)
     \<and> (if xs = [] then pt_empty t = 1
        else pt_empty t = 0 \<and> qpath (pt_order_node t) (pt_head t) xs (pt_tail t)
          \<and> oi_next_print_node (node t (pt_tail t)) = 255)"

definition urgent :: "order_print_queue_info \<Rightarrow> u8 \<Rightarrow> bool" where
  "urgent t x \<longleftrightarrow> oi_priority (node t x) = ORDER_PRIO_HIGH"

text \<open>The place of a new order: behind the urgent ones when it is urgent, else at the end.\<close>

definition prio_insert :: "('a \<Rightarrow> bool) \<Rightarrow> 'a \<Rightarrow> 'a list \<Rightarrow> 'a list" where
  "prio_insert u e xs = (if u e then takeWhile u xs @ e # dropWhile u xs else xs @ [e])"

lemma prio_insert_Nil [simp]: "prio_insert u e [] = [e]"
  by (simp add: prio_insert_def)

lemma qpath_Cons: "qpath ns h (x # xs) l \<longleftrightarrow>
    h = x \<and> (if xs = [] then l = x else qpath ns (oi_next_print_node (ns ! unat x)) xs l)"
  by (cases xs) auto

lemma qpath_hd: "qpath ns h xs l \<Longrightarrow> xs \<noteq> [] \<and> h = hd xs \<and> l = last xs"
  by (induction ns h xs l rule: qpath.induct) auto

lemma unat_eq_u8 [simp]: "unat (a :: u8) = unat b \<longleftrightarrow> a = b"
  by (simp add: word_unat_eq_iff)

lemma qpath_upd:
  "e \<notin> set xs \<or> oi_next_print_node v = oi_next_print_node (ns ! unat e) \<Longrightarrow>
   qpath (ns[unat e := v]) h xs l = qpath ns h xs l"
proof (induction ns h xs l rule: qpath.induct)
  case (3 ns h x y xs l)
  then show ?case by (cases "unat e < length ns") (auto simp: nth_list_update list_update_beyond)
qed auto

lemma qpath_snoc:
  assumes "qpath ns h xs l" "e \<notin> set xs" "distinct xs" "unat l < length ns"
    "oi_next_print_node v = e"
  shows "qpath (ns[unat l := v]) h (xs @ [e]) e"
  using assms
proof (induction ns h xs l rule: qpath.induct)
  case (3 ns h x y xs l)
  have "l \<in> set (y # xs)" using qpath_hd [of _ _ "y # xs" l] 3(2) by (metis last_in_set qpath.simps(3))
  then have "x \<noteq> l" using 3 by auto
  then show ?case using 3 by auto
qed auto

lemma qpath_middle:
  assumes "qpath ns h (us @ ys) l" "us \<noteq> []" "ys \<noteq> []" "distinct (us @ ys)" "e \<notin> set (us @ ys)"
    "unat (last us) < length ns" "oi_next_print_node (ns ! unat e) = hd ys" "oi_next_print_node v = e"
  shows "qpath (ns[unat (last us) := v]) h (us @ e # ys) l"
  using assms
proof (induction us arbitrary: h)
  case (Cons x us)
  show ?case
  proof (cases us)
    case Nil
    then have "qpath ns (hd ys) ys l" "h = x"
      using Cons.prems qpath_hd [of ns _ ys l] by (auto simp: qpath_Cons)
    moreover have "e \<noteq> x" using Cons.prems by auto
    ultimately show ?thesis using Nil Cons.prems
      by (auto simp: qpath_Cons qpath_upd nth_list_update)
  next
    case (Cons z zs)
    then have "qpath (ns[unat (last us) := v]) (oi_next_print_node (ns ! unat x)) (us @ e # ys) l"
      using Cons.prems Cons.IH [of "oi_next_print_node (ns ! unat x)"] by (simp add: qpath_Cons)
    moreover have "last us \<noteq> x" using Cons Cons.prems last_in_set [of us] by auto
    ultimately show ?thesis using Cons Cons.prems by (simp add: qpath_Cons)
  qed
qed simp

section \<open>Walking over the urgent orders\<close>

lemma urgent_walk_path:
  assumes "qpath (pt_order_node t) h (us @ ys) l" "ys \<noteq> []"
    "\<forall>x \<in> set (us @ ys). in_table t x \<and> oi_data (node t x) \<noteq> 0"
    "\<forall>x \<in> set us. urgent t x" "\<not> urgent t (hd ys)"
  shows "urgent_walk t h f = Some (hd ys, if us = [] then f else last us)"
  using assms
proof (induction us arbitrary: h f)
  case Nil
  then have "h = hd ys" using qpath_hd by fastforce
  then show ?case using Nil by (subst urgent_walk.simps) (simp add: urgent_def)
next
  case (Cons x us)
  then have "h = x" "qpath (pt_order_node t) (oi_next_print_node (node t x)) (us @ ys) l"
    by (auto simp: qpath_Cons)
  then show ?case using Cons by (subst urgent_walk.simps) (auto simp: urgent_def)
qed

lemma urgent_walk_all:
  assumes "qpath (pt_order_node t) h xs l" "\<forall>x \<in> set xs. in_table t x \<and> oi_data (node t x) \<noteq> 0"
    "\<forall>x \<in> set xs. urgent t x" "\<not> in_table t (oi_next_print_node (node t l))"
  shows "urgent_walk t h f = None"
  using assms
proof (induction xs arbitrary: h f)
  case (Cons x xs)
  show ?case
  proof (cases xs)
    case Nil
    then show ?thesis using Cons by (subst urgent_walk.simps, subst urgent_walk.simps) (auto simp: urgent_def)
  next
    case (Cons z zs)
    then show ?thesis using Cons.prems Cons.IH [of "oi_next_print_node (node t x)" x]
      by (subst urgent_walk.simps) (auto simp: urgent_def)
  qed
qed simp

section \<open>Linking and unlinking\<close>

lemma set_next_fields [simp]:
  "length (pt_order_node (set_next i n t)) = length (pt_order_node t)"
  "pt_head (set_next i n t) = pt_head t" "pt_tail (set_next i n t) = pt_tail t"
  "pt_empty (set_next i n t) = pt_empty t" "pt_buf_node (set_next i n t) = pt_buf_node t"
  "in_table (set_next i n t) x = in_table t x"
  by (simp_all add: set_next_def in_table_def)

lemma node_set_next:
  "in_table t i \<Longrightarrow> node (set_next i n t) x = (if x = i then (node t i)\<lparr>oi_next_print_node := n\<rparr> else node t x)"
  by (auto simp: set_next_def in_table_def nth_list_update)

lemma node_set_next_fields [simp]:
  "oi_data (node (set_next i n t) x) = oi_data (node t x)"
  "oi_priority (node (set_next i n t) x) = oi_priority (node t x)"
  by (cases "in_table t i"; auto simp: set_next_def in_table_def nth_list_update list_update_beyond)+

lemma urgent_set_next [simp]: "urgent (set_next i n t) x = urgent t x"
  by (simp add: urgent_def)

lemma nodes_set_next: "pt_order_node (set_next i n t) = (pt_order_node t)[unat i := (node t i)\<lparr>oi_next_print_node := n\<rparr>]"
  by (simp add: set_next_def)

text \<open>A node that is about to be linked.\<close>

definition fresh_node :: "order_print_queue_info \<Rightarrow> u8 \<Rightarrow> u8 list \<Rightarrow> bool" where
  "fresh_node t e xs \<longleftrightarrow> in_table t e \<and> oi_data (node t e) \<noteq> 0 \<and> e \<notin> set xs
     \<and> oi_next_print_node (node t e) = 255"

lemma link_empty:
  assumes "is_queue t []" "fresh_node t e []"
  shows "\<exists>t'. link_order t e = Some t' \<and> is_queue t' [e] \<and> pt_order_node t' = pt_order_node t"
  using assms by (simp add: link_order_def is_queue_def fresh_node_def in_table_def)

lemma link_normal:
  assumes "is_queue t xs" "xs \<noteq> []" "fresh_node t e xs" "\<not> urgent t e"
  shows "link_order t e = Some ((set_next (pt_tail t) e t)\<lparr>pt_tail := e\<rparr>)"
    and "is_queue ((set_next (pt_tail t) e t)\<lparr>pt_tail := e\<rparr>) (xs @ [e])"
proof -
  show "link_order t e = Some ((set_next (pt_tail t) e t)\<lparr>pt_tail := e\<rparr>)"
    using assms by (simp add: link_order_def is_queue_def Change_Normal_Order_Seque_def urgent_def)
  have q: "qpath (pt_order_node t) (pt_head t) xs (pt_tail t)" using assms(1,2) by (simp add: is_queue_def)
  have tl: "pt_tail t \<in> set xs" using qpath_hd [OF q] last_in_set [of xs] by metis
  then have it: "in_table t (pt_tail t)" using assms(1) by (auto simp: is_queue_def)
  have "qpath (pt_order_node (set_next (pt_tail t) e t)) (pt_head t) (xs @ [e]) e"
    unfolding nodes_set_next using q assms it
    by (intro qpath_snoc) (auto simp: is_queue_def fresh_node_def in_table_def)
  then show "is_queue ((set_next (pt_tail t) e t)\<lparr>pt_tail := e\<rparr>) (xs @ [e])"
    using assms tl it node_set_next [OF it, of e e]
    by (auto simp: is_queue_def fresh_node_def in_table_def)
qed

lemma link_urgent:
  assumes q: "is_queue t (us @ ys)" and e: "fresh_node t e (us @ ys)" "urgent t e"
    and u: "\<forall>x \<in> set us. urgent t x" and y: "ys \<noteq> []" "\<not> urgent t (hd ys)"
  shows "\<exists>t'. link_order t e = Some t' \<and> is_queue t' (us @ e # ys) \<and> (\<forall>x. urgent t' x = urgent t x)
    \<and> length (pt_order_node t') = length (pt_order_node t)
    \<and> (\<forall>x. x \<noteq> e \<and> x \<notin> set (us @ ys) \<longrightarrow> node t' x = node t x)"
proof -
  have path: "qpath (pt_order_node t) (pt_head t) (us @ ys) (pt_tail t)"
    using q y(1) by (simp add: is_queue_def)
  have d: "distinct (us @ ys)" "\<forall>x \<in> set (us @ ys). in_table t x \<and> oi_data (node t x) \<noteq> 0"
    using q unfolding is_queue_def by blast+
  have walk: "urgent_walk t (pt_head t) (pt_head t) = Some (hd ys, if us = [] then pt_head t else last us)"
    by (rule urgent_walk_path [OF path y(1) d(2) u y(2)])
  have ie: "in_table t e" "e \<notin> set (us @ ys)" using e by (auto simp: fresh_node_def)
  have pe: "oi_priority (node t e) = ORDER_PRIO_HIGH" "pt_empty t \<noteq> 1"
    using e(2) q y(1) by (auto simp: urgent_def is_queue_def)
  have tl: "pt_tail t \<in> set (us @ ys)" using qpath_hd [OF path] y(1) by (metis last_in_set append_is_Nil_conv)
  show ?thesis
  proof (cases "us = []")
    case True
    let ?t = "(set_next e (pt_head t) t)\<lparr>pt_head := e\<rparr>"
    have h: "hd ys = pt_head t" using qpath_hd [OF path] True by simp
    have "link_order t e = Some ?t"
      using walk True pe h by (simp add: link_order_def Change_Normal_Order_Seque_def)
    moreover have "qpath (pt_order_node (set_next e (pt_head t) t)) (pt_head t) ys (pt_tail t)"
      unfolding nodes_set_next using path ie True by (simp add: qpath_upd)
    then have "qpath (pt_order_node ?t) e (e # ys) (pt_tail t)"
      using y(1) node_set_next [OF ie(1), of "pt_head t" e] by (simp add: qpath_Cons)
    then have "is_queue ?t (e # ys)"
      using q e d ie tl True y(1) node_set_next [OF ie(1), of "pt_head t" "pt_tail t"]
      by (auto simp: is_queue_def fresh_node_def in_table_def)
    moreover have "x \<noteq> e \<Longrightarrow> node ?t x = node t x" for x using node_set_next [OF ie(1), of "pt_head t" x] by simp
    ultimately show ?thesis using True by (auto simp: urgent_def)
  next
    case False
    let ?f = "last us"
    have f: "?f \<in> set us" "?f \<noteq> e" "in_table t ?f" "?f \<noteq> pt_tail t"
    proof -
      show "?f \<in> set us" using False by simp
      then show "?f \<noteq> e" "in_table t ?f" using ie d by auto
      have "pt_tail t = last ys" using qpath_hd [OF path] y(1) by simp
      then show "?f \<noteq> pt_tail t" using d(1) y(1) False by (metis disjoint_iff distinct_append last_in_set)
    qed
    have nf: "oi_next_print_node (node t ?f) = hd ys"
    proof -
      have "qpath (pt_order_node t) h (vs @ ys) l \<Longrightarrow> vs \<noteq> [] \<Longrightarrow> oi_next_print_node (node t (last vs)) = hd ys" for h vs l
      proof (induction vs arbitrary: h)
        case (Cons v vs)
        then show ?case using y(1) qpath_hd [of "pt_order_node t" "oi_next_print_node (node t v)" ys l]
          by (cases vs) (auto simp: qpath_Cons)
      qed simp
      then show ?thesis using path False by blast
    qed
    let ?t1 = "set_next e (hd ys) t"
    let ?t2 = "set_next ?f e ?t1"
    have hy: "hd ys \<in> set ys" using y(1) by simp
    have "hd ys \<noteq> last us" using hy d(1) f(1) by auto
    moreover have "oi_data (node t (hd ys)) \<noteq> 0" using d(2) hy by simp
    ultimately have "link_order t e = Some ?t2"
      using walk False pe nf by (simp add: link_order_def Change_Normal_Order_Seque_def Let_def)
    moreover have "qpath (pt_order_node ?t1) (pt_head t) (us @ ys) (pt_tail t)"
      unfolding nodes_set_next using path ie by (simp add: qpath_upd)
    then have "qpath (pt_order_node ?t2) (pt_head t) (us @ e # ys) (pt_tail t)"
      unfolding nodes_set_next [of ?f]
      using False y(1) d(1) ie f node_set_next [OF ie(1), of "hd ys" e]
      by (intro qpath_middle) (auto simp: in_table_def)
    then have "is_queue ?t2 (us @ e # ys)"
      using q e d ie tl y(1) f node_set_next [OF ie(1), of "hd ys" "pt_tail t"]
        node_set_next [of ?t1 ?f e "pt_tail t"]
      by (auto simp: is_queue_def fresh_node_def)
    moreover have "x \<noteq> e \<Longrightarrow> x \<notin> set (us @ ys) \<Longrightarrow> node ?t2 x = node t x" for x
      using node_set_next [OF ie(1), of "hd ys" x] node_set_next [of ?t1 ?f e x] f by auto
    ultimately show ?thesis by auto
  qed
qed

lemma link_all_urgent:
  assumes "is_queue t xs" "xs \<noteq> []" "fresh_node t e xs" "urgent t e" "\<forall>x \<in> set xs. urgent t x"
    "length (pt_order_node t) \<le> 255"
  shows "link_order t e = None"
proof -
  have "\<not> in_table t (oi_next_print_node (node t (pt_tail t)))"
    using assms(1,2,6) by (simp add: is_queue_def in_table_def)
  then have "urgent_walk t (pt_head t) (pt_head t) = None"
    using assms by (intro urgent_walk_all [of _ _ xs]) (auto simp: is_queue_def)
  then show ?thesis
    using assms by (simp add: link_order_def is_queue_def Change_Normal_Order_Seque_def urgent_def)
qed

text \<open>A queue that an urgent order can enter: empty, or with a common order in it.\<close>

definition has_common :: "order_print_queue_info \<Rightarrow> u8 \<Rightarrow> u8 list \<Rightarrow> bool" where
  "has_common t e xs \<longleftrightarrow> urgent t e \<longrightarrow> xs = [] \<or> (\<exists>x \<in> set xs. \<not> urgent t x)"

lemma link_spec:
  assumes "is_queue t xs" "fresh_node t e xs" "has_common t e xs"
  shows "\<exists>t'. link_order t e = Some t' \<and> is_queue t' (prio_insert (urgent t) e xs)
    \<and> (\<forall>x. urgent t' x = urgent t x) \<and> length (pt_order_node t') = length (pt_order_node t)
    \<and> (\<forall>x. x \<noteq> e \<and> x \<notin> set xs \<longrightarrow> node t' x = node t x)"
proof (cases "xs = []")
  case True
  then show ?thesis using link_empty [of t e] assms by (auto simp: prio_insert_def urgent_def)
next
  case False
  show ?thesis
  proof (cases "urgent t e")
    case True
    have ex: "\<exists>x \<in> set xs. \<not> urgent t x" using assms(3) True False by (simp add: has_common_def)
    then have ne: "dropWhile (urgent t) xs \<noteq> []" by (auto simp: dropWhile_eq_Nil_conv)
    then have "\<not> urgent t (hd (dropWhile (urgent t) xs))" by (rule hd_dropWhile)
    then have "\<exists>t'. link_order t e = Some t' \<and> is_queue t' (takeWhile (urgent t) xs @ e # dropWhile (urgent t) xs)
        \<and> (\<forall>x. urgent t' x = urgent t x) \<and> length (pt_order_node t') = length (pt_order_node t)
        \<and> (\<forall>x. x \<noteq> e \<and> x \<notin> set (takeWhile (urgent t) xs @ dropWhile (urgent t) xs) \<longrightarrow> node t' x = node t x)"
      using assms True ne by (intro link_urgent) (auto dest: set_takeWhileD)
    then show ?thesis using True by (simp only: prio_insert_def takeWhile_dropWhile_id if_True)
  next
    case u: False
    note ln = link_normal [OF assms(1) False assms(2) u]
    have q: "qpath (pt_order_node t) (pt_head t) xs (pt_tail t)" using assms(1) False by (simp add: is_queue_def)
    have tl: "pt_tail t \<in> set xs" using qpath_hd [OF q] by (metis last_in_set)
    then have "in_table t (pt_tail t)" using assms(1) by (auto simp: is_queue_def)
    then have "x \<notin> set xs \<Longrightarrow> node (set_next (pt_tail t) e t) x = node t x" for x
      using tl node_set_next by auto
    moreover have "urgent ((set_next (pt_tail t) e t)\<lparr>pt_tail := e\<rparr>) x = urgent t x" for x
      using urgent_set_next [of "pt_tail t" e t x] by (simp add: urgent_def)
    ultimately show ?thesis using ln u by (auto simp: prio_insert_def)
  qed
qed

lemma fresh_kept:
  assumes "fresh_node t x (e # xs)" "length (pt_order_node t') = length (pt_order_node t)"
    "\<forall>x. x \<noteq> e \<and> x \<notin> set xs \<longrightarrow> node t' x = node t x"
  shows "fresh_node t' x (prio_insert u e xs)"
  using assms by (auto simp: fresh_node_def in_table_def prio_insert_def dest: set_takeWhileD set_dropWhileD)

lemma dequeue_spec:
  assumes "is_queue t (x # xs)"
  shows "\<exists>t'. GetOrderFromQueue t = (ORDER_QUEUE_OK, Some x, t') \<and> is_queue t' xs
    \<and> (\<forall>y. urgent t' y = urgent t y) \<and> (\<forall>y. y \<noteq> x \<longrightarrow> node t' y = node t y)
    \<and> length (pt_order_node t') = length (pt_order_node t)"
proof -
  have h: "pt_head t = x" "pt_empty t = 0" "in_table t x"
    and q: "qpath (pt_order_node t) (pt_head t) (x # xs) (pt_tail t)"
    and tl: "pt_tail t = last (x # xs)" "x \<notin> set xs" "oi_next_print_node (node t (pt_tail t)) = 255"
    using assms qpath_hd [of "pt_order_node t" "pt_head t" "x # xs" "pt_tail t"]
    by (auto simp: is_queue_def split: if_splits)
  show ?thesis
  proof (cases xs)
    case Nil
    let ?t = "set_next x 0 (t\<lparr>pt_empty := 1, pt_head := 0, pt_tail := 0\<rparr>)"
    have "in_table (t\<lparr>pt_empty := 1, pt_head := 0, pt_tail := 0\<rparr>) x" using h by (simp add: in_table_def)
    note n = node_set_next [OF this]
    have "GetOrderFromQueue t = (ORDER_QUEUE_OK, Some x, ?t)"
      using Nil h tl by (simp add: GetOrderFromQueue_def)
    moreover have "is_queue ?t xs" using Nil by (simp add: is_queue_def)
    moreover have "urgent ?t y = urgent t y" for y by (simp add: urgent_def)
    ultimately show ?thesis using n by auto
  next
    case (Cons y ys)
    let ?u = "t\<lparr>pt_head := oi_next_print_node (node t x)\<rparr>"
    let ?t = "set_next x 0 ?u"
    have nx: "oi_next_print_node (node t x) = y" "qpath (pt_order_node t) y xs (pt_tail t)"
      using q Cons qpath_hd [of "pt_order_node t" "oi_next_print_node (node t x)" xs "pt_tail t"]
      by (auto simp: qpath_Cons)
    have it: "in_table ?u x" using h by (simp add: in_table_def)
    note n = node_set_next [OF it]
    have "pt_tail t \<noteq> x" using tl Cons last_in_set [of xs] by auto
    then have g: "GetOrderFromQueue t = (ORDER_QUEUE_OK, Some x, ?t)"
      using h by (simp add: GetOrderFromQueue_def Let_def)
    have "qpath (pt_order_node ?t) y xs (pt_tail t)"
      unfolding nodes_set_next using nx tl(2) by (simp add: qpath_upd)
    moreover have "oi_next_print_node (node ?t (pt_tail t)) = 255" "pt_tail ?u = pt_tail t"
      using \<open>pt_tail t \<noteq> x\<close> tl(3) node_set_next [OF it, where n = 0 and x = "pt_tail t"] by (simp_all del: set_next_fields)
    moreover have "\<forall>z \<in> set xs. in_table ?t z \<and> oi_data (node ?t z) \<noteq> 0" "distinct xs"
      using assms node_set_next_fields(1) [of x 0 ?u] by (auto simp: is_queue_def in_table_def)
    ultimately have "is_queue ?t xs" using Cons h nx by (simp add: is_queue_def)
    moreover have "urgent ?t z = urgent t z" for z by (simp add: urgent_def)
    ultimately show ?thesis using g n by auto
  qed
qed

section \<open>The interface of a two-class line\<close>

text \<open>Taking up to a number of entries, as long as there are any.\<close>

fun take_many :: "('t \<Rightarrow> ('e \<times> 't) option) \<Rightarrow> nat \<Rightarrow> 't \<Rightarrow> 'e list \<times> 't" where
  "take_many g 0 t = ([], t)"
| "take_many g (Suc n) t =
     (case g t of None \<Rightarrow> ([], t) | Some (e, t') \<Rightarrow> (case take_many g n t' of (es, t'') \<Rightarrow> (e # es, t'')))"

text \<open>
  What the users of the queue rely on: an entry goes behind the urgent ones when it is urgent and
  to the end otherwise, the first one leaves, and the class of an entry does not change.  Entering
  is defined for a ready entry, and for an urgent one only while a common entry waits.
\<close>

locale two_class_line =
  fixes rep :: "'t \<Rightarrow> 'e list \<Rightarrow> bool"
    and first_class :: "'t \<Rightarrow> 'e \<Rightarrow> bool"
    and ready :: "'t \<Rightarrow> 'e \<Rightarrow> 'e list \<Rightarrow> bool"
    and enter :: "'t \<Rightarrow> 'e \<Rightarrow> 't option"
    and leave :: "'t \<Rightarrow> ('e \<times> 't) option"
  assumes enter_law: "rep t xs \<Longrightarrow> ready t e xs \<Longrightarrow>
      (first_class t e \<longrightarrow> xs = [] \<or> (\<exists>x \<in> set xs. \<not> first_class t x)) \<Longrightarrow>
      \<exists>t'. enter t e = Some t' \<and> rep t' (prio_insert (first_class t) e xs)
        \<and> (\<forall>x. first_class t' x = first_class t x)
        \<and> (\<forall>x. x \<noteq> e \<longrightarrow> ready t x xs \<longrightarrow> ready t' x (prio_insert (first_class t) e xs))"
    and leave_law: "rep t (x # xs) \<Longrightarrow>
      \<exists>t'. leave t = Some (x, t') \<and> rep t' xs \<and> (\<forall>y. first_class t' y = first_class t y)"
    and leave_none: "rep t [] \<Longrightarrow> leave t = None"
begin

lemma enter_many:
  assumes "rep t (us @ cs)" "\<forall>x \<in> set us. first_class t x" "\<forall>x \<in> set cs. \<not> first_class t x" "cs \<noteq> []"
    "\<forall>e \<in> set es. ready t e (us @ cs)" "distinct es"
  shows "\<exists>t'. fold_opt enter t es = Some t'
    \<and> rep t' (us @ filter (first_class t) es @ cs @ filter (\<lambda>e. \<not> first_class t e) es)"
  using assms
proof (induction es arbitrary: t us cs)
  case (Cons e es)
  have "\<exists>x \<in> set (us @ cs). \<not> first_class t x" using Cons.prems(3,4) by (cases cs) auto
  then obtain t' where t': "enter t e = Some t'" "rep t' (prio_insert (first_class t) e (us @ cs))"
    "\<forall>x. first_class t' x = first_class t x"
    "\<forall>x. x \<noteq> e \<longrightarrow> ready t x (us @ cs) \<longrightarrow> ready t' x (prio_insert (first_class t) e (us @ cs))"
    using enter_law [OF Cons.prems(1), of e] Cons.prems(5) by auto
  have tw: "takeWhile (first_class t) (us @ cs) = us" "dropWhile (first_class t) (us @ cs) = cs"
    using Cons.prems(2,3,4) by (auto simp: takeWhile_append dropWhile_append takeWhile_eq_Nil_iff dropWhile_eq_self_iff neq_Nil_conv)
  have rdy: "\<forall>x \<in> set es. ready t' x (prio_insert (first_class t) e (us @ cs))"
    using t'(4) Cons.prems(5,6) by auto
  show ?case
  proof (cases "first_class t e")
    case True
    then show ?thesis
      using Cons.IH [of t' "us @ [e]" cs] Cons.prems t' tw rdy by (auto simp: prio_insert_def)
  next
    case False
    then show ?thesis
      using Cons.IH [of t' us "cs @ [e]"] Cons.prems t' rdy by (auto simp: prio_insert_def)
  qed
qed simp

lemma leave_many: "rep t xs \<Longrightarrow> \<exists>t'. take_many leave (length xs) t = (xs, t') \<and> rep t' []"
proof (induction xs arbitrary: t)
  case (Cons x xs)
  then obtain t' where "leave t = Some (x, t')" "rep t' xs" using leave_law by blast
  then show ?case using Cons.IH [of t'] by auto
qed simp

lemma enter_then_leave:
  assumes "rep t (us @ cs)" "\<forall>x \<in> set us. first_class t x" "\<forall>x \<in> set cs. \<not> first_class t x" "cs \<noteq> []"
    "\<forall>e \<in> set es. ready t e (us @ cs)" "distinct es"
    "served = us @ filter (first_class t) es @ cs @ filter (\<lambda>e. \<not> first_class t e) es"
  shows "\<exists>t' t''. fold_opt enter t es = Some t' \<and> take_many leave (length served) t' = (served, t'') \<and> rep t'' []"
proof -
  obtain t' where t': "fold_opt enter t es = Some t'" "rep t' served"
    using enter_many [OF assms(1-6)] assms(7) by auto
  then show ?thesis using leave_many [OF t'(2)] by blast
qed

end

definition take_order :: "order_print_queue_info \<Rightarrow> (u8 \<times> order_print_queue_info) option" where
  "take_order t = (case GetOrderFromQueue t of (_, None, _) \<Rightarrow> None | (_, Some e, t') \<Rightarrow> Some (e, t'))"

interpretation pq: two_class_line is_queue urgent fresh_node link_order take_order
proof unfold_locales
  fix t xs e
  assume a: "is_queue t xs" "fresh_node t e xs" "urgent t e \<longrightarrow> xs = [] \<or> (\<exists>x \<in> set xs. \<not> urgent t x)"
  then obtain t' where t': "link_order t e = Some t'" "is_queue t' (prio_insert (urgent t) e xs)"
    "\<forall>x. urgent t' x = urgent t x" "length (pt_order_node t') = length (pt_order_node t)"
    "\<forall>x. x \<noteq> e \<and> x \<notin> set xs \<longrightarrow> node t' x = node t x"
    using link_spec [of t xs e] by (auto simp: has_common_def)
  have "fresh_node t' x (prio_insert (urgent t) e xs)" if "x \<noteq> e" "fresh_node t x xs" for x
    using that t'(4,5) by (intro fresh_kept) (auto simp: fresh_node_def)
  then show "\<exists>t'. link_order t e = Some t' \<and> is_queue t' (prio_insert (urgent t) e xs)
      \<and> (\<forall>x. urgent t' x = urgent t x)
      \<and> (\<forall>x. x \<noteq> e \<longrightarrow> fresh_node t x xs \<longrightarrow> fresh_node t' x (prio_insert (urgent t) e xs))"
    using t' by auto
next
  fix t x xs
  assume "is_queue t (x # xs)"
  then show "\<exists>t'. take_order t = Some (x, t') \<and> is_queue t' xs \<and> (\<forall>y. urgent t' y = urgent t y)"
    using dequeue_spec [of t x xs] by (auto simp: take_order_def)
next
  fix t
  assume "is_queue t []"
  then show "take_order t = None" by (simp add: is_queue_def take_order_def GetOrderFromQueue_def)
qed

text \<open>C10. Linking an order into the print queue puts it at the end when it is common, and behind the
  waiting urgent orders when it is urgent and a common order waits or none waits at all, and changes no other
  order; an urgent order that finds only urgent ones makes the walk leave the table through the end mark 255.\<close>

theorem link_order_place:
  assumes "is_queue t xs" "fresh_node t e xs" "length (pt_order_node t) = ALL_BLOCK_NUM"
  shows "if urgent t e \<and> xs \<noteq> [] \<and> (\<forall>x \<in> set xs. urgent t x) then link_order t e = None
    else \<exists>t'. link_order t e = Some t' \<and> is_queue t' (prio_insert (urgent t) e xs)
      \<and> (\<forall>x. x \<noteq> e \<and> x \<notin> set xs \<longrightarrow> node t' x = node t x)"
proof (cases "urgent t e \<and> xs \<noteq> [] \<and> (\<forall>x \<in> set xs. urgent t x)")
  case True
  then show ?thesis using link_all_urgent [of t xs e] assms by simp
next
  case False
  then have "has_common t e xs" by (auto simp: has_common_def)
  then show ?thesis using link_spec [OF assms(1,2)] False by auto
qed

text \<open>A table whose nodes hold data, with the given urgent ones, and no queue.\<close>

definition sample_table :: "nat list \<Rightarrow> order_print_queue_info" where
  "sample_table us = Init_Order_Table\<lparr>pt_order_node := map (\<lambda>i. blank_order\<lparr>oi_data := 4,
     oi_priority := (if i \<in> set us then 1 else 0), oi_next_print_node := 255\<rparr>) [0 ..< ALL_BLOCK_NUM]\<rparr>"

lemma sample_queue: "is_queue (sample_table us) []"
  by (simp add: is_queue_def sample_table_def Init_Order_Table_def)

lemma sample_fresh: "unat e < ALL_BLOCK_NUM \<Longrightarrow> e \<notin> set xs \<Longrightarrow> fresh_node (sample_table us) e xs"
  by (simp add: fresh_node_def in_table_def sample_table_def del: upt_Suc)

lemma sample_urgent: "unat e < ALL_BLOCK_NUM \<Longrightarrow> urgent (sample_table us) e = (unat e \<in> set us)"
  by (simp add: urgent_def sample_table_def del: upt_Suc)

theorem link_order_place_witness:
  "\<exists>t'. link_order (sample_table [3]) 3 = Some t' \<and> is_queue t' [3]"
  using link_order_place [OF sample_queue sample_fresh, of 3 "[3]"]
  by (auto simp: sample_table_def)

text \<open>The results of a number of calls of \<^verbatim>\<open>GetOrderFromQueue\<close>, one after the other.\<close>

fun GetOrders :: "nat \<Rightarrow> order_print_queue_info \<Rightarrow> (int \<times> u8 option) list \<times> order_print_queue_info" where
  "GetOrders 0 t = ([], t)"
| "GetOrders (Suc n) t =
     (case GetOrderFromQueue t of (code, entry, t') \<Rightarrow>
      (case GetOrders n t' of (rs, t'') \<Rightarrow> ((code, entry) # rs, t'')))"

lemma take_order_code: "take_order t = Some (e, t') \<Longrightarrow> GetOrderFromQueue t = (ORDER_QUEUE_OK, Some e, t')"
  by (auto simp: take_order_def GetOrderFromQueue_def Let_def split: if_splits)

lemma GetOrders_take:
  "take_many take_order n t = (xs, t') \<Longrightarrow> length xs = n \<Longrightarrow> GetOrders n t = (map (\<lambda>e. (ORDER_QUEUE_OK, Some e)) xs, t')"
proof (induction n arbitrary: t xs)
  case (Suc n)
  then obtain e s ys where "take_order t = Some (e, s)" "take_many take_order n s = (ys, t')" "xs = e # ys"
    by (auto split: option.splits prod.splits)
  then show ?case using Suc.IH [of s ys] Suc.prems(2) take_order_code by auto
qed simp

text \<open>C11. While a common order waits, orders linked one after the other are handed out by
  \<^verbatim>\<open>GetOrderFromQueue\<close> in this order: the urgent ones that waited, the new urgent ones in the
  order of their arrival, the common ones that waited, the new common ones in the order of theirs; then the queue is
  reported empty.\<close>

theorem urgent_orders_first:
  assumes "is_queue t (us @ cs)" "\<forall>e \<in> set us. urgent t e" "\<forall>e \<in> set cs. \<not> urgent t e" "cs \<noteq> []"
    "\<forall>e \<in> set es. fresh_node t e (us @ cs)" "distinct es"
    "served = us @ filter (urgent t) es @ cs @ filter (\<lambda>e. \<not> urgent t e) es"
  shows "\<exists>t' t''. fold_opt link_order t es = Some t'
    \<and> GetOrders (length served) t' = (map (\<lambda>e. (ORDER_QUEUE_OK, Some e)) served, t'')
    \<and> GetOrderFromQueue t'' = (ORDER_QUEUE_EMPTY, None, t'')"
proof -
  obtain t' t'' where "fold_opt link_order t es = Some t'"
    "take_many take_order (length served) t' = (served, t'')" "is_queue t'' []"
    using pq.enter_then_leave [OF assms] by blast
  then show ?thesis using GetOrders_take by (auto simp: is_queue_def GetOrderFromQueue_def)
qed

theorem urgent_orders_first_witness:
  "\<exists>t t' t''. link_order (sample_table [1, 2]) 0 = Some t \<and> fold_opt link_order t [5, 2, 7, 1] = Some t'
    \<and> GetOrders 5 t' = (map (\<lambda>e. (ORDER_QUEUE_OK, Some e)) [2, 1, 0, 5, 7], t'')"
proof -
  let ?s = "sample_table [1, 2]"
  obtain t where t: "link_order ?s 0 = Some t" "is_queue t [0]" "\<forall>x. urgent t x = urgent ?s x"
    "length (pt_order_node t) = length (pt_order_node ?s)" "\<forall>x. x \<noteq> 0 \<and> x \<notin> set [] \<longrightarrow> node t x = node ?s x"
    using link_spec [OF sample_queue sample_fresh, of 0 "[1, 2]"] by (auto simp: has_common_def)
  have "fresh_node t e [0]" if "e \<in> set [5, 2, 7, 1]" for e
  proof -
    have "unat e < 11" "e \<noteq> 0" using that by auto
    then have "fresh_node t e (prio_insert (\<lambda>x. False) 0 [])"
      using t sample_fresh [of e "[0]"] by (intro fresh_kept) auto
    then show ?thesis by (simp add: prio_insert_def)
  qed
  moreover have "\<not> urgent t 0" using t(3) sample_urgent [of 0 "[1, 2]"] by simp
  moreover have "filter (urgent t) [5, 2, 7, 1] = [2, 1]" "filter (\<lambda>e. \<not> urgent t e) [5, 2, 7, 1] = [5, 7]"
    using t(3) by (simp_all add: sample_urgent)
  ultimately obtain t' t'' where "fold_opt link_order t [5, 2, 7, 1] = Some t'"
    "GetOrders (length [2, 1, 0, 5, 7 :: u8]) t' = (map (\<lambda>e. (ORDER_QUEUE_OK, Some e)) [2, 1, 0, 5, 7], t'')"
    using urgent_orders_first [of t "[]" "[0]" "[5, 2, 7, 1]" "[2, 1, 0, 5, 7]"] t(2) by auto
  moreover have "length [2, 1, 0, 5, 7 :: u8] = 5" by simp
  ultimately show ?thesis using t(1) by metis
qed

text \<open>\<^verbatim>\<open>GetOrderFromQueue\<close> returns the first order of the queue and leaves the rest
  in place; on the empty queue it reports \<^verbatim>\<open>ORDER_QUEUE_EMPTY\<close> and changes nothing.\<close>

lemma get_order_head:
  assumes "is_queue t xs"
  shows "case xs of [] \<Rightarrow> GetOrderFromQueue t = (ORDER_QUEUE_EMPTY, None, t)
    | x # ys \<Rightarrow> \<exists>t'. GetOrderFromQueue t = (ORDER_QUEUE_OK, Some x, t') \<and> is_queue t' ys
        \<and> (\<forall>y. y \<noteq> x \<longrightarrow> node t' y = node t y)"
proof (cases xs)
  case Nil
  then show ?thesis using assms by (simp add: is_queue_def GetOrderFromQueue_def)
next
  case (Cons x ys)
  then show ?thesis using dequeue_spec [of t x ys] assms by auto
qed

end
