(* ===== verification/Order_Store.thy ===== *)
theory Order_Store
  imports Order_Table
begin

text \<open>
  The resources behind the print queue: for every block class, the counting semaphore, the memory
  partition and the order nodes agree on how many blocks are free, and every order owns its own
  block.  Searching a node, adding an order and deleting it keep this invariant, so that the index
  search never fails and no block is shared.
\<close>

section \<open>The invariant\<close>

definition idxs :: "nat \<Rightarrow> nat list" where
  "idxs c = [class_start c ..< class_end c]"

definition free_nodes :: "order_print_queue_info \<Rightarrow> nat \<Rightarrow> nat list" where
  "free_nodes t c = filter (\<lambda>i. oi_data (pt_order_node t ! i) = 0) (idxs c)"

definition region :: "OS_MEM \<Rightarrow> u32 set" where
  "region pm = {a. unat (OSMemAddr pm) \<le> unat a
     \<and> unat a < unat (OSMemAddr pm) + unat (OSMemNBlks pm) * unat (OSMemBlkSize pm)}"

definition parts_ok :: "order_store \<Rightarrow> bool" where
  "parts_ok s \<longleftrightarrow> length (st_parts s) = 4 \<and> length (st_sems s) = 4
     \<and> (\<forall>c < 4. part_ok (st_mem s, st_parts s ! c)
          \<and> unat (OSMemNBlks (st_parts s ! c)) = class_end c - class_start c
          \<and> unat (OSMemBlkSize (st_parts s ! c)) = class_size c)
     \<and> (\<forall>c < 4. \<forall>d < 4. c \<noteq> d \<longrightarrow> region (st_parts s ! c) \<inter> region (st_parts s ! d) = {})"

definition owner_ok :: "order_store \<Rightarrow> bool" where
  "owner_ok s \<longleftrightarrow> length (pt_order_node (st_table s)) = ALL_BLOCK_NUM
     \<and> (\<forall>i < ALL_BLOCK_NUM. oi_data (pt_order_node (st_table s) ! i) \<noteq> 0 \<longrightarrow>
          oi_data (pt_order_node (st_table s) ! i) \<in> mem.lent (st_mem s, st_parts s ! class_of_index i))
     \<and> (\<forall>i < ALL_BLOCK_NUM. \<forall>j < ALL_BLOCK_NUM. i \<noteq> j \<longrightarrow> oi_data (pt_order_node (st_table s) ! i) \<noteq> 0 \<longrightarrow>
          oi_data (pt_order_node (st_table s) ! i) \<noteq> oi_data (pt_order_node (st_table s) ! j))"

text \<open>\<open>r\<close> is the class whose semaphore a running search has already taken.\<close>

definition counts_ok :: "order_store \<Rightarrow> nat option \<Rightarrow> bool" where
  "counts_ok s r \<longleftrightarrow> (\<forall>c < 4.
     unat (st_sems s ! c) + (if r = Some c then 1 else 0) = length (free_nodes (st_table s) c)
     \<and> unat (OSMemNFree (st_parts s ! c)) = length (free_nodes (st_table s) c))"

definition store_inv :: "order_store \<Rightarrow> nat option \<Rightarrow> bool" where
  "store_inv s r \<longleftrightarrow> parts_ok s \<and> owner_ok s \<and> counts_ok s r"

section \<open>Classes\<close>

lemma less_4: "c < 4 \<Longrightarrow> c = 0 \<or> c = 1 \<or> c = 2 \<or> c = (3 :: nat)"
  by auto

lemma idxs_class: "c < 4 \<Longrightarrow> i \<in> set (idxs c) \<longleftrightarrow> i < ALL_BLOCK_NUM \<and> class_of_index i = c"
  using less_4 [of c] by (auto simp: idxs_def class_start_def class_end_def class_of_index_def)

lemma class_of_index_less [simp]: "class_of_index i < 4"
  by (simp add: class_of_index_def)

lemma class_of_len_less [simp]: "class_of_len n < 4"
  by (simp add: class_of_len_def)

lemma class_of_len_fits: "n \<le> 10240 \<Longrightarrow> n \<le> class_size (class_of_len n)"
  by (simp add: class_of_len_def class_size_def)

lemma class_size_bounds: "c < 4 \<Longrightarrow> 1024 \<le> class_size c \<and> class_size c \<le> 10240"
  using less_4 [of c] by (auto simp: class_size_def)

section \<open>Memory outside a partition\<close>

lemma free_list_agree:
  assumes "\<forall>c \<in> set (free_list m p n). \<forall>k < 4. m' (c + of_nat k) = m (c + of_nat k)"
  shows "free_list m' p n = free_list m p n"
  using assms
proof (induction n arbitrary: p)
  case (Suc n)
  have "m' (p + of_nat k) = m (p + of_nat k)" if "k < 4" for k using Suc.prems that by simp
  from this [of 0] this [of 1] this [of 2] this [of 3] have "load32 m' p = load32 m p" by (simp add: load32_def)
  then show ?case using Suc by simp
qed simp

lemma block_region:
  assumes "geometry (OSMemAddr pm) (OSMemNBlks pm) (OSMemBlkSize pm)" "b \<in> set (blocks pm)"
    "i < unat (OSMemBlkSize pm)"
  shows "b + of_nat i \<in> region pm"
proof -
  let ?A = "unat (OSMemAddr pm)" and ?Z = "unat (OSMemBlkSize pm)" and ?N = "unat (OSMemNBlks pm)"
  obtain j where j: "b = OSMemAddr pm + of_nat j * OSMemBlkSize pm" "j < ?N" using assms(2) by (auto simp: set_blocks)
  have u: "unat b = ?A + j * ?Z" "?A + j * ?Z + ?Z < 4294967296" using block_addr [OF assms(1) j(2)] j(1) by auto
  then have v: "unat (b + of_nat i) = ?A + j * ?Z + i" using assms(3) by (subst unat_offset) auto
  have "j * ?Z + ?Z \<le> ?N * ?Z" using j(2) by (metis Suc_leI add.commute mult_Suc mult_le_mono1)
  then show ?thesis using v assms(3) by (simp add: region_def)
qed

lemma geometry_size: "geometry a n z \<Longrightarrow> 4 \<le> unat z"
  by (simp add: geometry_def word_le_nat_alt)

lemma agree_region:
  assumes "part_ok (m, pm)" "\<forall>a \<in> region pm. m' a = m a"
  shows "free_blocks (m', pm) = free_blocks (m, pm)" "part_ok (m', pm)"
proof -
  have g: "geometry (OSMemAddr pm) (OSMemNBlks pm) (OSMemBlkSize pm)" using assms(1) by (simp add: part_ok_def)
  have "m' (c + of_nat k) = m (c + of_nat k)" if "c \<in> set (free_blocks (m, pm))" "k < 4" for c k
  proof -
    have "c \<in> set (blocks pm)" using that(1) assms(1) by (auto simp: part_ok_def)
    then have "c + of_nat k \<in> region pm" using geometry_size [OF g] that(2) by (intro block_region [OF g]) auto
    then show ?thesis using assms(2) by blast
  qed
  then show f: "free_blocks (m', pm) = free_blocks (m, pm)"
    unfolding free_blocks_def fst_conv snd_conv by (intro free_list_agree) simp
  then show "part_ok (m', pm)" using assms(1) by (simp add: part_ok_def)
qed

lemma store_block_other:
  "(\<And>i. i < length bs \<Longrightarrow> a \<noteq> p + of_nat i) \<Longrightarrow> store_block m p bs a = m a"
proof (induction bs arbitrary: m p)
  case (Cons b bs)
  have "a \<noteq> (p + 1) + of_nat i" if "i < length bs" for i using Cons.prems [of "Suc i"] that by (simp add: algebra_simps)
  moreover have "a \<noteq> p" using Cons.prems [of 0] by simp
  ultimately show ?case using Cons.IH by simp
qed simp

lemma store_block_same:
  "i < length bs \<Longrightarrow> length bs \<le> 4294967296 \<Longrightarrow> store_block m p bs (p + of_nat i) = bs ! i"
proof (induction bs arbitrary: m p i)
  case (Cons b bs)
  show ?case
  proof (cases i)
    case 0
    have "p \<noteq> (p + 1) + of_nat j" if "j < length bs" for j
    proof
      assume "p = (p + 1) + of_nat j"
      then have "of_nat (Suc j) = (0 :: u32)" by (simp add: algebra_simps)
      then have "(4294967296 :: nat) dvd Suc j" using word_of_nat_eq_0_iff [where ?'a = 32, of "Suc j"] by simp
      then show False using that Cons.prems(2) by (auto dest: dvd_imp_le)
    qed
    then show ?thesis using 0 by (simp add: store_block_other)
  next
    case (Suc j)
    then show ?thesis
      using Cons.IH [of j "m(p := b)" "p + 1"] Cons.prems by (simp add: algebra_simps del: fun_upd_apply)
  qed
qed simp

lemma load_store_block:
  "length bs \<le> 4294967296 \<Longrightarrow> load_block (store_block m p bs) p (length bs) = bs"
  by (rule nth_equalityI) (simp_all add: load_block_def store_block_same)

lemma store_in_block:
  assumes "part_ok (m, pm)" "b \<in> set (blocks pm)" "b \<notin> set (free_blocks (m, pm))"
    "length bs \<le> unat (OSMemBlkSize pm)"
  shows "free_blocks (store_block m b bs, pm) = free_blocks (m, pm)" "part_ok (store_block m b bs, pm)"
    "\<And>a. a \<notin> region pm \<Longrightarrow> store_block m b bs a = m a"
proof -
  let ?A = "OSMemAddr pm" and ?Z = "OSMemBlkSize pm" and ?N = "OSMemNBlks pm"
  have g: "geometry ?A ?N ?Z" using assms(1) by (simp add: part_ok_def)
  obtain j where j: "b = ?A + of_nat j * ?Z" "j < unat ?N" using assms(2) by (auto simp: set_blocks)
  have "store_block m b bs (c + of_nat y) = m (c + of_nat y)" if c: "c \<in> set (free_blocks (m, pm))" and y: "y < 4" for c y
  proof (rule store_block_other)
    fix i assume i: "i < length bs"
    have "c \<in> set (blocks pm)" using c assms(1) by (auto simp: part_ok_def)
    then obtain k where k: "c = ?A + of_nat k * ?Z" "k < unat ?N" by (auto simp: set_blocks)
    have "j \<noteq> k" using c assms(3) j k by auto
    then have "b + of_nat i \<noteq> c + of_nat y"
      using block_bytes_apart [OF g j(2) k(2), of i y] i y assms(4) geometry_size [OF g] j k by simp
    then show "c + of_nat y \<noteq> b + of_nat i" by simp
  qed
  then show f: "free_blocks (store_block m b bs, pm) = free_blocks (m, pm)"
    unfolding free_blocks_def fst_conv snd_conv by (intro free_list_agree) simp
  then show "part_ok (store_block m b bs, pm)" using assms(1) by (simp add: part_ok_def)
  show "store_block m b bs a = m a" if "a \<notin> region pm" for a
  proof (rule store_block_other)
    fix i assume "i < length bs"
    then have "b + of_nat i \<in> region pm" using assms(4) by (intro block_region [OF g assms(2)]) simp
    then show "a \<noteq> b + of_nat i" using that by blast
  qed
qed

lemma store32_region:
  assumes "geometry (OSMemAddr pm) (OSMemNBlks pm) (OSMemBlkSize pm)" "b \<in> set (blocks pm)" "a \<notin> region pm"
  shows "store32 m b v a = m a"
proof -
  have "a \<noteq> b + of_nat i" if "i < 4" for i
    using that block_region [OF assms(1,2), of i] geometry_size [OF assms(1)] assms(3) by auto
  from this [of 0] this [of 1] this [of 2] this [of 3] show ?thesis by (intro store32_other) simp
qed

section \<open>Searching\<close>

lemma parts_okD:
  assumes "parts_ok s" "c < 4"
  shows "part_ok (st_mem s, st_parts s ! c)" "unat (OSMemBlkSize (st_parts s ! c)) = class_size c"
    "length (st_parts s) = 4" "length (st_sems s) = 4"
  using assms by (auto simp: parts_ok_def)

lemma find_filter: "List.find P xs = None \<longleftrightarrow> filter P xs = []"
  by (induction xs) auto

lemma find_block_spec:
  assumes "store_inv s None" "c < 4"
  shows "if free_nodes (st_table s) c = []
    then Find_Block_Num s c u = (if u then Some (Lack_Of c, s) else None)
    else \<exists>i s'. Find_Block_Num s c u = Some (int i, s') \<and> i \<in> set (free_nodes (st_table s) c)
      \<and> store_inv s' (Some c) \<and> st_table s' = st_table s \<and> st_mem s' = st_mem s \<and> st_parts s' = st_parts s"
proof -
  let ?P = "\<lambda>i. oi_data (pt_order_node (st_table s) ! i) = 0"
  have cnt: "unat (st_sems s ! c) = length (free_nodes (st_table s) c)"
    using assms by (simp add: store_inv_def counts_ok_def)
  show ?thesis
  proof (cases "free_nodes (st_table s) c = []")
    case True
    then have "st_sems s ! c = 0" using cnt by (simp add: unat_eq_0)
    then show ?thesis using True by (simp add: Find_Block_Num_def OSSemAccept_def)
  next
    case False
    then have pos: "0 < unat (st_sems s ! c)" using cnt by simp
    obtain i where i: "List.find ?P (idxs c) = Some i"
      using False by (cases "List.find ?P (idxs c)") (auto simp: find_filter free_nodes_def)
    let ?s = "s\<lparr>st_sems := (st_sems s)[c := st_sems s ! c - 1]\<rparr>"
    have "unat (st_sems s ! c - 1) + 1 = unat (st_sems s ! c)" using pos by (simp add: unat_minus_1 word_less_nat_alt)
    then have "store_inv ?s (Some c)"
      using assms by (auto simp: store_inv_def counts_ok_def parts_ok_def owner_ok_def nth_list_update)
    moreover have "Find_Block_Num s c u = Some (int i, ?s)"
      using pos i by (simp add: Find_Block_Num_def OSSemAccept_def idxs_def word_less_nat_alt unat_gt_0)
    moreover have "i \<in> set (free_nodes (st_table s) c)"
      using i by (auto simp: free_nodes_def find_Some_iff)
    ultimately show ?thesis using False by auto
  qed
qed

section \<open>Counting free nodes\<close>

lemma filter_one_more:
  assumes "distinct xs" "i \<in> set xs" "Q i" "\<not> P i" "\<And>j. j \<noteq> i \<Longrightarrow> Q j = P j"
  shows "length (filter Q xs) = Suc (length (filter P xs))"
  using assms(1,2)
proof (induction xs)
  case (Cons x xs)
  show ?case
  proof (cases "x = i")
    case True
    then have "y \<noteq> i" if "y \<in> set xs" for y using that Cons.prems by auto
    then have "filter Q xs = filter P xs" using assms(5) by (intro filter_cong) simp_all
    then show ?thesis using True assms(3,4) by simp
  next
    case False
    then show ?thesis using Cons assms(5) by auto
  qed
qed simp

definition set_data :: "nat \<Rightarrow> order_info \<Rightarrow> order_print_queue_info \<Rightarrow> order_print_queue_info" where
  "set_data i v t = t\<lparr>pt_order_node := (pt_order_node t)[i := v]\<rparr>"

lemma length_set_data [simp]: "length (pt_order_node (set_data i v t)) = length (pt_order_node t)"
  by (simp add: set_data_def)

lemma free_nodes_other:
  assumes "i \<notin> set (idxs c)"
  shows "free_nodes (set_data i v t) c = free_nodes t c"
proof -
  have "i \<noteq> x" if "x \<in> set (idxs c)" for x using that assms by auto
  then show ?thesis unfolding free_nodes_def set_data_def by (intro filter_cong) simp_all
qed

lemma free_nodes_released:
  assumes "i \<in> set (idxs c)" "oi_data (pt_order_node t ! i) \<noteq> 0" "oi_data v = 0" "i < length (pt_order_node t)"
  shows "length (free_nodes (set_data i v t) c) = Suc (length (free_nodes t c))"
  unfolding free_nodes_def set_data_def using assms
  by (intro filter_one_more [where i = i]) (auto simp: idxs_def)

lemma free_nodes_taken:
  assumes "i \<in> set (idxs c)" "oi_data (pt_order_node t ! i) = 0" "oi_data v \<noteq> 0" "i < length (pt_order_node t)"
  shows "Suc (length (free_nodes (set_data i v t) c)) = length (free_nodes t c)"
  unfolding free_nodes_def set_data_def using assms
  by (intro filter_one_more [where i = i, symmetric]) (auto simp: idxs_def)

lemma free_nodes_le: "c < 4 \<Longrightarrow> length (free_nodes t c) \<le> 4"
proof -
  assume "c < 4"
  then have "length (idxs c) \<le> 4" using less_4 [of c] by (auto simp: idxs_def class_start_def class_end_def)
  then show ?thesis unfolding free_nodes_def by (rule order.trans [OF length_filter_le])
qed

section \<open>Deleting\<close>

lemma lent_blocks: "b \<in> mem.lent (m, pm) \<longleftrightarrow> b \<in> set (blocks pm) \<and> b \<notin> set (free_blocks (m, pm))"
  by (simp add: mem.lent_def)

lemma agree_lent:
  assumes "part_ok (m, pm)" "\<forall>a \<in> region pm. m' a = m a"
  shows "mem.lent (m', pm) = mem.lent (m, pm)"
  using agree_region [OF assms] by (simp add: mem.lent_def)

text \<open>One partition changes, within its own region.\<close>

lemma parts_ok_change:
  assumes p: "parts_ok s" and c: "c < 4" and pm: "part_ok (m', pm)"
    "OSMemAddr pm = OSMemAddr (st_parts s ! c)" "OSMemNBlks pm = OSMemNBlks (st_parts s ! c)"
    "OSMemBlkSize pm = OSMemBlkSize (st_parts s ! c)"
    and m: "\<And>a. a \<notin> region (st_parts s ! c) \<Longrightarrow> m' a = st_mem s a"
    and s': "st_mem s' = m'" "st_parts s' = (st_parts s)[c := pm]" "length (st_sems s') = 4"
  shows "parts_ok s'"
    and "\<And>d. d < 4 \<Longrightarrow> d \<noteq> c \<Longrightarrow> mem.lent (m', st_parts s ! d) = mem.lent (st_mem s, st_parts s ! d)"
proof -
  have r: "region pm = region (st_parts s ! c)" using pm by (simp add: region_def)
  have ag: "\<forall>a \<in> region (st_parts s ! d). m' a = st_mem s a" if "d < 4" "d \<noteq> c" for d
    using that p c m unfolding parts_ok_def by blast
  have ok: "part_ok (m', st_parts s ! d)" if "d < 4" "d \<noteq> c" for d
    using agree_region(2) [OF parts_okD(1) [OF p that(1)] ag [OF that]] .
  have l: "length (st_parts s) = 4" using p by (simp add: parts_ok_def)
  have part: "part_ok (m', st_parts s' ! d)" "unat (OSMemNBlks (st_parts s' ! d)) = class_end d - class_start d"
    "unat (OSMemBlkSize (st_parts s' ! d)) = class_size d" "region (st_parts s' ! d) = region (st_parts s ! d)"
    if "d < 4" for d
    using that p c pm r l ok [OF that] unfolding s'(2) parts_ok_def by (cases "d = c"; simp)+
  show "parts_ok s'"
    unfolding parts_ok_def s'(1)
    using part l s'(2,3) p unfolding parts_ok_def by auto
  show "mem.lent (m', st_parts s ! d) = mem.lent (st_mem s, st_parts s ! d)" if "d < 4" "d \<noteq> c" for d
    using agree_lent [OF parts_okD(1) [OF p that(1)] ag [OF that]] .
qed

lemma owner_node:
  assumes "store_inv s r" "i < ALL_BLOCK_NUM" "oi_data (pt_order_node (st_table s) ! i) \<noteq> 0"
  shows "oi_data (pt_order_node (st_table s) ! i) \<in> mem.lent (st_mem s, st_parts s ! class_of_index i)"
  using assms by (simp add: store_inv_def owner_ok_def)

lemma delete_spec:
  assumes inv: "store_inv s r" and e: "unat e < ALL_BLOCK_NUM" "oi_data (node (st_table s) e) \<noteq> 0"
  shows "\<exists>s'. Delete_Order s e = (ORDER_QUEUE_OK, s') \<and> store_inv s' r
    \<and> st_table s' = set_data (unat e) ((node (st_table s) e)\<lparr>oi_data := 0\<rparr>) (st_table s)"
proof -
  let ?t = "st_table s" and ?i = "unat e" and ?c = "class_of_index (unat e)"
  let ?b = "oi_data (node ?t e)" and ?pm = "st_parts s ! class_of_index (unat e)"
  let ?v = "(node ?t e)\<lparr>oi_data := 0\<rparr>"
  have p: "parts_ok s" and o: "owner_ok s" and n: "counts_ok s r" using inv by (auto simp: store_inv_def)
  have c: "?c < 4" by simp
  note ok = parts_okD [OF p c]
  have lent: "?b \<in> mem.lent (st_mem s, ?pm)" using owner_node [OF inv e] .
  then have b: "?b \<in> set (blocks ?pm)" "?b \<notin> set (free_blocks (st_mem s, ?pm))" by (auto simp: lent_blocks)
  let ?m = "store32 (st_mem s) ?b (OSMemFreeList ?pm)"
  let ?q = "?pm\<lparr>OSMemFreeList := ?b, OSMemNFree := OSMemNFree ?pm + 1\<rparr>"
  have put: "put_block (st_mem s, ?pm) ?b = (?m, ?q)" using put_block_free(1) [OF ok(1)] b by simp
  have lt: "unat (OSMemNFree ?pm) < unat (OSMemNBlks ?pm)" using free_le_blocks [OF ok(1)] b by simp
  let ?s' = "s\<lparr>st_table := set_data ?i ?v ?t, st_mem := ?m, st_parts := (st_parts s)[?c := ?q],
     st_sems := (st_sems s)[?c := OSSemPost (st_sems s ! ?c)]\<rparr>"
  have del: "Delete_Order s e = (ORDER_QUEUE_OK, ?s')"
    using e lt by (simp add: Delete_Order_def Let_def OSMemPut_def set_data_def word_le_nat_alt)
  have g: "geometry (OSMemAddr ?pm) (OSMemNBlks ?pm) (OSMemBlkSize ?pm)" using ok(1) by (simp add: part_ok_def)
  have ret: "part_ok (?m, ?q)" "mem.lent (?m, ?q) = mem.lent (st_mem s, ?pm) - {?b}"
    using mem.put_returns [OF ok(1) lent] put by auto
  have p': "parts_ok ?s'" and lent': "\<And>d. d < 4 \<Longrightarrow> d \<noteq> ?c \<Longrightarrow> mem.lent (?m, st_parts s ! d) = mem.lent (st_mem s, st_parts s ! d)"
    using parts_ok_change [OF p c ret(1) _ _ _ store32_region [OF g b(1)], of ?s'] ok(4) by auto
  have l: "length (pt_order_node ?t) = 11" using o by (simp add: owner_ok_def)
  have data: "oi_data (pt_order_node (set_data ?i ?v ?t) ! j) = (if j = ?i then 0 else oi_data (pt_order_node ?t ! j))" for j
    using l e(1) by (simp add: set_data_def nth_list_update)
  have "oi_data (pt_order_node ?t ! j) \<in> mem.lent (?m, (st_parts s)[?c := ?q] ! class_of_index j)"
    if j: "j < 11" "j \<noteq> ?i" "oi_data (pt_order_node ?t ! j) \<noteq> 0" for j
  proof -
    have "oi_data (pt_order_node ?t ! j) \<noteq> ?b" using o j e by (auto simp: owner_ok_def)
    then show ?thesis using owner_node [OF inv j(1,3)] ret(2) lent' [of "class_of_index j"] ok(3)
      by (cases "class_of_index j = ?c") auto
  qed
  then have o': "owner_ok ?s'" using o l by (auto simp: owner_ok_def data)
  have i: "?i \<in> set (idxs d) \<longleftrightarrow> d = ?c" if "d < 4" for d using idxs_class [OF that, of ?i] e(1) by auto
  have fn: "length (free_nodes (set_data ?i ?v ?t) d) = (if d = ?c then Suc (length (free_nodes ?t d)) else length (free_nodes ?t d))"
    if "d < 4" for d
    using i [OF that] free_nodes_other [of ?i d ?v ?t] free_nodes_released [of ?i d ?t ?v] e(2) l e(1) by auto
  have "length (free_nodes ?t ?c) \<le> 11" using free_nodes_le [OF c, of ?t] by simp
  then have sem: "unat (OSSemPost (st_sems s ! ?c)) = Suc (unat (st_sems s ! ?c))"
  proof -
    have "unat (st_sems s ! ?c) \<le> 11"
      using n \<open>length (free_nodes ?t ?c) \<le> 11\<close> unfolding counts_ok_def by (metis add_leD1 class_of_index_less)
    then show ?thesis by (simp add: OSSemPost_def word_less_nat_alt unat_word_ariths)
  qed
  have nf: "unat (OSMemNFree ?q) = Suc (unat (OSMemNFree ?pm))"
    using lt unat_u32 [of "OSMemNBlks ?pm"] by (simp add: unat_word_ariths)
  have "counts_ok ?s' r"
    using n fn sem nf ok(3,4) unfolding counts_ok_def by (auto simp: nth_list_update)
  then show ?thesis using del p' o' by (auto simp: store_inv_def)
qed

section \<open>Adding\<close>

lemma is_queue_set_data:
  assumes "is_queue t xs" "e \<notin> set xs" "in_table t e"
  shows "is_queue (set_data (unat e) v t) xs"
proof -
  have same: "node (set_data (unat e) v t) x = node t x" if "x \<in> set xs" for x
  proof -
    have "unat x \<noteq> unat e" using that assms(2) by auto
    then show ?thesis by (simp add: set_data_def)
  qed
  show ?thesis
  proof (cases "xs = []")
    case True
    then show ?thesis using assms(1) by (simp add: is_queue_def set_data_def)
  next
    case False
    have q: "qpath (pt_order_node t) (pt_head t) xs (pt_tail t)" using assms(1) False by (simp add: is_queue_def)
    have "pt_tail t \<in> set xs" using qpath_hd [OF q] by (metis last_in_set)
    then have "oi_next_print_node (node (set_data (unat e) v t) (pt_tail t)) = 255"
      using same assms(1) False by (simp add: is_queue_def)
    moreover have "qpath (pt_order_node (set_data (unat e) v t)) (pt_head t) xs (pt_tail t)"
      using q assms(2) by (simp add: set_data_def qpath_upd)
    moreover have "\<forall>x \<in> set xs. in_table (set_data (unat e) v t) x \<and> oi_data (node (set_data (unat e) v t) x) \<noteq> 0"
      using assms(1) same by (auto simp: is_queue_def in_table_def)
    ultimately show ?thesis using assms(1) False by (simp add: is_queue_def) (simp add: set_data_def)
  qed
qed

text \<open>Linking changes neither data nor class counts.\<close>

lemma link_data:
  assumes "link_order t e = Some t'"
  shows "oi_data (pt_order_node t' ! i) = oi_data (pt_order_node t ! i)"
    "pt_buf_node t' = pt_buf_node t" "length (pt_order_node t') = length (pt_order_node t)"
    "oi_size (pt_order_node t' ! i) = oi_size (pt_order_node t ! i)"
proof -
  have s: "oi_data (pt_order_node (set_next k n u) ! i) = oi_data (pt_order_node u ! i)"
    "oi_size (pt_order_node (set_next k n u) ! i) = oi_size (pt_order_node u ! i)" for k n u
    by (cases "unat k < length (pt_order_node u)"; auto simp: set_next_def nth_list_update list_update_beyond)+
  show "oi_data (pt_order_node t' ! i) = oi_data (pt_order_node t ! i)"
    "pt_buf_node t' = pt_buf_node t" "length (pt_order_node t') = length (pt_order_node t)"
    "oi_size (pt_order_node t' ! i) = oi_size (pt_order_node t ! i)"
    using assms by (auto simp: link_order_def Change_Normal_Order_Seque_def Let_def s split: if_splits option.splits)
qed

lemma alloc_spec:
  assumes inv: "store_inv s (Some c)" and i: "i \<in> set (free_nodes (st_table s) c)" and c: "c < 4"
  obtains p pm where "OSMemGet (st_mem s) (st_parts s ! c) = (p, pm)" "p \<noteq> 0"
    "p \<notin> mem.lent (st_mem s, st_parts s ! c)" "part_ok (st_mem s, pm)"
    "mem.lent (st_mem s, pm) = insert p (mem.lent (st_mem s, st_parts s ! c))"
    "OSMemAddr pm = OSMemAddr (st_parts s ! c)" "OSMemNBlks pm = OSMemNBlks (st_parts s ! c)"
    "OSMemBlkSize pm = OSMemBlkSize (st_parts s ! c)"
    "Suc (unat (OSMemNFree pm)) = unat (OSMemNFree (st_parts s ! c))"
proof -
  let ?pm = "st_parts s ! c"
  have ok: "part_ok (st_mem s, ?pm)" using inv parts_okD [OF _ c] by (simp add: store_inv_def)
  have "unat (OSMemNFree ?pm) = length (free_nodes (st_table s) c)"
    using inv c by (simp add: store_inv_def counts_ok_def)
  then have pos: "0 < unat (OSMemNFree ?pm)" using i by (cases "free_nodes (st_table s) c") auto
  then have pos': "0 < OSMemNFree ?pm" by (simp add: word_less_nat_alt)
  have ne: "free_blocks (st_mem s, ?pm) \<noteq> []" using pos' by (intro free_nonempty) simp
  obtain p pm where g: "OSMemGet (st_mem s) ?pm = (p, pm)" by (cases "OSMemGet (st_mem s) ?pm")
  have gb: "get_block (st_mem s, ?pm) = (p, st_mem s, pm)" by (simp add: get_block_def g)
  have pm: "pm = ?pm\<lparr>OSMemFreeList := load32 (st_mem s) (OSMemFreeList ?pm), OSMemNFree := OSMemNFree ?pm - 1\<rparr>"
    using g pos' by (auto simp: OSMemGet_def)
  show thesis
    using that [OF g] mem.get_lends [OF ok ne] gb pm pos' pos by (simp add: unat_minus_1)
qed

text \<open>
  The state after an order has been added at a free node: the block that it got and the table with
  the parsed header, before linking.
\<close>

lemma add_inv:
  assumes inv: "store_inv s (Some c)" and i: "i \<in> set (free_nodes (st_table s) c)" and c: "c < 4"
    and get: "OSMemGet (st_mem s) (st_parts s ! c) = (p, pm)" "p \<noteq> 0"
      "p \<notin> mem.lent (st_mem s, st_parts s ! c)" "part_ok (st_mem s, pm)"
      "mem.lent (st_mem s, pm) = insert p (mem.lent (st_mem s, st_parts s ! c))"
      "OSMemAddr pm = OSMemAddr (st_parts s ! c)" "OSMemNBlks pm = OSMemNBlks (st_parts s ! c)"
      "OSMemBlkSize pm = OSMemBlkSize (st_parts s ! c)"
      "Suc (unat (OSMemNFree pm)) = unat (OSMemNFree (st_parts s ! c))"
    and v: "oi_data v = p" and blk: "length block = class_size c"
    and t': "length (pt_order_node t') = 11"
      "\<And>j. oi_data (pt_order_node t' ! j) = oi_data (pt_order_node (set_data i v (st_table s)) ! j)"
    and s': "s' = s\<lparr>st_table := t', st_mem := store_block (st_mem s) p block, st_parts := (st_parts s)[c := pm]\<rparr>"
  shows "store_inv s' None"
proof -
  let ?t = "st_table s" and ?m = "store_block (st_mem s) p block"
  have p: "parts_ok s" and o: "owner_ok s" and n: "counts_ok s (Some c)" using inv by (auto simp: store_inv_def)
  note ok = parts_okD [OF p c]
  have lp: "p \<in> mem.lent (st_mem s, pm)" using get(5) by simp
  then have b: "p \<in> set (blocks pm)" "p \<notin> set (free_blocks (st_mem s, pm))" by (auto simp: lent_blocks)
  have len: "length block \<le> unat (OSMemBlkSize pm)" using blk ok(2) get(8) by simp
  note st = store_in_block [OF get(4) b len]
  have reg: "region pm = region (st_parts s ! c)" using get by (simp add: region_def)
  have p': "parts_ok s'"
    using parts_ok_change(1) [OF p c st(2) get(6,7,8) _, of s'] st(3) reg s' ok(4) by simp
  have lent': "mem.lent (?m, st_parts s ! d) = mem.lent (st_mem s, st_parts s ! d)" if "d < 4" "d \<noteq> c" for d
    using parts_ok_change(2) [OF p c st(2) get(6,7,8) _, of s' d] st(3) reg s' ok(4) that by simp
  have lc: "mem.lent (?m, pm) = insert p (mem.lent (st_mem s, st_parts s ! c))"
    using st(1) get(5) by (simp add: mem.lent_def)
  have l: "length (pt_order_node ?t) = 11" using o by (simp add: owner_ok_def)
  have ci: "i < 11" "class_of_index i = c" "i \<in> set (idxs c)" "oi_data (pt_order_node ?t ! i) = 0"
    using i idxs_class [OF c, of i] by (auto simp: free_nodes_def)
  have data: "oi_data (pt_order_node t' ! j) = (if j = i then p else oi_data (pt_order_node ?t ! j))" for j
    using l ci(1) v t'(2) by (simp add: set_data_def nth_list_update)
  have fresh: "oi_data (pt_order_node ?t ! j) \<noteq> p" if j: "j < 11" "oi_data (pt_order_node ?t ! j) \<noteq> 0" for j
  proof
    assume eq: "oi_data (pt_order_node ?t ! j) = p"
    have w: "p \<in> mem.lent (st_mem s, st_parts s ! class_of_index j)" using owner_node [OF inv j] eq by simp
    show False
    proof (cases "class_of_index j = c")
      case True
      then show False using w get(3) by simp
    next
      case False
      let ?q = "st_parts s ! class_of_index j"
      have g1: "geometry (OSMemAddr ?q) (OSMemNBlks ?q) (OSMemBlkSize ?q)"
        and g2: "geometry (OSMemAddr pm) (OSMemNBlks pm) (OSMemBlkSize pm)"
        using parts_okD(1) [OF p class_of_index_less] get(4) by (auto simp: part_ok_def)
      have "p + of_nat 0 \<in> region ?q" using w geometry_size [OF g1] by (intro block_region [OF g1]) (auto simp: lent_blocks)
      moreover have "p + of_nat 0 \<in> region pm" using b geometry_size [OF g2] by (intro block_region [OF g2]) auto
      moreover have "region ?q \<inter> region (st_parts s ! c) = {}"
        using p False c class_of_index_less unfolding parts_ok_def by blast
      ultimately show False using reg by auto
    qed
  qed
  have l4: "length (st_parts s) = 4" using ok(3) .
  have "oi_data (pt_order_node t' ! j) \<in> mem.lent (?m, (st_parts s)[c := pm] ! class_of_index j)"
    if j: "j < 11" "oi_data (pt_order_node t' ! j) \<noteq> 0" for j
  proof (cases "j = i")
    case True
    then show ?thesis using data ci lc c l4 by simp
  next
    case False
    then have "oi_data (pt_order_node ?t ! j) \<in> mem.lent (st_mem s, st_parts s ! class_of_index j)"
      using owner_node [OF inv j(1)] data j(2) by simp
    then show ?thesis using False data lc lent' [of "class_of_index j"] c l4
      by (cases "class_of_index j = c") auto
  qed
  then have o': "owner_ok s'"
    using o t'(1) fresh get(2) unfolding owner_ok_def s' by (auto simp: data)
  have id: "i \<in> set (idxs d) \<longleftrightarrow> d = c" if "d < 4" for d using idxs_class [OF that, of i] ci by auto
  have same: "free_nodes t' d = free_nodes (set_data i v ?t) d" for d
    by (simp add: free_nodes_def t'(2))
  have fn: "length (free_nodes ?t d) = (if d = c then Suc (length (free_nodes t' d)) else length (free_nodes t' d))"
    if "d < 4" for d
    using id [OF that] free_nodes_other [of i d v ?t] free_nodes_taken [of i d ?t v] ci l v get(2)
    by (auto simp: same)
  have "unat (st_sems s ! d) = length (free_nodes t' d) \<and> unat (OSMemNFree ((st_parts s)[c := pm] ! d)) = length (free_nodes t' d)"
    if "d < 4" for d
    using n [unfolded counts_ok_def, rule_format, OF that] fn [OF that] get(9) l4 that
    by (cases "d = c") auto
  then have "counts_ok s' None" by (simp add: counts_ok_def s')
  then show ?thesis using p' o' by (simp add: store_inv_def)
qed

lemma header_front:
  assumes "ring buf" "contents buf = h @ rest" "length h = 24" "unat (sq_read buf) + 24 \<le> unat (sq_MAX buf)"
  shows "24 \<le> length (drop (unat (sq_read buf)) (sq_base buf))"
    and "i < 24 \<Longrightarrow> drop (unat (sq_read buf)) (sq_base buf) ! i = h ! i"
proof -
  note b = ring_bounds [OF assms(1)]
  show "24 \<le> length (drop (unat (sq_read buf)) (sq_base buf))" using assms(4) b(5) by simp
  assume i: "i < 24"
  then have "i < used buf" using arg_cong [OF assms(2), of length] assms(3) by simp
  then have "contents buf ! i = peek buf i" using rb.at_law [OF assms(1), of i] by simp
  also have "\<dots> = sq_base buf ! (unat (sq_read buf) + i)"
    using i assms(4) by (subst peek_nat [OF assms(1)]) auto
  finally show "drop (unat (sq_read buf)) (sq_base buf) ! i = h ! i"
    using i assms(2,3,4) b(5) by (simp add: nth_append)
qed

lemma fresh_after_parse:
  assumes "in_table t i" "i \<notin> set xs" "p \<noteq> 0"
  shows "fresh_node (set_data (unat i) (parse_order_head h prio (n\<lparr>oi_data := p\<rparr>)) t) i xs"
  using assms by (simp add: fresh_node_def in_table_def set_data_def parse_order_head_def)

lemma urgent_set_data:
  assumes "in_table t i"
  shows "urgent (set_data (unat i) v t) x = (if x = i then oi_priority v = ORDER_PRIO_HIGH else urgent t x)"
  using assms by (auto simp: urgent_def set_data_def in_table_def nth_list_update)

lemma add_order:
  assumes inv: "store_inv s (Some (class_of_index (unat i)))" and q: "is_queue (st_table s) xs"
    and i: "unat i \<in> set (free_nodes (st_table s) (class_of_index (unat i)))"
    and buf: "ring buf" "contents buf = hd' @ body @ tl' @ rest" "length hd' = 24" "length tl' = 4"
      "unat (be16 (hd' ! 2) (hd' ! 3)) = length body" "unat (sq_read buf) + 24 \<le> unat (sq_MAX buf)"
    and fits: "2 * length body < class_size (class_of_index (unat i))"
    and common: "prio = ORDER_PRIO_HIGH \<Longrightarrow> xs = [] \<or> (\<exists>x \<in> set xs. \<not> urgent (st_table s) x)"
  shows "\<exists>s' buf'. Add_Order_To_Print_Queue s buf i prio = Some (s', buf') \<and> store_inv s' None
    \<and> is_queue (st_table s') (prio_insert (\<lambda>x. if x = i then prio = ORDER_PRIO_HIGH else urgent (st_table s) x) i xs)
    \<and> ring buf' \<and> contents buf' = rest
    \<and> unat (oi_size (node (st_table s') i)) = length body
    \<and> load_block (st_mem s') (oi_data (node (st_table s') i)) (length body) = body"
proof -
  let ?t = "st_table s" and ?c = "class_of_index (unat i)"
  let ?h = "drop (unat (sq_read buf)) (sq_base buf)"
  have c: "?c < 4" by simp
  have p: "parts_ok s" and o: "owner_ok s" using inv by (auto simp: store_inv_def)
  have i11: "unat i < 11" and l: "length (pt_order_node ?t) = 11" and d0: "oi_data (node ?t i) = 0"
    using i idxs_class [OF c, of "unat i"] o by (auto simp: free_nodes_def owner_ok_def)
  have it: "in_table ?t i" using i11 l by (simp add: in_table_def)
  have ix: "i \<notin> set xs" using q d0 by (auto simp: is_queue_def)
  obtain b pm where get: "OSMemGet (st_mem s) (st_parts s ! ?c) = (b, pm)" "b \<noteq> 0"
    "b \<notin> mem.lent (st_mem s, st_parts s ! ?c)" "part_ok (st_mem s, pm)"
    "mem.lent (st_mem s, pm) = insert b (mem.lent (st_mem s, st_parts s ! ?c))"
    "OSMemAddr pm = OSMemAddr (st_parts s ! ?c)" "OSMemNBlks pm = OSMemNBlks (st_parts s ! ?c)"
    "OSMemBlkSize pm = OSMemBlkSize (st_parts s ! ?c)"
    "Suc (unat (OSMemNFree pm)) = unat (OSMemNFree (st_parts s ! ?c))"
    by (rule alloc_spec [OF inv i c])
  let ?v = "parse_order_head ?h prio ((node ?t i)\<lparr>oi_data := b\<rparr>)"
  let ?t1 = "set_data (unat i) ?v ?t"
  have q1: "is_queue ?t1 xs" by (rule is_queue_set_data [OF q ix it])
  have f1: "fresh_node ?t1 i xs" by (rule fresh_after_parse [OF it ix get(2)])
  have u1: "urgent ?t1 x = (if x = i then prio = ORDER_PRIO_HIGH else urgent ?t x)" for x
    using urgent_set_data [OF it, of ?v x] by (simp add: parse_order_head_def)
  have "has_common ?t1 i xs" unfolding has_common_def u1 using common ix by auto
  then obtain t2 where t2: "link_order ?t1 i = Some t2" "is_queue t2 (prio_insert (urgent ?t1) i xs)"
    using link_spec [OF q1 f1] by blast
  note ld = link_data [OF t2(1)]
  let ?e = "load_block (st_mem s) b (class_size ?c)"
  let ?cap = "bn_common_buf_remain_capacity (pt_buf_node t2)"
  let ?blk = "(body @ drop (length body) ?e)[2 * length body := 0]"
  have le: "length ?e = class_size ?c" by (simp add: load_block_def)
  obtain buf' where rd: "Read_Order_Queue buf ?cap ?e = Some (buf', ?cap + of_nat (length body) + 24 + 4, ?blk)"
    "ring buf'" "contents buf' = rest"
    using read_one_order [OF buf(1-5), of ?e ?cap] fits le by auto
  have hl: "24 \<le> length ?h" and hn: "\<And>k. k < 24 \<Longrightarrow> ?h ! k = hd' ! k"
    using header_front [OF buf(1) buf(2) buf(3) buf(6)] by auto
  define t3 where "t3 = t2\<lparr>pt_buf_node := (pt_buf_node t2)\<lparr>bn_common_buf_remain_capacity := ?cap + of_nat (length body) + 24 + 4\<rparr>\<rparr>"
  define s' where "s' = s\<lparr>st_table := t3, st_mem := store_block (st_mem s) b ?blk, st_parts := (st_parts s)[?c := pm]\<rparr>"
  have add: "Add_Order_To_Print_Queue s buf i prio = Some (s', buf')"
    using get(1,2) hl t2(1) rd(1)
    by (simp add: Add_Order_To_Print_Queue_def Let_def set_data_def t3_def s'_def)
  have blk: "length ?blk = class_size ?c" using le fits by simp
  have inv': "store_inv s' None"
  proof (rule add_inv [OF inv i c get _ blk _ _ s'_def])
    show "oi_data ?v = b" by (simp add: parse_order_head_def)
    show "length (pt_order_node t3) = 11" using ld(3) l by (simp add: t3_def)
    show "oi_data (pt_order_node t3 ! j) = oi_data (pt_order_node (set_data (unat i) ?v (st_table s)) ! j)" for j
      using ld(1) by (simp add: t3_def)
  qed
  have "urgent ?t1 = (\<lambda>x. if x = i then prio = ORDER_PRIO_HIGH else urgent ?t x)" using u1 by auto
  then have q': "is_queue (st_table s') (prio_insert (\<lambda>x. if x = i then prio = ORDER_PRIO_HIGH else urgent ?t x) i xs)"
    using t2(2) by (simp add: s'_def t3_def is_queue_def in_table_def)
  have dat: "oi_data (node (st_table s') i) = b" "oi_size (node (st_table s') i) = be16 (?h ! 2) (?h ! 3)"
    using ld(1,4) it by (simp_all add: s'_def t3_def set_data_def in_table_def parse_order_head_def)
  have "length ?blk \<le> 4294967296" using class_size_bounds [OF c] unfolding blk by simp
  moreover have ms: "st_mem s' = store_block (st_mem s) b ?blk" by (simp add: s'_def)
  ultimately have "load_block (st_mem s') b (length ?blk) = ?blk" unfolding ms by (intro load_store_block)
  then have "take (length body) (load_block (st_mem s') b (length ?blk)) = take (length body) ?blk" by simp
  moreover have "take (length body) (load_block (st_mem s') b (length ?blk)) = load_block (st_mem s') b (length body)"
    using blk fits by (simp add: load_block_def take_map)
  moreover have "take (length body) ?blk = body"
    by (cases "length body = 0") (simp_all add: take_update_cancel)
  ultimately show ?thesis using add inv' q' rd dat hn [of 2] hn [of 3] buf(5) by auto
qed

text \<open>An order whose body is half as long as its block class or longer is written outside its block.\<close>

lemma add_overrun:
  assumes inv: "store_inv s (Some (class_of_index (unat i)))"
    and i: "unat i \<in> set (free_nodes (st_table s) (class_of_index (unat i)))"
    and buf: "ring buf" "contents buf = hd' @ body @ tl' @ rest" "length hd' = 24" "length tl' = 4"
      "unat (be16 (hd' ! 2) (hd' ! 3)) = length body"
    and long: "class_size (class_of_index (unat i)) \<le> 2 * length body"
  shows "Add_Order_To_Print_Queue s buf i prio = None"
proof -
  have "Read_Order_Queue buf cap (load_block m b (class_size (class_of_index (unat i)))) = None" for cap m b
    using read_one_order [OF buf, of "load_block m b (class_size (class_of_index (unat i)))" cap] long
    by (simp add: load_block_def)
  then show ?thesis
    by (auto simp: Add_Order_To_Print_Queue_def Let_def split: prod.split option.split)
qed

section \<open>Start-up\<close>

text \<open>The partitions and semaphores as \<^verbatim>\<open>main.c\<close> creates them, at the addresses of the four arrays.\<close>

definition Init_Store :: "memory \<Rightarrow> u32 \<Rightarrow> u32 \<Rightarrow> u32 \<Rightarrow> u32 \<Rightarrow> order_store" where
  "Init_Store m block_1K block_2K block_4K block_10K =
     (let (m, queue_1K) = OSMemCreate m block_1K 4 1024;
          (m, queue_2K) = OSMemCreate m block_2K 3 2048;
          (m, queue_4K) = OSMemCreate m block_4K 3 4096;
          (m, queue_10K) = OSMemCreate m block_10K 1 10240
      in \<lparr>st_table = Init_Order_Table, st_mem = m, st_parts = [queue_1K, queue_2K, queue_4K, queue_10K],
          st_sems = [4, 3, 3, 1]\<rparr>)"

lemma link_blocks_other:
  "(\<And>k j. k \<le> n \<Longrightarrow> j < 4 \<Longrightarrow> a \<noteq> p + of_nat k * z + of_nat j) \<Longrightarrow> link_blocks m p n z a = m a"
proof (induction n arbitrary: m p)
  case 0
  from 0 [of 0 0] 0 [of 0 1] 0 [of 0 2] 0 [of 0 3] show ?case by (simp add: store32_other)
next
  case (Suc n)
  have "a \<noteq> (p + z) + of_nat k * z + of_nat j" if "k \<le> n" "j < 4" for k j
    using Suc.prems [of "Suc k" j] that by (simp add: algebra_simps)
  then have "link_blocks (store32 m p (p + z)) (p + z) n z a = store32 m p (p + z) a" by (rule Suc.IH)
  also have "\<dots> = m a"
    using Suc.prems [of 0 0] Suc.prems [of 0 1] Suc.prems [of 0 2] Suc.prems [of 0 3] by (simp add: store32_other)
  finally show ?case by simp
qed

lemma create_outside:
  assumes g: "geometry addr nblks blksize" and a: "a \<notin> region (snd (OSMemCreate m addr nblks blksize))"
  shows "fst (OSMemCreate m addr nblks blksize) a = m a"
proof -
  let ?pm = "snd (OSMemCreate m addr nblks blksize)"
  have g': "geometry (OSMemAddr ?pm) (OSMemNBlks ?pm) (OSMemBlkSize ?pm)" using g by (simp add: OSMemCreate_def)
  have n: "unat nblks = Suc (unat (nblks - 1))"
    using g unat_minus_1 [of nblks] by (simp add: geometry_def word_less_nat_alt)
  have "a \<noteq> addr + of_nat k * blksize + of_nat j" if "k \<le> unat (nblks - 1)" "j < 4" for k j
  proof -
    have b: "addr + of_nat k * blksize \<in> set (blocks ?pm)" using that(1) n by (auto simp: set_blocks OSMemCreate_def)
    have "j < unat (OSMemBlkSize ?pm)" using geometry_size [OF g'] that(2) by simp
    then have "addr + of_nat k * blksize + of_nat j \<in> region ?pm" by (rule block_region [OF g' b])
    then show ?thesis using a by blast
  qed
  then show ?thesis by (simp add: OSMemCreate_def link_blocks_other)
qed

definition apart_regions :: "OS_MEM list \<Rightarrow> bool" where
  "apart_regions ps \<longleftrightarrow> (\<forall>c < length ps. \<forall>d < length ps. c \<noteq> d \<longrightarrow> region (ps ! c) \<inter> region (ps ! d) = {})"

definition arrays_ok :: "u32 \<Rightarrow> u32 \<Rightarrow> u32 \<Rightarrow> u32 \<Rightarrow> bool" where
  "arrays_ok a b c d \<longleftrightarrow> a \<noteq> 0 \<and> unat a + 4096 \<le> unat b \<and> unat b + 6144 \<le> unat c
     \<and> unat c + 12288 \<le> unat d \<and> unat d + 10240 < 4294967296"

lemma init_free_nodes: "c < 4 \<Longrightarrow> free_nodes Init_Order_Table c = idxs c"
proof -
  assume "c < 4"
  then have "i < 11" if "i \<in> set (idxs c)" for i using that idxs_class by simp
  then show ?thesis by (auto simp: free_nodes_def Init_Order_Table_def blank_order_def filter_id_conv simp del: replicate.simps)
qed

lemma init_store_inv:
  assumes "arrays_ok a b c d"
  shows "store_inv (Init_Store m a b c d) None \<and> is_queue (st_table (Init_Store m a b c d)) []"
proof -
  let ?A = "OSMemCreate m a 4 1024"
  let ?B = "OSMemCreate (fst ?A) b 3 2048"
  let ?C = "OSMemCreate (fst ?B) c 3 4096"
  let ?D = "OSMemCreate (fst ?C) d 1 10240"
  have s: "Init_Store m a b c d = \<lparr>st_table = Init_Order_Table, st_mem = fst ?D,
      st_parts = [snd ?A, snd ?B, snd ?C, snd ?D], st_sems = [4, 3, 3, 1]\<rparr>"
    by (simp add: Init_Store_def split_def Let_def)
  have g: "geometry a 4 1024" "geometry b 3 2048" "geometry c 3 4096" "geometry d 1 10240"
    using assms by (auto simp: arrays_ok_def geometry_def)
  have reg: "region (snd ?A) = {x. unat a \<le> unat x \<and> unat x < unat a + 4096}"
    "region (snd ?B) = {x. unat b \<le> unat x \<and> unat x < unat b + 6144}"
    "region (snd ?C) = {x. unat c \<le> unat x \<and> unat x < unat c + 12288}"
    "region (snd ?D) = {x. unat d \<le> unat x \<and> unat x < unat d + 10240}"
    by (simp_all add: region_def OSMemCreate_def)
  have dis: "region (snd ?A) \<inter> region (snd ?B) = {}" "region (snd ?A) \<inter> region (snd ?C) = {}"
    "region (snd ?A) \<inter> region (snd ?D) = {}" "region (snd ?B) \<inter> region (snd ?C) = {}"
    "region (snd ?B) \<inter> region (snd ?D) = {}" "region (snd ?C) \<inter> region (snd ?D) = {}"
    using assms unfolding reg arrays_ok_def by auto
  have ag: "\<forall>x \<in> region (snd ?A). fst ?D x = fst ?A x" "\<forall>x \<in> region (snd ?B). fst ?D x = fst ?B x"
    "\<forall>x \<in> region (snd ?C). fst ?D x = fst ?C x"
    using create_outside [OF g(2)] create_outside [OF g(3)] create_outside [OF g(4)] dis
    by (metis disjoint_iff)+
  have ok: "part_ok (fst ?D, snd ?A)" "part_ok (fst ?D, snd ?B)" "part_ok (fst ?D, snd ?C)" "part_ok (fst ?D, snd ?D)"
    using create_ok(1) [OF g(1), of m] create_ok(1) [OF g(2), of "fst ?A"] create_ok(1) [OF g(3), of "fst ?B"]
      create_ok(1) [OF g(4), of "fst ?C"]
      agree_region(2) [OF _ ag(1)] agree_region(2) [OF _ ag(2)] agree_region(2) [OF _ ag(3)] by auto
  have f: "OSMemNBlks (snd ?A) = 4" "OSMemNBlks (snd ?B) = 3" "OSMemNBlks (snd ?C) = 3" "OSMemNBlks (snd ?D) = 1"
    "OSMemBlkSize (snd ?A) = 1024" "OSMemBlkSize (snd ?B) = 2048" "OSMemBlkSize (snd ?C) = 4096" "OSMemBlkSize (snd ?D) = 10240"
    "OSMemNFree (snd ?A) = 4" "OSMemNFree (snd ?B) = 3" "OSMemNFree (snd ?C) = 3" "OSMemNFree (snd ?D) = 1"
    by (simp_all add: OSMemCreate_def)
  have four: "(\<forall>k < 4. P k) \<longleftrightarrow> P 0 \<and> P 1 \<and> P 2 \<and> P (3 :: nat)" for P
    using less_4 by auto
  have "parts_ok (Init_Store m a b c d)"
    unfolding parts_ok_def four s using ok dis f
    by (simp add: class_end_def class_start_def class_size_def Int_commute)
  moreover have "owner_ok (Init_Store m a b c d)"
    unfolding owner_ok_def s by (simp add: Init_Order_Table_def blank_order_def del: replicate.simps)
  moreover have "counts_ok (Init_Store m a b c d) None"
    unfolding counts_ok_def s four using f
    by (simp add: init_free_nodes idxs_def class_end_def class_start_def)
  moreover have "is_queue Init_Order_Table []" by (simp add: is_queue_def Init_Order_Table_def)
  ultimately show ?thesis by (simp add: store_inv_def s)
qed

section \<open>Properties\<close>

text \<open>C12. With the invariant, the index search behind \<^verbatim>\<open>Find_Entry\<close> never fails
  (\<^verbatim>\<open>ORDER_FIND_INDEX_ERR\<close> is unreachable): an order of at most 10K gets the index of a free
  node of the smallest class that holds it, an urgent order without one gets the lack code of that
  class, a common one has to wait, and a longer order is refused.\<close>

theorem find_entry_spec:
  assumes "store_inv s None"
  shows "if 10240 < unat len then Find_Entry s len u = Some (ORDER_TOO_LARGER, s)
    else let c = class_of_len (unat len) in unat len \<le> class_size c \<and>
      (if free_nodes (st_table s) c = [] then Find_Entry s len u = (if u then Some (Lack_Of c, s) else None)
       else \<exists>i s'. Find_Entry s len u = Some (int i, s') \<and> i \<in> set (free_nodes (st_table s) c)
         \<and> store_inv s' (Some c) \<and> st_table s' = st_table s)"
  using find_block_spec [OF assms, of "class_of_len (unat len)" u] class_of_len_fits [of "unat len"]
  by (auto simp: Find_Entry_def Let_def split: if_splits)

text \<open>C13. Adding an order whose whole frame is at the front of the buffer, at the free index
  that the search returned: if its body is shorter than half of the block class, the order goes to its place in the
  print queue, its body into a block that no other order owns and its frame out of the buffer, and the invariant of
  semaphores, partitions and nodes is kept; a longer body is written outside the block.  An urgent order needs a
  queue that is empty or holds a common order.\<close>

theorem add_order_ok:
  assumes "store_inv s (Some (class_of_index (unat i)))" "is_queue (st_table s) xs"
    "unat i \<in> set (free_nodes (st_table s) (class_of_index (unat i)))"
    "ring buf" "contents buf = hd' @ body @ tl' @ rest" "length hd' = 24" "length tl' = 4"
    "unat (be16 (hd' ! 2) (hd' ! 3)) = length body" "unat (sq_read buf) + 24 \<le> unat (sq_MAX buf)"
    "prio = ORDER_PRIO_HIGH \<Longrightarrow> xs = [] \<or> (\<exists>x \<in> set xs. \<not> urgent (st_table s) x)"
  shows "if 2 * length body < class_size (class_of_index (unat i))
    then \<exists>s' buf'. Add_Order_To_Print_Queue s buf i prio = Some (s', buf') \<and> store_inv s' None
      \<and> is_queue (st_table s') (prio_insert (\<lambda>x. if x = i then prio = ORDER_PRIO_HIGH else urgent (st_table s) x) i xs)
      \<and> ring buf' \<and> contents buf' = rest
      \<and> unat (oi_size (node (st_table s') i)) = length body
      \<and> load_block (st_mem s') (oi_data (node (st_table s') i)) (length body) = body
    else Add_Order_To_Print_Queue s buf i prio = None"
proof (cases "2 * length body < class_size (class_of_index (unat i))")
  case True
  then show ?thesis using add_order [OF assms(1-9) True assms(10)] by simp
next
  case False
  then show ?thesis using add_overrun [OF assms(1,3-8), of prio] by simp
qed

text \<open>C14. Deleting an order returns its block to the partition and to the semaphore of its class
  and keeps the invariant; deleting a node without a block reports \<^verbatim>\<open>ORDER_EMPTY_BLOCK\<close> and
  releases nothing, so that a second deletion is harmless.\<close>

theorem delete_order_ok:
  assumes "store_inv s r" "unat e < ALL_BLOCK_NUM"
  shows "if oi_data (node (st_table s) e) = 0 then fst (Delete_Order s e) = ORDER_EMPTY_BLOCK \<and> store_inv (snd (Delete_Order s e)) r
    else fst (Delete_Order s e) = ORDER_QUEUE_OK \<and> store_inv (snd (Delete_Order s e)) r
      \<and> fst (Delete_Order (snd (Delete_Order s e)) e) = ORDER_EMPTY_BLOCK"
proof (cases "oi_data (node (st_table s) e) = 0")
  case True
  then have "(node (st_table s) e)\<lparr>oi_data := 0\<rparr> = node (st_table s) e" by simp
  then have "(pt_order_node (st_table s))[unat e := (node (st_table s) e)\<lparr>oi_data := 0\<rparr>] = pt_order_node (st_table s)"
    by (simp only: list_update_id)
  then show ?thesis using True assms(1) by (simp add: Delete_Order_def Let_def)
next
  case False
  obtain s' where s': "Delete_Order s e = (ORDER_QUEUE_OK, s')" "store_inv s' r"
    "st_table s' = set_data (unat e) ((node (st_table s) e)\<lparr>oi_data := 0\<rparr>) (st_table s)"
    using delete_spec [OF assms False] by blast
  have "length (pt_order_node (st_table s)) = 11" using assms(1) by (simp add: store_inv_def owner_ok_def)
  then have "oi_data (node (st_table s') e) = 0" using s'(3) assms(2) by (simp add: set_data_def)
  then show ?thesis using s' False by (simp add: Delete_Order_def Let_def)
qed

section \<open>A concrete store\<close>

definition sample_store :: order_store where
  "sample_store = Init_Store (\<lambda>a. 0) 0x20000000 0x20001000 0x20002800 0x20005800"

lemma sample_arrays: "arrays_ok 0x20000000 0x20001000 0x20002800 0x20005800"
  by (simp add: arrays_ok_def)

lemma sample_store_inv: "store_inv sample_store None" "is_queue (st_table sample_store) []"
  using init_store_inv [OF sample_arrays, of "\<lambda>a. 0"] by (simp_all add: sample_store_def)

lemma sample_free: "free_nodes (st_table sample_store) 0 = [0, 1, 2, 3]"
proof -
  have "st_table sample_store = Init_Order_Table"
    by (simp add: sample_store_def Init_Store_def split_def Let_def)
  then show ?thesis using init_free_nodes [of 0] by (simp add: idxs_def class_start_def class_end_def upt_rec)
qed

text \<open>The start-up code establishes the invariant and an empty print queue, for any four
  disjoint arrays of block memory in order.\<close>

lemma init_store_ok:
  assumes "arrays_ok a b c d"
  shows "store_inv (Init_Store m a b c d) None \<and> is_queue (st_table (Init_Store m a b c d)) []"
  using assms by (rule init_store_inv)

theorem find_entry_spec_witness:
  "\<exists>i s'. Find_Entry sample_store 700 True = Some (int i, s') \<and> i \<in> {0, 1, 2, 3} \<and> store_inv s' (Some 0)
   \<and> Find_Entry sample_store 20000 True = Some (ORDER_TOO_LARGER, sample_store)"
proof -
  have "class_of_len 700 = 0" by (simp add: class_of_len_def)
  then show ?thesis
    using find_entry_spec [OF sample_store_inv(1), of 700 True] find_entry_spec [OF sample_store_inv(1), of 20000 True]
    by (auto simp: sample_free Let_def)
qed

definition plain_order :: SqQueue where
  "plain_order = \<lparr>sq_base = (0x3e # 0x11 # 0 # 2 # replicate 20 0) @ [5, 6] @ [0, 0, 0x11, 0xe3] @ replicate 10 0,
     sq_read = 0, sq_write = 30, sq_MAX = 40, sq_buf_empty = 0\<rparr>"

lemma plain_order_facts: "ring plain_order"
  "contents plain_order = (0x3e # 0x11 # 0 # 2 # replicate 20 0) @ [5, 6] @ [0, 0, 0x11, 0xe3] @ []"
  "length (0x3e # 0x11 # 0 # 2 # replicate 20 0 :: u8 list) = 24" "length [0, 0, 0x11, 0xe3 :: u8] = 4"
  "unat (be16 ((0x3e # 0x11 # 0 # 2 # replicate 20 0) ! 2) ((0x3e # 0x11 # 0 # 2 # replicate 20 0) ! 3)) = length [5, 6 :: u8]"
  "unat (sq_read plain_order) + 24 \<le> unat (sq_MAX plain_order)"
proof -
  show "contents plain_order = (0x3e # 0x11 # 0 # 2 # replicate 20 0) @ [5, 6] @ [0, 0, 0x11, 0xe3] @ []" by code_simp
qed (simp_all add: ring_def plain_order_def unat_be16)

lemma sample_reserved:
  "\<exists>e s. unat e \<in> set (free_nodes (st_table s) (class_of_index (unat e))) \<and> unat (e :: u8) < 4
     \<and> store_inv s (Some (class_of_index (unat e))) \<and> is_queue (st_table s) []"
proof -
  obtain i s where i: "Find_Block_Num sample_store 0 True = Some (int i, s)" "i \<in> set (free_nodes (st_table sample_store) 0)"
    "store_inv s (Some 0)" "st_table s = st_table sample_store"
    using find_block_spec [OF sample_store_inv(1), of 0 True] by (auto simp: sample_free)
  have "i < 4" using i(2) by (auto simp: sample_free)
  then have "unat (of_nat i :: u8) = i" "class_of_index i = 0" by (simp_all add: unat_of_nat class_of_index_def)
  then show ?thesis using i sample_store_inv(2) \<open>i < 4\<close>
    by (intro exI [of _ "of_nat i :: u8"] exI [of _ s]) simp
qed

theorem add_order_ok_witness:
  "\<exists>s s' buf' e. Add_Order_To_Print_Queue s plain_order e 0 = Some (s', buf') \<and> store_inv s' None
    \<and> is_queue (st_table s') [e] \<and> contents buf' = []
    \<and> load_block (st_mem s') (oi_data (node (st_table s') e)) 2 = [5, 6]"
proof -
  obtain e s where e: "unat e \<in> set (free_nodes (st_table s) (class_of_index (unat e)))" "unat (e :: u8) < 4"
    "store_inv s (Some (class_of_index (unat e)))" "is_queue (st_table s) []"
    using sample_reserved by blast
  have "2 * length [5, 6 :: u8] < class_size (class_of_index (unat e))"
    using e(2) by (simp add: class_size_def class_of_index_def)
  then have "\<exists>s' buf'. Add_Order_To_Print_Queue s plain_order e 0 = Some (s', buf') \<and> store_inv s' None
    \<and> is_queue (st_table s') [e] \<and> contents buf' = []
    \<and> load_block (st_mem s') (oi_data (node (st_table s') e)) (length [5, 6 :: u8]) = [5, 6]"
    using add_order_ok [OF e(3,4,1) plain_order_facts, of 0] by auto
  moreover have "length [5, 6 :: u8] = 2" by simp
  ultimately show ?thesis by metis
qed

theorem delete_order_ok_witness:
  "\<exists>s e. oi_data (node (st_table s) e) \<noteq> 0 \<and> fst (Delete_Order s e) = ORDER_QUEUE_OK \<and> store_inv (snd (Delete_Order s e)) None"
proof -
  obtain e s where e: "unat e \<in> set (free_nodes (st_table s) (class_of_index (unat e)))" "unat (e :: u8) < 4"
    "store_inv s (Some (class_of_index (unat e)))" "is_queue (st_table s) []"
    using sample_reserved by blast
  have "2 * length [5, 6 :: u8] < class_size (class_of_index (unat e))"
    using e(2) by (simp add: class_size_def class_of_index_def)
  then obtain s' where s': "store_inv s' None" "is_queue (st_table s') [e]"
    using add_order [OF e(3,4,1) plain_order_facts, of 0] by auto
  then have "oi_data (node (st_table s') e) \<noteq> 0" by (simp add: is_queue_def)
  then show ?thesis using delete_order_ok [OF s'(1), of e] e(2) by (intro exI [of _ s'] exI [of _ e]) simp
qed

end
