(* ===== verification/Os_Queue.thy ===== *)
theory Os_Queue
  imports Prelude
begin

text \<open>
  The message queues of the kernel, \<^verbatim>\<open>UCOSII/Source/os_q.c\<close>: a circular array of
  pointers.  A pointer of the array is its index; pending on an empty queue is a step that is
  not enabled yet, so a post always reaches the array.  The locale \<open>message_queue\<close> states what a
  client relies on.
\<close>

record 'a OS_Q =
  OSQStart :: "'a list"
  OSQIn :: nat
  OSQOut :: nat
  OSQEntries :: nat

abbreviation OSQSize :: "('a, 'b) OS_Q_scheme \<Rightarrow> nat" where
  "OSQSize q \<equiv> length (OSQStart q)"

definition OSQCreate :: "'a list \<Rightarrow> 'a OS_Q" where
  "OSQCreate start = \<lparr>OSQStart = start, OSQIn = 0, OSQOut = 0, OSQEntries = 0\<rparr>"

text \<open>The flag tells \<^verbatim>\<open>OS_ERR_NONE\<close> from \<^verbatim>\<open>OS_ERR_Q_FULL\<close>.\<close>

definition OSQPost :: "'a OS_Q \<Rightarrow> 'a \<Rightarrow> bool \<times> 'a OS_Q" where
  "OSQPost pq pmsg =
     (if OSQSize pq \<le> OSQEntries pq then (False, pq)
      else let pq = pq\<lparr>OSQStart := (OSQStart pq)[OSQIn pq := pmsg], OSQIn := OSQIn pq + 1, OSQEntries := OSQEntries pq + 1\<rparr>
           in (True, if OSQIn pq = OSQSize pq then pq\<lparr>OSQIn := 0\<rparr> else pq))"

definition OSQPend :: "'a OS_Q \<Rightarrow> ('a \<times> 'a OS_Q) option" where
  "OSQPend pq =
     (if 0 < OSQEntries pq
      then let pmsg = OSQStart pq ! OSQOut pq;
               pq = pq\<lparr>OSQOut := OSQOut pq + 1, OSQEntries := OSQEntries pq - 1\<rparr>
           in Some (pmsg, if OSQOut pq = OSQSize pq then pq\<lparr>OSQOut := 0\<rparr> else pq)
      else None)"

section \<open>The interface\<close>

locale message_queue =
  fixes ok :: "'q \<Rightarrow> bool"
    and items :: "'q \<Rightarrow> 'a list"
    and bound :: "'q \<Rightarrow> nat"
    and post :: "'q \<Rightarrow> 'a \<Rightarrow> bool \<times> 'q"
    and pend :: "'q \<Rightarrow> ('a \<times> 'q) option"
  assumes post_room: "ok q \<Longrightarrow> length (items q) < bound q \<Longrightarrow>
      fst (post q x) \<and> ok (snd (post q x)) \<and> items (snd (post q x)) = items q @ [x] \<and> bound (snd (post q x)) = bound q"
    and post_full: "ok q \<Longrightarrow> bound q \<le> length (items q) \<Longrightarrow> post q x = (False, q)"
    and pend_empty: "ok q \<Longrightarrow> items q = [] \<Longrightarrow> pend q = None"
    and pend_head: "ok q \<Longrightarrow> items q = x # xs \<Longrightarrow>
      \<exists>q'. pend q = Some (x, q') \<and> ok q' \<and> items q' = xs \<and> bound q' = bound q"
begin

fun posts :: "'q \<Rightarrow> 'a list \<Rightarrow> 'q" where
  "posts q [] = q"
| "posts q (x # xs) = posts (snd (post q x)) xs"

fun pends :: "nat \<Rightarrow> 'q \<Rightarrow> 'a list" where
  "pends 0 q = []"
| "pends (Suc n) q = (case pend q of None \<Rightarrow> [] | Some (x, q') \<Rightarrow> x # pends n q')"

lemma posts_items:
  "ok q \<Longrightarrow> length (items q) + length xs \<le> bound q \<Longrightarrow>
   ok (posts q xs) \<and> items (posts q xs) = items q @ xs \<and> bound (posts q xs) = bound q"
proof (induction xs arbitrary: q)
  case (Cons x xs)
  then show ?case using post_room [of q x] Cons.IH [of "snd (post q x)"] by simp
qed simp

lemma pends_items: "ok q \<Longrightarrow> pends n q = take n (items q)"
proof (induction n arbitrary: q)
  case (Suc n)
  show ?case
  proof (cases "items q")
    case Nil
    then show ?thesis using Suc.prems pend_empty by simp
  next
    case (Cons x xs)
    then obtain q' where "pend q = Some (x, q')" "ok q'" "items q' = xs" using pend_head Suc.prems by blast
    then show ?thesis using Suc.IH Cons by simp
  qed
qed simp

text \<open>What is posted to an empty queue within its bound is received in the same order.\<close>

lemma in_order: "ok q \<Longrightarrow> items q = [] \<Longrightarrow> length xs \<le> bound q \<Longrightarrow> pends (length xs) (posts q xs) = xs"
  using posts_items [of q xs] pends_items by simp

end

section \<open>The kernel's queue is one\<close>

definition q_ok :: "'a OS_Q \<Rightarrow> bool" where
  "q_ok q \<longleftrightarrow> OSQIn q < OSQSize q \<and> OSQOut q < OSQSize q \<and> OSQEntries q \<le> OSQSize q
     \<and> OSQIn q = (OSQOut q + OSQEntries q) mod OSQSize q"

definition q_items :: "'a OS_Q \<Rightarrow> 'a list" where
  "q_items q = map (\<lambda>i. OSQStart q ! ((OSQOut q + i) mod OSQSize q)) [0 ..< OSQEntries q]"

lemma q_create_ok [simp]: "q_ok (OSQCreate xs) \<longleftrightarrow> xs \<noteq> []" "OSQEntries (OSQCreate xs) = 0"
  by (auto simp: q_ok_def OSQCreate_def)

lemma length_q_items [simp]: "length (q_items q) = OSQEntries q"
  by (simp add: q_items_def)

lemma wrap_step: "a < (n :: nat) \<Longrightarrow> (if a + 1 = n then 0 else a + 1) = (a + 1) mod n"
  by (auto simp: mod_if)

lemma OSQPost_room:
  assumes "q_ok q" "OSQEntries q < OSQSize q"
  shows "fst (OSQPost q x) \<and> q_ok (snd (OSQPost q x)) \<and> q_items (snd (OSQPost q x)) = q_items q @ [x]
    \<and> OSQSize (snd (OSQPost q x)) = OSQSize q"
proof -
  let ?n = "OSQSize q"
  let ?q = "q\<lparr>OSQStart := (OSQStart q)[OSQIn q := x], OSQIn := (OSQIn q + 1) mod ?n, OSQEntries := OSQEntries q + 1\<rparr>"
  have p: "OSQPost q x = (True, ?q)"
    using assms wrap_step [of "OSQIn q" ?n] by (auto simp: OSQPost_def q_ok_def Let_def)
  have "0 < ?n" "OSQStart q \<noteq> []" using assms(2) by auto
  then have "q_ok ?q" using assms mod_less_divisor [of ?n "OSQIn q + 1"] by (auto simp: q_ok_def mod_Suc_eq)
  moreover have "q_items ?q = q_items q @ [x]"
  proof (rule nth_equalityI)
    fix i assume i: "i < length (q_items ?q)"
    have "(OSQOut q + i) mod ?n \<noteq> OSQIn q" if "i < OSQEntries q"
    proof
      assume "(OSQOut q + i) mod ?n = OSQIn q"
      then have "(OSQOut q + i) mod ?n = (OSQOut q + OSQEntries q) mod ?n" using assms by (simp add: q_ok_def)
      then have "i mod ?n = OSQEntries q mod ?n" by (simp add: mod_add_cong nat_mod_eq_iff)
      then show False using that assms(2) by simp
    qed
    then show "q_items ?q ! i = (q_items q @ [x]) ! i"
      using i assms by (cases "i < OSQEntries q") (auto simp: q_items_def nth_append q_ok_def less_Suc_eq simp del: upt_Suc)
  qed simp
  ultimately show ?thesis using p by simp
qed

lemma OSQPend_head:
  assumes "q_ok q" "q_items q = x # xs"
  shows "\<exists>q'. OSQPend q = Some (x, q') \<and> q_ok q' \<and> q_items q' = xs \<and> OSQSize q' = OSQSize q"
proof -
  let ?n = "OSQSize q"
  let ?q = "q\<lparr>OSQOut := (OSQOut q + 1) mod ?n, OSQEntries := OSQEntries q - 1\<rparr>"
  have e: "0 < OSQEntries q" using arg_cong [OF assms(2), of length] by simp
  have "x = OSQStart q ! OSQOut q" using arg_cong [OF assms(2), of "\<lambda>xs. xs ! 0"] e assms(1) by (simp add: q_items_def q_ok_def)
  then have "OSQPend q = Some (x, ?q)"
    using assms e wrap_step [of "OSQOut q" ?n] by (auto simp: OSQPend_def q_ok_def Let_def)
  moreover obtain k where k: "OSQEntries q = Suc k" using e by (cases "OSQEntries q") auto
  have "0 < ?n" using assms(1) by (auto simp: q_ok_def)
  then have "q_ok ?q" using assms(1) k mod_less_divisor [of ?n "OSQOut q + 1"]
    by (auto simp: q_ok_def mod_add_left_eq [of "Suc (OSQOut q)"])
  moreover have "q_items ?q = tl (q_items q)"
    by (rule nth_equalityI) (auto simp: q_items_def nth_tl mod_add_left_eq)
  ultimately show ?thesis using assms(2) by auto
qed

interpretation osq: message_queue q_ok q_items OSQSize OSQPost OSQPend
proof unfold_locales
  fix q :: "'a OS_Q" and x :: 'a
  assume "q_ok q" "length (q_items q) < OSQSize q"
  then show "fst (OSQPost q x) \<and> q_ok (snd (OSQPost q x)) \<and> q_items (snd (OSQPost q x)) = q_items q @ [x]
      \<and> OSQSize (snd (OSQPost q x)) = OSQSize q"
    using OSQPost_room by simp
next
  fix q :: "'a OS_Q" and x :: 'a
  assume "q_ok q" "OSQSize q \<le> length (q_items q)"
  then show "OSQPost q x = (False, q)" by (simp add: OSQPost_def)
next
  fix q :: "'a OS_Q"
  assume "q_ok q" "q_items q = []"
  then have "OSQEntries q = 0" using length_q_items [of q] by simp
  then show "OSQPend q = None" by (simp add: OSQPend_def)
next
  fix q :: "'a OS_Q" and x xs
  assume "q_ok q" "q_items q = x # xs"
  then show "\<exists>q'. OSQPend q = Some (x, q') \<and> q_ok q' \<and> q_items q' = xs \<and> OSQSize q' = OSQSize q"
    by (rule OSQPend_head)
qed

end
