(* ===== verification/Status_Messages.thy ===== *)
theory Status_Messages
  imports Data_Form Os_Queue
begin

text \<open>
  The status messages of \<^verbatim>\<open>User/src/status_mesg.c\<close>: a ring of twenty message nodes whose
  indices travel through a kernel message queue, and the dispatch of a message to the server,
  the serial line or the wifi module.  The calls that send a frame are the value of the dispatch.
\<close>

section \<open>State\<close>

text \<open>
  The union \<^verbatim>\<open>MesgQueueData\<close> as its bytes: the halfwords at offset 0 and 2 and the byte at
  offset 4; the 32-bit printer number overlaps both halfwords.
\<close>

record MesgQueueData =
  batch_num :: u16
  order_num :: u16
  data_source :: u8

definition printer_num :: "MesgQueueData \<Rightarrow> u32" where
  "printer_num d = push_bit 16 (ucast (order_num d)) OR ucast (batch_num d)"

definition set_printer_num :: "u32 \<Rightarrow> MesgQueueData \<Rightarrow> MesgQueueData" where
  "set_printer_num n d = d\<lparr>batch_num := ucast n, order_num := ucast (drop_bit 16 n)\<rparr>"

record MesgQueueNode =
  flag :: u8
  mesgQueueData :: MesgQueueData
  ip :: u32
  status :: u8

record mesg_state =
  MesgQueBuf :: "MesgQueueNode list"
  MesgQueIndex :: u32
  Mesg_Queue :: "nat OS_Q"

abbreviation (input) "MESG_QUEUE_SIZE \<equiv> (20 :: nat)"
abbreviation (input) "BATCH_MESG_QUE_FLAG \<equiv> (1 :: u8)"
abbreviation (input) "ORDER_QUEUE_MESG_QUE_FLAG \<equiv> (2 :: u8)"
abbreviation (input) "ORDER_PRINT_MESG_QUE_FLAG \<equiv> (3 :: u8)"
abbreviation (input) "PRINTER_MESG_QUE_FLAG \<equiv> (4 :: u8)"
abbreviation (input) "REMOTE_SOURCE \<equiv> (0 :: u8)"
abbreviation (input) "LOCAL_SOURCE \<equiv> (1 :: u8)"
abbreviation (input) "REMOTE_RE_SOURCE \<equiv> (2 :: u8)"
abbreviation (input) "LOCAL_RE_SOURCE \<equiv> (3 :: u8)"
abbreviation (input) "WIFI_SOURCE \<equiv> (4 :: u8)"
abbreviation (input) "WIFI_RE_SOURCE \<equiv> (5 :: u8)"
abbreviation (input) "BATCH_PRINT_SUCCESS \<equiv> (0 :: u8)"
abbreviation (input) "BATCH_ENUEUE_SUCCESS \<equiv> (1 :: u8)"
abbreviation (input) "ENQUEUE_OK \<equiv> (0 :: u8)"
abbreviation (input) "ENQUEUE_ERR \<equiv> (1 :: u8)"
abbreviation (input) "PRINT_STATUS_OK \<equiv> (0 :: u8)"
abbreviation (input) "PRINT_STATUS_DATA_ERR \<equiv> (1 :: u8)"
abbreviation (input) "PRINT_STATUS_MACHINE_ERR \<equiv> (2 :: u8)"
abbreviation (input) "PRINT_STATUS_START \<equiv> (3 :: u8)"
abbreviation (input) "BATCH_PRINT_SUC \<equiv> (0 :: u8)"
abbreviation (input) "BATCH_ENQUE_BUF_SUC \<equiv> (1 :: u8)"
abbreviation (input) "NOR_ORDER_PRINT_SUC \<equiv> (0 :: u8)"
abbreviation (input) "NOR_ORDER_PRINTER_ERR \<equiv> (1 :: u8)"
abbreviation (input) "NOR_ORDER_ENQUE_SUC \<equiv> (2 :: u8)"
abbreviation (input) "NOR_ORDER_PRINT_START \<equiv> (3 :: u8)"
abbreviation (input) "NOR_ORDER_DATA_ERR \<equiv> (4 :: u8)"
abbreviation (input) "EX_ORDER_PRINT_SUC \<equiv> (5 :: u8)"
abbreviation (input) "EX_ORDER_PRINTER_ERR \<equiv> (6 :: u8)"
abbreviation (input) "EX_ORDER_ENQUE_SUC \<equiv> (7 :: u8)"
abbreviation (input) "EX_ORDER_PRINT_START \<equiv> (8 :: u8)"
abbreviation (input) "EX_ORDER_DATA_ERR \<equiv> (9 :: u8)"
abbreviation (input) "PRINTER_MESG_IP \<equiv> (0 :: u32)"

definition init_mesg :: mesg_state where
  "init_mesg = \<lparr>MesgQueBuf = replicate MESG_QUEUE_SIZE
       \<lparr>flag = 0, mesgQueueData = \<lparr>batch_num = 0, order_num = 0, data_source = 0\<rparr>, ip = 0, status = 0\<rparr>,
     MesgQueIndex = 0, Mesg_Queue = OSQCreate (replicate MESG_QUEUE_SIZE 0)\<rparr>"

section \<open>Sending\<close>

text \<open>
  Storing a node at the index, posting its pointer and advancing the index; the result of the post is not looked at.
  It is one step here: the senders run one after the other.  In the program nothing makes it one step, since
  \<^verbatim>\<open>MesgQueIndex\<close> is read and advanced around the call of \<^verbatim>\<open>OSQPost\<close> without
  a lock, by tasks and by interrupts.
\<close>

definition put_node :: "(MesgQueueNode \<Rightarrow> MesgQueueNode) \<Rightarrow> mesg_state \<Rightarrow> mesg_state" where
  "put_node f s =
     (let i = unat (MesgQueIndex s)
      in s\<lparr>MesgQueBuf := (MesgQueBuf s)[i := f (MesgQueBuf s ! i)],
           Mesg_Queue := snd (OSQPost (Mesg_Queue s) i),
           MesgQueIndex := (MesgQueIndex s + 1) mod of_nat MESG_QUEUE_SIZE\<rparr>)"

definition Batch_Status_Send :: "u16 \<Rightarrow> u8 \<Rightarrow> mesg_state \<Rightarrow> mesg_state" where
  "Batch_Status_Send num st = put_node (\<lambda>n. n\<lparr>flag := BATCH_MESG_QUE_FLAG,
     mesgQueueData := (mesgQueueData n)\<lparr>batch_num := num\<rparr>, status := st\<rparr>)"

definition order_data :: "order_info \<Rightarrow> MesgQueueData" where
  "order_data order = \<lparr>batch_num = ucast (oi_batch_number order), order_num = oi_batch_within_number order,
     data_source = ucast (oi_data_source order)\<rparr>"

definition Order_QUEUE_Status_Send :: "order_info \<Rightarrow> u8 \<Rightarrow> mesg_state \<Rightarrow> mesg_state" where
  "Order_QUEUE_Status_Send order st = put_node (\<lambda>n. n\<lparr>flag := ORDER_QUEUE_MESG_QUE_FLAG,
     mesgQueueData := order_data order, ip := oi_sever_send_time order, status := st\<rparr>)"

definition Order_Print_Status_Send :: "order_info \<Rightarrow> u8 \<Rightarrow> mesg_state \<Rightarrow> mesg_state" where
  "Order_Print_Status_Send order st = put_node (\<lambda>n. n\<lparr>flag := ORDER_PRINT_MESG_QUE_FLAG,
     mesgQueueData := order_data order, ip := oi_sever_send_time order, status := st\<rparr>)"

definition Printer_Status_Send :: "u32 \<Rightarrow> u8 \<Rightarrow> mesg_state \<Rightarrow> mesg_state" where
  "Printer_Status_Send num st = put_node (\<lambda>n. n\<lparr>flag := PRINTER_MESG_QUE_FLAG,
     mesgQueueData := set_printer_num num (mesgQueueData n), ip := PRINTER_MESG_IP, status := st\<rparr>)"

section \<open>Dispatch\<close>

text \<open>
  The calls of \<^verbatim>\<open>BASE_SEND_STATUS\<close>, \<^verbatim>\<open>SendStatusToLocal\<close> and \<^verbatim>\<open>SendStatusToWifi\<close>, with
  the kind, the symbol, for wifi the address, and the number they are given.
\<close>

datatype report =
    BASE_SEND_STATUS req_type u8 u32
  | SendStatusToLocal req_type u8 u32
  | SendStatusToWifi req_type u8 u32 u32

definition Batch_Status_Mesg_Queue_Send :: "u16 \<Rightarrow> u8 \<Rightarrow> report list" where
  "Batch_Status_Mesg_Queue_Send num st =
     (if st = BATCH_PRINT_SUCCESS then [BASE_SEND_STATUS batch_status BATCH_PRINT_SUC (push_bit 16 (ucast num))]
      else if st = BATCH_ENUEUE_SUCCESS then [BASE_SEND_STATUS batch_status BATCH_ENQUE_BUF_SUC (push_bit 16 (ucast num))]
      else [])"

text \<open>One switch over the source, which the functions repeat for every status with other symbols.\<close>

definition by_source :: "u8 \<Rightarrow> u8 \<Rightarrow> u8 \<Rightarrow> u32 \<Rightarrow> u32 \<Rightarrow> report list" where
  "by_source nor ex source addr num =
     (if source = REMOTE_SOURCE then [BASE_SEND_STATUS order_status nor num]
      else if source = REMOTE_RE_SOURCE then [BASE_SEND_STATUS order_status ex num]
      else if source = LOCAL_SOURCE then [SendStatusToLocal order_status nor num]
      else if source = LOCAL_RE_SOURCE then [SendStatusToLocal order_status ex num]
      else if source = WIFI_SOURCE then [SendStatusToWifi order_status nor addr num]
      else if source = WIFI_RE_SOURCE then [SendStatusToWifi order_status ex addr num]
      else [])"

definition joined :: "u16 \<Rightarrow> u16 \<Rightarrow> u32" where
  "joined batch order = push_bit 16 (ucast batch) OR ucast order"

definition Order_QUEUE_Status_Mesg_Queue_Send :: "u16 \<Rightarrow> u16 \<Rightarrow> u8 \<Rightarrow> u8 \<Rightarrow> u32 \<Rightarrow> report list" where
  "Order_QUEUE_Status_Mesg_Queue_Send batch order st source addr =
     (if st = ENQUEUE_OK then by_source NOR_ORDER_ENQUE_SUC EX_ORDER_ENQUE_SUC source addr (joined batch order)
      else if st = ENQUEUE_ERR then by_source NOR_ORDER_DATA_ERR EX_ORDER_DATA_ERR source addr (joined batch order)
      else [])"

definition Order_Print_Status_Mesg_Queue_Send :: "u16 \<Rightarrow> u16 \<Rightarrow> u8 \<Rightarrow> u8 \<Rightarrow> u32 \<Rightarrow> report list" where
  "Order_Print_Status_Mesg_Queue_Send batch order st source addr =
     (if st = PRINT_STATUS_START then by_source NOR_ORDER_PRINT_START EX_ORDER_PRINT_START source addr (joined batch order)
      else if st = PRINT_STATUS_OK then by_source NOR_ORDER_PRINT_SUC EX_ORDER_PRINT_SUC source addr (joined batch order)
      else if st = PRINT_STATUS_DATA_ERR then by_source NOR_ORDER_DATA_ERR EX_ORDER_DATA_ERR source addr (joined batch order)
      else if st = PRINT_STATUS_MACHINE_ERR then by_source NOR_ORDER_PRINTER_ERR EX_ORDER_PRINTER_ERR source addr (joined batch order)
      else [])"

definition Printer_Status_Mesg_Queue_Send :: "u32 \<Rightarrow> u8 \<Rightarrow> report list" where
  "Printer_Status_Mesg_Queue_Send num st =
     [SendStatusToWifi printer_status st PRINTER_MESG_IP (num + 1), BASE_SEND_STATUS printer_status st (num + 1),
      SendStatusToLocal printer_status st (num + 1)]"

definition dispatch :: "MesgQueueNode \<Rightarrow> report list" where
  "dispatch n =
     (let d = mesgQueueData n
      in if flag n = BATCH_MESG_QUE_FLAG then Batch_Status_Mesg_Queue_Send (batch_num d) (status n)
         else if flag n = ORDER_QUEUE_MESG_QUE_FLAG
         then Order_QUEUE_Status_Mesg_Queue_Send (batch_num d) (order_num d) (status n) (data_source d) (ip n)
         else if flag n = ORDER_PRINT_MESG_QUE_FLAG
         then Order_Print_Status_Mesg_Queue_Send (batch_num d) (order_num d) (status n) (data_source d) (ip n)
         else if flag n = PRINTER_MESG_QUE_FLAG then Printer_Status_Mesg_Queue_Send (printer_num d) (status n)
         else [])"

text \<open>One round of \<^verbatim>\<open>MesgQue_Deal\<close>; \<^term>\<open>None\<close> is the wait for a message.\<close>

definition MesgQue_Deal :: "mesg_state \<Rightarrow> (report list \<times> mesg_state) option" where
  "MesgQue_Deal s =
     (case OSQPend (Mesg_Queue s) of None \<Rightarrow> None
      | Some (i, q) \<Rightarrow> Some (dispatch (MesgQueBuf s ! i), s\<lparr>Mesg_Queue := q\<rparr>))"

section \<open>Messages on their way\<close>

definition pending :: "mesg_state \<Rightarrow> MesgQueueNode list" where
  "pending s = map (\<lambda>i. MesgQueBuf s ! i) (q_items (Mesg_Queue s))"

text \<open>The reports that the messages under way will cause.\<close>

definition outbox :: "mesg_state \<Rightarrow> report list list" where
  "outbox s = map dispatch (pending s)"

text \<open>The slots under way are those just before the index.\<close>

definition mesg_inv :: "mesg_state \<Rightarrow> bool" where
  "mesg_inv s \<longleftrightarrow> length (MesgQueBuf s) = MESG_QUEUE_SIZE \<and> unat (MesgQueIndex s) < MESG_QUEUE_SIZE
     \<and> q_ok (Mesg_Queue s) \<and> OSQSize (Mesg_Queue s) = MESG_QUEUE_SIZE
     \<and> (\<forall>j < length (q_items (Mesg_Queue s)).
          (q_items (Mesg_Queue s) ! j + (length (q_items (Mesg_Queue s)) - j)) mod MESG_QUEUE_SIZE = unat (MesgQueIndex s)
          \<and> q_items (Mesg_Queue s) ! j < MESG_QUEUE_SIZE)"

datatype send =
    S_Batch u16 u8
  | S_Queue order_info u8
  | S_Print order_info u8
  | S_Printer u32 u8

fun do_send :: "send \<Rightarrow> mesg_state \<Rightarrow> mesg_state" where
  "do_send (S_Batch num st) = Batch_Status_Send num st"
| "do_send (S_Queue order st) = Order_QUEUE_Status_Send order st"
| "do_send (S_Print order st) = Order_Print_Status_Send order st"
| "do_send (S_Printer num st) = Printer_Status_Send num st"

fun reports_of :: "send \<Rightarrow> report list" where
  "reports_of (S_Batch num st) = Batch_Status_Mesg_Queue_Send num st"
| "reports_of (S_Queue order st) = Order_QUEUE_Status_Mesg_Queue_Send (ucast (oi_batch_number order))
     (oi_batch_within_number order) st (ucast (oi_data_source order)) (oi_sever_send_time order)"
| "reports_of (S_Print order st) = Order_Print_Status_Mesg_Queue_Send (ucast (oi_batch_number order))
     (oi_batch_within_number order) st (ucast (oi_data_source order)) (oi_sever_send_time order)"
| "reports_of (S_Printer num st) = Printer_Status_Mesg_Queue_Send num st"

lemma printer_num_set: "printer_num (set_printer_num n d) = n"
  by (rule bit_word_eqI) (auto simp: printer_num_def set_printer_num_def bit_simps)

lemma do_send_put:
  "\<exists>f. do_send x = put_node f \<and> (\<forall>n. dispatch (f n) = reports_of x)"
  by (cases x) (auto simp: Batch_Status_Send_def Order_QUEUE_Status_Send_def Order_Print_Status_Send_def
      Printer_Status_Send_def dispatch_def order_data_def printer_num_set intro!: exI)

lemma index_step:
  assumes "unat (i :: u32) < 20"
  shows "unat ((i + 1) mod 20) = Suc (unat i) mod 20"
proof -
  have "unat (i + 1) = unat i + 1" using assms by (simp add: unat_word_ariths)
  then show ?thesis by (simp add: unat_mod_distrib)
qed

lemma put_node_room:
  assumes inv: "mesg_inv s" and room: "length (q_items (Mesg_Queue s)) < MESG_QUEUE_SIZE"
  shows "mesg_inv (put_node f s) \<and> pending (put_node f s) = pending s @ [f (MesgQueBuf s ! unat (MesgQueIndex s))]"
proof -
  let ?i = "unat (MesgQueIndex s)" and ?q = "Mesg_Queue s"
  have i: "?i < MESG_QUEUE_SIZE" "length (MesgQueBuf s) = MESG_QUEUE_SIZE" using inv by (auto simp: mesg_inv_def)
  have p: "q_ok (snd (OSQPost ?q ?i))" "q_items (snd (OSQPost ?q ?i)) = q_items ?q @ [?i]"
    "OSQSize (snd (OSQPost ?q ?i)) = MESG_QUEUE_SIZE"
    using osq.post_room [of ?q ?i] inv room by (auto simp: mesg_inv_def)
  have slot: "(q_items ?q ! j + (length (q_items ?q) - j)) mod MESG_QUEUE_SIZE = ?i" "q_items ?q ! j < MESG_QUEUE_SIZE"
    if "j < length (q_items ?q)" for j
    using inv that by (auto simp: mesg_inv_def)
  have step: "(x + Suc k) mod MESG_QUEUE_SIZE = (?i + 1) mod MESG_QUEUE_SIZE" if "(x + k) mod MESG_QUEUE_SIZE = ?i" for x k
    using that by (metis add_Suc_right mod_Suc_eq Suc_eq_plus1)
  have "(q_items ?q ! j + (Suc (length (q_items ?q)) - j)) mod MESG_QUEUE_SIZE = (?i + 1) mod MESG_QUEUE_SIZE"
    if "j < length (q_items ?q)" for j
    using step [OF slot(1) [OF that]] by (simp only: Suc_diff_le [OF less_imp_le [OF that]])
  then have "mesg_inv (put_node f s)"
    using p i slot(2) by (auto simp: mesg_inv_def put_node_def Let_def index_step nth_append less_Suc_eq)
  moreover have "?i \<noteq> q_items ?q ! j" if "j < length (q_items ?q)" for j
  proof
    assume e: "?i = q_items ?q ! j"
    then have "(?i + (length (q_items ?q) - j)) mod MESG_QUEUE_SIZE = ?i" unfolding e using slot(1) [OF that] e by simp
    moreover have "0 < length (q_items ?q) - j" "length (q_items ?q) - j < MESG_QUEUE_SIZE" using that room by auto
    ultimately show False using i(1) by (auto simp: mod_if split: if_splits)
  qed
  then have "map (\<lambda>k. (MesgQueBuf s)[?i := f (MesgQueBuf s ! ?i)] ! k) (q_items ?q) = pending s"
    unfolding pending_def by (intro map_cong refl) (auto simp: in_set_conv_nth)
  ultimately show ?thesis using p(2) i by (simp add: pending_def put_node_def Let_def)
qed

lemma put_node_full:
  assumes inv: "mesg_inv s" and full: "length (q_items (Mesg_Queue s)) = MESG_QUEUE_SIZE"
  shows "pending (put_node f s) = f (MesgQueBuf s ! unat (MesgQueIndex s)) # tl (pending s)"
proof -
  let ?i = "unat (MesgQueIndex s)" and ?q = "Mesg_Queue s"
  have i: "?i < MESG_QUEUE_SIZE" "length (MesgQueBuf s) = MESG_QUEUE_SIZE" using inv by (auto simp: mesg_inv_def)
  have p: "snd (OSQPost ?q ?i) = ?q" using osq.post_full [of ?q ?i] inv full by (simp add: mesg_inv_def)
  have slot: "(q_items ?q ! j + (MESG_QUEUE_SIZE - j)) mod MESG_QUEUE_SIZE = ?i" "q_items ?q ! j < MESG_QUEUE_SIZE"
    if "j < MESG_QUEUE_SIZE" for j
    using inv that full by (auto simp: mesg_inv_def)
  obtain k ks where k: "q_items ?q = k # ks" "length ks = 19" using full by (cases "q_items ?q") auto
  have "k = ?i" using slot [of 0] k by simp
  have "?i \<noteq> ks ! j" if "j < 19" for j
    using slot [of "Suc j"] that k by (auto simp: mod_if split: if_splits)
  then have "map (\<lambda>x. (MesgQueBuf s)[?i := f (MesgQueBuf s ! ?i)] ! x) ks = map (\<lambda>x. MesgQueBuf s ! x) ks"
    using k(2) by (intro map_cong refl) (auto simp: in_set_conv_nth)
  then show ?thesis using p k i \<open>k = ?i\<close> by (simp add: pending_def put_node_def Let_def)
qed

lemma deal_spec:
  assumes "mesg_inv s"
  shows "case MesgQue_Deal s of None \<Rightarrow> outbox s = []
    | Some (r, s') \<Rightarrow> mesg_inv s' \<and> outbox s = r # outbox s'"
proof (cases "q_items (Mesg_Queue s)")
  case Nil
  then show ?thesis using assms osq.pend_empty [of "Mesg_Queue s"] by (simp add: MesgQue_Deal_def outbox_def pending_def mesg_inv_def)
next
  case (Cons k ks)
  then obtain q where q: "OSQPend (Mesg_Queue s) = Some (k, q)" "q_ok q" "q_items q = ks" "OSQSize q = MESG_QUEUE_SIZE"
    using assms osq.pend_head [of "Mesg_Queue s" k ks] by (auto simp: mesg_inv_def)
  have "mesg_inv (s\<lparr>Mesg_Queue := q\<rparr>)"
    unfolding mesg_inv_def
  proof (intro conjI allI impI)
    fix j assume "j < length (q_items (Mesg_Queue (s\<lparr>Mesg_Queue := q\<rparr>)))"
    then have "Suc j < length (q_items (Mesg_Queue s))" using Cons q by simp
    then show "(q_items (Mesg_Queue (s\<lparr>Mesg_Queue := q\<rparr>)) ! j + (length (q_items (Mesg_Queue (s\<lparr>Mesg_Queue := q\<rparr>))) - j))
        mod MESG_QUEUE_SIZE = unat (MesgQueIndex (s\<lparr>Mesg_Queue := q\<rparr>))"
      "q_items (Mesg_Queue (s\<lparr>Mesg_Queue := q\<rparr>)) ! j < MESG_QUEUE_SIZE"
      using assms Cons q by (force simp: mesg_inv_def)+
  qed (use assms q in \<open>auto simp: mesg_inv_def\<close>)
  then show ?thesis using q Cons by (simp add: MesgQue_Deal_def outbox_def pending_def)
qed

lemma init_mesg_inv: "mesg_inv init_mesg" "outbox init_mesg = []"
  by (simp_all add: mesg_inv_def init_mesg_def OSQCreate_def q_ok_def q_items_def outbox_def pending_def)

section \<open>Properties\<close>



definition report_to :: "u8 \<Rightarrow> u8 \<Rightarrow> u32 \<Rightarrow> u32 \<Rightarrow> report" where
  "report_to source symbol addr num =
     (if source \<in> {REMOTE_SOURCE, REMOTE_RE_SOURCE} then BASE_SEND_STATUS order_status symbol num
      else if source \<in> {LOCAL_SOURCE, LOCAL_RE_SOURCE} then SendStatusToLocal order_status symbol num
      else SendStatusToWifi order_status symbol addr num)"

text \<open>An order status goes to the side the order came from, once, with the batch in the high
  and the order in the low half of its number; the symbol of an order sent again is that of a
  normal order plus five.\<close>

lemma order_report:
  "Order_Print_Status_Mesg_Queue_Send batch order st source addr =
     (case (map_of [(PRINT_STATUS_OK, 0), (PRINT_STATUS_DATA_ERR, 4), (PRINT_STATUS_MACHINE_ERR, 1), (PRINT_STATUS_START, 3)] st,
            map_of [(0, 0), (2, 5), (1, 0), (3, 5), (4, 0), (5, 5)] source) of
        (Some code, Some re) \<Rightarrow> [report_to source (code + re) addr (be32 (byte 1 batch) (byte 0 batch) (byte 1 order) (byte 0 order))]
      | _ \<Rightarrow> [])
   \<and> Order_QUEUE_Status_Mesg_Queue_Send batch order st source addr =
     (case (map_of [(ENQUEUE_OK, 2), (ENQUEUE_ERR, 4)] st, map_of [(0, 0), (2, 5), (1, 0), (3, 5), (4, 0), (5, 5)] source) of
        (Some code, Some re) \<Rightarrow> [report_to source (code + re) addr (be32 (byte 1 batch) (byte 0 batch) (byte 1 order) (byte 0 order))]
      | _ \<Rightarrow> [])"
proof -
  have j: "joined batch order = be32 (byte 1 batch) (byte 0 batch) (byte 1 order) (byte 0 order)"
  proof (rule bit_word_eqI)
    fix n :: nat
    assume "n < LENGTH(32)"
    then show "bit (joined batch order) n \<longleftrightarrow> bit (be32 (byte 1 batch) (byte 0 batch) (byte 1 order) (byte 0 order)) n"
      using byte_ranges [of n] by (elim disjE) (auto simp: joined_def be32_def byte_def bit_simps dest: bit_imp_le_length)
  qed
  have "Order_Print_Status_Mesg_Queue_Send batch order st source addr =
     (case (map_of [(PRINT_STATUS_OK, 0), (PRINT_STATUS_DATA_ERR, 4), (PRINT_STATUS_MACHINE_ERR, 1), (PRINT_STATUS_START, 3)] st,
            map_of [(0, 0), (2, 5), (1, 0), (3, 5), (4, 0), (5, 5)] source) of
        (Some code, Some re) \<Rightarrow> [report_to source (code + re) addr (be32 (byte 1 batch) (byte 0 batch) (byte 1 order) (byte 0 order))]
      | _ \<Rightarrow> [])"
    by (simp add: Order_Print_Status_Mesg_Queue_Send_def by_source_def report_to_def j)
  moreover have "Order_QUEUE_Status_Mesg_Queue_Send batch order st source addr =
     (case (map_of [(ENQUEUE_OK, 2), (ENQUEUE_ERR, 4)] st, map_of [(0, 0), (2, 5), (1, 0), (3, 5), (4, 0), (5, 5)] source) of
        (Some code, Some re) \<Rightarrow> [report_to source (code + re) addr (be32 (byte 1 batch) (byte 0 batch) (byte 1 order) (byte 0 order))]
      | _ \<Rightarrow> [])"
    by (simp add: Order_QUEUE_Status_Mesg_Queue_Send_def by_source_def report_to_def j)
  ultimately show ?thesis ..
qed

end
