(* ===== verification/Printer_Port.thy ===== *)
theory Printer_Port
  imports Os_Memory
begin

text \<open>
  The printer side of the serial ports, \<^verbatim>\<open>User/src/printerException.c\<close>: the commands sent to
  a printer and the decoding of its four status bytes.  What is sent is a trace of device
  number and byte in the order of the calls of \<^verbatim>\<open>PRINTER_PUT\<close>; the ports send eight data
  bits.  The array a function reads from is a function from the index, which is a pointer into
  the memory or a local array.
\<close>

section \<open>The port\<close>

type_synonym wire = "(u8 \<times> u8) list"
type_synonym bytes_at = "nat \<Rightarrow> u8"

definition PRINTER_PUT :: "u8 \<Rightarrow> u8 \<Rightarrow> wire \<Rightarrow> wire" where
  "PRINTER_PUT data deviceNum w = w @ [(deviceNum, data)]"

definition at_addr :: "memory \<Rightarrow> u32 \<Rightarrow> bytes_at" where
  "at_addr m p i = m (p + of_nat i)"

abbreviation (input) "KNIFE_ERROR_STATE \<equiv> (1 :: u8)"
abbreviation (input) "UNEXPECTED_OPENED_STATE \<equiv> (2 :: u8)"
abbreviation (input) "PAPER_INSUFFICIENT_STATE \<equiv> (3 :: u8)"
abbreviation (input) "FILL_IN_PAPER_STATE \<equiv> (4 :: u8)"
abbreviation (input) "NORMAL_STATE \<equiv> (9 :: u8)"
abbreviation (input) "ORDER_CREATED_OK \<equiv> (0x73 :: u8)"

section \<open>Sending bytes\<close>

text \<open>
  The counter of \<^verbatim>\<open>mySendData\<close> has 16 bits and the loop runs while it is at most
  \<^verbatim>\<open>size\<close>; \<^term>\<open>None\<close> is a loop that never ends.
\<close>

partial_function (option) send_loop :: "bytes_at \<Rightarrow> nat \<Rightarrow> u16 \<Rightarrow> u16 \<Rightarrow> u8 \<Rightarrow> wire \<Rightarrow> wire option" where
  "send_loop dataBuff i counter sz deviceNum w =
     (if counter \<le> sz
      then send_loop dataBuff (i + 1) (counter + 1) sz deviceNum (PRINTER_PUT (dataBuff i) deviceNum w)
      else Some w)"

definition mySendData :: "bytes_at \<Rightarrow> u16 \<Rightarrow> u8 \<Rightarrow> wire \<Rightarrow> wire option" where
  "mySendData dataBuff sz deviceNum w = send_loop dataBuff 0 1 sz deviceNum w"

definition outputData :: "bytes_at \<Rightarrow> u16 \<Rightarrow> u8 \<Rightarrow> wire \<Rightarrow> u8 \<times> wire" where
  "outputData dat sz deviceNum w =
     (ORDER_CREATED_OK, fold (\<lambda>i. PRINTER_PUT (dat i) deviceNum) [0 ..< unat sz] w)"

text \<open>A local array and its \<^verbatim>\<open>sizeof\<close>.\<close>

definition send_array :: "u8 list \<Rightarrow> u8 \<Rightarrow> wire \<Rightarrow> wire option" where
  "send_array xs = mySendData (\<lambda>i. xs ! i) (of_nat (length xs))"

definition output_array :: "u8 list \<Rightarrow> u8 \<Rightarrow> wire \<Rightarrow> wire" where
  "output_array xs deviceNum w = snd (outputData (\<lambda>i. xs ! i) (of_nat (length xs)) deviceNum w)"

section \<open>Printer commands\<close>

definition printQRCode :: "bytes_at \<Rightarrow> u16 \<Rightarrow> u8 \<Rightarrow> wire \<Rightarrow> wire option" where
  "printQRCode dat sz deviceNum w =
     (let nL = byte 0 (sz AND 0x00ff); nH = byte 0 (drop_bit 8 sz AND 0x00ff);
          cmd1 = [0x1d, 0x01, 0x03, 0x08]; cmd2 = [0x1d, 0x01, 0x04, 0x33];
          cmd3 = [0x1d, 0x01, 0x01]; cmd4 = [0x1d, 0x01, 0x02];
          cmd5 = [0x1b, 0x61, 0x01]; cmd6 = [0x1b, 0x61, 0x03]
      in case fold_opt (\<lambda>w cmd. send_array cmd deviceNum w) w [cmd5, cmd1, cmd2, cmd3] of None \<Rightarrow> None
       | Some w \<Rightarrow> case mySendData dat sz deviceNum (PRINTER_PUT nH deviceNum (PRINTER_PUT nL deviceNum w)) of None \<Rightarrow> None
       | Some w \<Rightarrow> fold_opt (\<lambda>w cmd. send_array cmd deviceNum w) w [cmd4, cmd6])"

definition printImages_Alternate :: "bytes_at \<Rightarrow> u16 \<Rightarrow> u16 \<Rightarrow> u16 \<Rightarrow> u8 \<Rightarrow> wire \<Rightarrow> wire option" where
  "printImages_Alternate dat sz len width deviceNum w =
     (let scale = 0; cmd = [0x1d, 0x76, 0x30];
          XL = byte 0 (len div 8 AND 0x00ff); XH = byte 0 (drop_bit 8 (len div 8) AND 0x00ff);
          YL = byte 0 (width AND 0x00ff); YH = byte 0 (drop_bit 8 width AND 0x00ff)
      in case send_array cmd deviceNum w of None \<Rightarrow> None
       | Some w \<Rightarrow> mySendData dat sz deviceNum
           (fold (\<lambda>b. PRINTER_PUT b deviceNum) [scale, XL, XH, YL, YH] w))"

text \<open>The bytes of \<^verbatim>\<open>cutPaper\<close>; its cut counter is in \<^verbatim>\<open>Print_Cells\<close>.\<close>

definition cut_bytes :: "u8 \<Rightarrow> wire \<Rightarrow> wire" where
  "cut_bytes deviceNum w =
     output_array [0x1b, 0x40] deviceNum
       (output_array [0x1b, 0x69] deviceNum (output_array [0x1b, 0x4a, 0xff] deviceNum w))"

definition initialPrinter :: "u8 \<Rightarrow> wire \<Rightarrow> wire" where
  "initialPrinter deviceNum w = output_array [0x1b, 0x40] deviceNum w"

definition ReadyPrintImage :: "u16 \<Rightarrow> u8 \<Rightarrow> wire \<Rightarrow> wire" where
  "ReadyPrintImage sz deviceNum w =
     (let n1 = byte 0 (sz AND 0x00ff); n2 = byte 0 (drop_bit 8 sz AND 0x0007)
      in PRINTER_PUT n2 deviceNum (PRINTER_PUT n1 deviceNum (output_array [0x1b, 0x2a] deviceNum w)))"

section \<open>Printer status\<close>

definition SEND_STATUS_CMD :: "u8 \<Rightarrow> u8 \<Rightarrow> wire \<Rightarrow> wire" where
  "SEND_STATUS_CMD n deviceNum w =
     PRINTER_PUT n deviceNum (PRINTER_PUT 0x04 deviceNum (PRINTER_PUT 0x10 deviceNum w))"

definition SEND_STATUS_CMD_ONE :: "u8 \<Rightarrow> wire \<Rightarrow> wire" where "SEND_STATUS_CMD_ONE = SEND_STATUS_CMD 1"
definition SEND_STATUS_CMD_TWO :: "u8 \<Rightarrow> wire \<Rightarrow> wire" where "SEND_STATUS_CMD_TWO = SEND_STATUS_CMD 2"
definition SEND_STATUS_CMD_THREE :: "u8 \<Rightarrow> wire \<Rightarrow> wire" where "SEND_STATUS_CMD_THREE = SEND_STATUS_CMD 3"
definition SEND_STATUS_CMD_FOUR :: "u8 \<Rightarrow> wire \<Rightarrow> wire" where "SEND_STATUS_CMD_FOUR = SEND_STATUS_CMD 4"

definition SendStatusCheckCmd :: "u8 \<Rightarrow> wire \<Rightarrow> wire" where
  "SendStatusCheckCmd deviceNum w =
     fold (\<lambda>i. PRINTER_PUT ([0x10, 0x04, 0x01, 0x10, 0x04, 0x02, 0x10, 0x04, 0x03, 0x10, 0x04, 0x04] ! i) deviceNum)
       [0 ..< 12] w"

text \<open>
  \<open>reply\<close> gives the byte that \<^verbatim>\<open>PRINTER_GET\<close> reads after what has been sent so far; it
  stands for the printer.
\<close>

definition stateCheck :: "(wire \<Rightarrow> u8) \<Rightarrow> u8 \<Rightarrow> u8 \<Rightarrow> wire \<Rightarrow> u8 \<times> wire" where
  "stateCheck reply option deviceNum w =
     (let w = PRINTER_PUT option deviceNum (output_array [0x10, 0x04] deviceNum w) in (reply w, w))"

definition ResolveStatus :: "u8 list \<Rightarrow> u8" where
  "ResolveStatus tmp =
     (if tmp ! 0 = 0x08 \<and> tmp ! 1 = 0x40 \<and> tmp ! 2 = 0x28 \<and> tmp ! 3 = 0x0c then KNIFE_ERROR_STATE
      else if tmp ! 0 = 0x08 \<and> tmp ! 1 = 0x44 \<and> tmp ! 2 = 0x20 \<and> tmp ! 3 = 0x0c
        \<or> tmp ! 0 = 0x08 \<and> tmp ! 1 = 0x44 \<and> tmp ! 2 = 0x20 \<and> tmp ! 3 = 0x0c then UNEXPECTED_OPENED_STATE
      else if tmp ! 0 = 0x08 \<and> tmp ! 1 = 0x20 \<and> tmp ! 2 = 0x00 \<and> tmp ! 3 = 0x6c
        \<or> tmp ! 0 = 0x08 \<and> tmp ! 1 = 0x64 \<and> tmp ! 2 = 0x20 \<and> tmp ! 3 = 0x6c then PAPER_INSUFFICIENT_STATE
      else if tmp ! 0 = 0x08 \<and> tmp ! 1 = 0x48 \<and> tmp ! 2 = 0x28 \<and> tmp ! 3 = 0x0c then FILL_IN_PAPER_STATE
      else if tmp ! 0 = 0x00 \<and> tmp ! 1 = 0x00 \<and> tmp ! 2 = 0x00 \<and> tmp ! 3 = 0x0c then NORMAL_STATE
      else NORMAL_STATE)"

definition getPrinterState :: "(wire \<Rightarrow> u8) \<Rightarrow> u8 \<Rightarrow> wire \<Rightarrow> u8 \<times> wire" where
  "getPrinterState reply deviceNum w =
     (let (tmp, w) = fold (\<lambda>i (tmp, w). let (b, w) = stateCheck reply (of_nat (i + 1)) deviceNum w in (tmp[i := b], w))
                       [0 ..< 4] ([0, 0, 0, 0], w)
      in (if tmp ! 0 = 0x08 \<and> tmp ! 1 = 0x40 \<and> tmp ! 2 = 0x28 \<and> tmp ! 3 = 0x0c then KNIFE_ERROR_STATE
          else if tmp ! 0 = 0x08 \<and> tmp ! 1 = 0x44 \<and> tmp ! 2 = 0x20 \<and> tmp ! 3 = 0x0c
            \<or> tmp ! 0 = 0x08 \<and> tmp ! 1 = 0x44 \<and> tmp ! 2 = 0x20 \<and> tmp ! 3 = 0x0c then UNEXPECTED_OPENED_STATE
          else if tmp ! 0 = 0x08 \<and> tmp ! 1 = 0x20 \<and> tmp ! 2 = 0x00 \<and> tmp ! 3 = 0x6c
            \<or> tmp ! 0 = 0x08 \<and> tmp ! 1 = 0x64 \<and> tmp ! 2 = 0x20 \<and> tmp ! 3 = 0x6c then PAPER_INSUFFICIENT_STATE
          else if tmp ! 0 = 0x08 \<and> tmp ! 1 = 0x48 \<and> tmp ! 2 = 0x28 \<and> tmp ! 3 = 0x0c then FILL_IN_PAPER_STATE
          else if tmp ! 0 = 0x00 \<and> tmp ! 1 = 0x00 \<and> tmp ! 2 = 0x00 \<and> tmp ! 3 = 0x0c then NORMAL_STATE
          else NORMAL_STATE, w))"

section \<open>The three-byte counter\<close>

text \<open>The sum of two bytes is an \<^verbatim>\<open>int\<close>, so its remainder is taken before the carry is known.\<close>

definition specialAdditon :: "u8 list \<Rightarrow> u8 \<Rightarrow> u8 list" where
  "specialAdditon mem numsToAdd =
     (if 255 < unat numsToAdd + unat (mem ! 3)
      then let tmp1 = of_nat ((unat numsToAdd + unat (mem ! 3)) mod 255);
               mem = mem[3 := 0]; mem = mem[3 := mem ! 3 + (tmp1 - 1)]
           in if 255 < unat (mem ! 2) + 1
              then let mem = mem[2 := 0] in mem[1 := mem ! 1 + (mem ! 1 + 1)]
              else mem[2 := mem ! 2 + 1]
      else mem[3 := mem ! 3 + numsToAdd])"

section \<open>What is sent\<close>

lemma fold_put: "fold (\<lambda>b. PRINTER_PUT b d) xs w = w @ map (Pair d) xs"
  by (induction xs arbitrary: w) (auto simp: PRINTER_PUT_def)

lemma fold_put_index: "fold (\<lambda>i. PRINTER_PUT (f i) d) is w = w @ map (\<lambda>i. (d, f i)) is"
  by (induction "is" arbitrary: w) (auto simp: PRINTER_PUT_def)

lemma outputData_bytes: "outputData f n d w = (ORDER_CREATED_OK, w @ map (\<lambda>i. (d, f i)) [0 ..< unat n])"
  by (simp add: outputData_def fold_put_index)

lemma map_index: "map (\<lambda>i. (d, xs ! i)) [0 ..< length xs] = map (Pair d) xs"
  by (rule nth_equalityI) auto

lemma output_array_bytes:
  assumes "length xs < 65536"
  shows "output_array xs d w = w @ map (Pair d) xs"
proof -
  have "unat (of_nat (length xs) :: u16) = length xs"
    using assms by (simp add: unat_of_nat take_bit_nat_eq_self)
  then show ?thesis unfolding output_array_def outputData_bytes by (simp add: map_index)
qed

lemma send_loop_ends:
  assumes "unat counter + k = Suc (unat sz)" "sz \<noteq> 65535"
  shows "send_loop f i counter sz d w = Some (w @ map (\<lambda>j. (d, f (i + j))) [0 ..< k])"
  using assms(1)
proof (induction k arbitrary: i counter w)
  case 0
  then have "\<not> counter \<le> sz" by (simp add: word_le_nat_alt)
  then show ?case by (subst send_loop.simps) simp
next
  case (Suc k)
  have le: "counter \<le> sz" using Suc.prems by (simp add: word_le_nat_alt)
  have "unat sz \<noteq> 65535" using assms(2) by (simp add: word_unat_eq_iff)
  then have "unat sz < 65535" using unat_u16 [of sz] by simp
  then have "unat (counter + 1) = unat counter + 1" using Suc.prems by (simp add: unat_word_ariths)
  then have "unat (counter + 1) + k = Suc (unat sz)" using Suc.prems by simp
  then have "send_loop f i counter sz d w = Some ((w @ [(d, f i)]) @ map (\<lambda>j. (d, f (i + 1 + j))) [0 ..< k])"
    using le by (subst send_loop.simps) (simp add: Suc.IH PRINTER_PUT_def)
  also have "map (\<lambda>j. (d, f (i + 1 + j))) [0 ..< k] = map (\<lambda>j. (d, f (i + j))) [1 ..< Suc k]"
    by (rule nth_equalityI) (auto simp: algebra_simps simp del: upt_Suc)
  finally show ?case by (simp add: upt_conv_Cons del: upt_Suc)
qed

lemma send_loop_never:
  assumes "send_loop f i counter sz d w = Some w'"
  shows "sz \<noteq> 65535"
proof (rule send_loop.raw_induct [where P = "\<lambda>f i counter sz d w r. sz \<noteq> 65535", OF _ assms])
  fix sl :: "bytes_at \<Rightarrow> nat \<Rightarrow> u16 \<Rightarrow> u16 \<Rightarrow> u8 \<Rightarrow> wire \<Rightarrow> wire option" and f i counter sz d w r
  assume IH: "\<And>f i counter sz d w r. sl f i counter sz d w = Some r \<Longrightarrow> sz \<noteq> 65535"
    and r: "(if counter \<le> sz then sl f (i + 1) (counter + 1) sz d (PRINTER_PUT (f i) d w) else Some w) = Some r"
  show "sz \<noteq> 65535"
  proof (cases "counter \<le> sz")
    case True
    then show ?thesis using IH r by auto
  next
    case False
    then show ?thesis using unat_u16 [of counter] by (auto simp: word_le_nat_alt)
  qed
qed

text \<open>A halfword size other than 65535 is sent completely.\<close>

lemma mySendData_spec:
  "mySendData f sz d w = (if sz = 65535 then None else Some (w @ map (\<lambda>i. (d, f i)) [0 ..< unat sz]))"
proof (cases "sz = 65535")
  case True
  have "mySendData f sz d w \<noteq> Some w'" for w'
    using send_loop_never [of f 0 1 sz d w w'] True by (auto simp: mySendData_def)
  then show ?thesis using True by auto
next
  case False
  have "unat (1 :: u16) + unat sz = Suc (unat sz)" by simp
  from send_loop_ends [OF this False, of f 0 d w] show ?thesis using False by (simp add: mySendData_def)
qed

lemma send_array_bytes:
  assumes "length xs < 65535"
  shows "send_array xs d w = Some (w @ map (Pair d) xs)"
proof -
  have n: "unat (of_nat (length xs) :: u16) = length xs"
    using assms by (simp add: unat_of_nat take_bit_nat_eq_self)
  then have "(of_nat (length xs) :: u16) \<noteq> 65535" using assms by (auto simp: word_unat_eq_iff)
  then show ?thesis unfolding send_array_def mySendData_spec by (simp add: n map_index)
qed

lemma SEND_STATUS_CMD_bytes: "SEND_STATUS_CMD n d w = w @ map (Pair d) [0x10, 0x04, n]"
  by (simp add: SEND_STATUS_CMD_def PRINTER_PUT_def)

lemma cut_bytes_bytes: "cut_bytes d w = w @ map (Pair d) [0x1b, 0x4a, 0xff, 0x1b, 0x69, 0x1b, 0x40]"
  by (simp add: cut_bytes_def output_array_bytes)

lemma low_byte: "byte 0 (v AND 0x00ff) = byte 0 (v :: u16)"
proof -
  have "v AND 0x00ff = take_bit 8 v" by (simp add: take_bit_eq_mask mask_eq_exp_minus_1)
  then show ?thesis by (simp only: byte_def) (rule bit_word_eqI, auto simp: bit_simps)
qed

lemma high_byte: "byte 0 (drop_bit 8 v) = byte 1 (v :: u16)"
  by (simp add: byte_def)

text \<open>A link of a QR code, between the commands that set it up and print it.\<close>

lemma printQRCode_spec:
  "printQRCode f sz d w = (if sz = 65535 then None else Some (w @ map (Pair d)
     ([0x1b, 0x61, 0x01, 0x1d, 0x01, 0x03, 0x08, 0x1d, 0x01, 0x04, 0x33, 0x1d, 0x01, 0x01, byte 0 sz, byte 1 sz]
      @ map f [0 ..< unat sz] @ [0x1d, 0x01, 0x02, 0x1b, 0x61, 0x03])))"
proof (cases "sz = 65535")
  case True
  then show ?thesis by (simp add: printQRCode_def Let_def send_array_bytes mySendData_spec)
next
  case False
  then show ?thesis
    by (simp add: printQRCode_def Let_def send_array_bytes mySendData_spec PRINTER_PUT_def low_byte high_byte comp_def)
qed

section \<open>Status\<close>

text \<open>The answers that mean a fault.\<close>

definition fault_table :: "(u8 list \<times> u8) list" where
  "fault_table = [([0x08, 0x40, 0x28, 0x0c], KNIFE_ERROR_STATE), ([0x08, 0x44, 0x20, 0x0c], UNEXPECTED_OPENED_STATE),
     ([0x08, 0x20, 0x00, 0x6c], PAPER_INSUFFICIENT_STATE), ([0x08, 0x64, 0x20, 0x6c], PAPER_INSUFFICIENT_STATE),
     ([0x08, 0x48, 0x28, 0x0c], FILL_IN_PAPER_STATE)]"

lemma resolve_table:
  "length tmp = 4 \<Longrightarrow> ResolveStatus tmp = (case map_of fault_table tmp of Some state \<Rightarrow> state | None \<Rightarrow> NORMAL_STATE)"
proof -
  assume "length tmp = 4"
  then obtain a b c d where "tmp = [a, b, c, d]" by (auto simp: length_Suc_conv numeral_eq_Suc)
  then show ?thesis by (simp add: ResolveStatus_def fault_table_def)
qed

lemma resolve_range: "length tmp = 4 \<Longrightarrow> ResolveStatus tmp \<in> {1, 2, 3, 4, NORMAL_STATE}"
  by (simp add: ResolveStatus_def)

lemma SendStatusCheckCmd_bytes: "SendStatusCheckCmd d w =
    SEND_STATUS_CMD_FOUR d (SEND_STATUS_CMD_THREE d (SEND_STATUS_CMD_TWO d (SEND_STATUS_CMD_ONE d w)))"
  unfolding SEND_STATUS_CMD_FOUR_def SEND_STATUS_CMD_THREE_def SEND_STATUS_CMD_TWO_def SEND_STATUS_CMD_ONE_def
    SendStatusCheckCmd_def SEND_STATUS_CMD_bytes
  by (simp add: PRINTER_PUT_def upt_rec)

text \<open>The carries of the three-byte counter.\<close>

definition three_bytes :: "u8 list \<Rightarrow> nat" where
  "three_bytes mem = unat (be32 0 (mem ! 1) (mem ! 2) (mem ! 3))"

lemma special_addition_ok:
  assumes "length mem = 4" "unat k + unat (mem ! 3) < 256 \<or> unat k + unat (mem ! 3) < 510 \<and> unat (mem ! 2) < 255"
  shows "three_bytes (specialAdditon mem k) = three_bytes mem + unat k"
proof -
  let ?s = "unat k + unat (mem ! 3)"
  show ?thesis
  proof (cases "255 < ?s")
    case True
    then have s: "?s mod 255 = ?s - 255" "?s < 510" "unat (mem ! 2) < 255" using assms by (auto simp: mod_if)
    have "unat (of_nat (?s - 255) - 1 :: u8) = ?s - 256"
    proof -
      have "(of_nat (?s - 255) - 1 :: u8) = of_nat (?s - 256)" using True by (simp add: of_nat_diff)
      then show ?thesis using s by (simp add: unat_of_nat take_bit_nat_eq_self)
    qed
    moreover have "unat (mem ! 2 + 1) = unat (mem ! 2) + 1" using s by (simp add: unat_word_ariths)
    ultimately show ?thesis using True s assms(1)
      by (simp add: specialAdditon_def three_bytes_def Let_def unat_be32)
  next
    case False
    then have "unat (mem ! 3 + k) = unat (mem ! 3) + unat k" by (simp add: unat_word_ariths)
    then show ?thesis using False assms(1) by (simp add: specialAdditon_def three_bytes_def unat_be32)
  qed
qed

lemma special_addition_wrong:
  "three_bytes (specialAdditon [0, 0, 0, 255] 255) = three_bytes [0, 0, 0, 255] + 256"
  "three_bytes (specialAdditon [0, 1, 255, 255] 1) = three_bytes [0, 1, 255, 255] + 65537"
  by (simp_all add: specialAdditon_def three_bytes_def unat_be32 unsigned_minus_1_eq_mask mask_eq_exp_minus_1)

section \<open>Properties\<close>

text \<open>C15. Sending a buffer puts exactly its bytes on the port, in order, when its size is below
  65535; for the size 65535 the 16-bit counter never exceeds it and the loop never ends.\<close>

theorem send_data:
  "mySendData f sz d w = (if sz = 65535 then None else Some (w @ map (\<lambda>i. (d, f i)) [0 ..< unat sz]))"
  by (rule mySendData_spec)

text \<open>C16. Asking a printer for its state one byte at a time sends the same twelve bytes as
  \<^verbatim>\<open>SendStatusCheckCmd\<close> and decodes the four answers as \<^verbatim>\<open>ResolveStatus\<close> does; every
  answer that is not one of the five fault words means the normal state.\<close>

theorem printer_state_equiv:
  "getPrinterState reply d w =
     (let w1 = SEND_STATUS_CMD_ONE d w; w2 = SEND_STATUS_CMD_TWO d w1;
          w3 = SEND_STATUS_CMD_THREE d w2; w4 = SEND_STATUS_CMD_FOUR d w3
      in (ResolveStatus [reply w1, reply w2, reply w3, reply w4], w4))
   \<and> snd (getPrinterState reply d w) = SendStatusCheckCmd d w
   \<and> ResolveStatus [a, b, c, e] = (case map_of fault_table [a, b, c, e] of Some state \<Rightarrow> state | None \<Rightarrow> NORMAL_STATE)"
proof -
  have "stateCheck reply n d w = (reply (SEND_STATUS_CMD n d w), SEND_STATUS_CMD n d w)" for n w
    by (simp add: stateCheck_def output_array_bytes SEND_STATUS_CMD_def PRINTER_PUT_def Let_def)
  then have four: "fold (\<lambda>i (tmp, w). let (b, w) = stateCheck reply (of_nat (i + 1)) d w in (tmp[i := b], w)) [0 ..< 4] ([0, 0, 0, 0], w)
     = ([reply (SEND_STATUS_CMD 1 d w), reply (SEND_STATUS_CMD 2 d (SEND_STATUS_CMD 1 d w)),
         reply (SEND_STATUS_CMD 3 d (SEND_STATUS_CMD 2 d (SEND_STATUS_CMD 1 d w))),
         reply (SEND_STATUS_CMD 4 d (SEND_STATUS_CMD 3 d (SEND_STATUS_CMD 2 d (SEND_STATUS_CMD 1 d w))))],
        SEND_STATUS_CMD 4 d (SEND_STATUS_CMD 3 d (SEND_STATUS_CMD 2 d (SEND_STATUS_CMD 1 d w))))"
    by (simp add: upt_rec)
  have "getPrinterState reply d w =
     (let w1 = SEND_STATUS_CMD_ONE d w; w2 = SEND_STATUS_CMD_TWO d w1;
          w3 = SEND_STATUS_CMD_THREE d w2; w4 = SEND_STATUS_CMD_FOUR d w3
      in (ResolveStatus [reply w1, reply w2, reply w3, reply w4], w4))"
    unfolding getPrinterState_def four
    by (simp only: Let_def prod.case SEND_STATUS_CMD_ONE_def
        SEND_STATUS_CMD_TWO_def SEND_STATUS_CMD_THREE_def SEND_STATUS_CMD_FOUR_def ResolveStatus_def)
  then show ?thesis using resolve_table [of "[a, b, c, e]"] by (simp add: SendStatusCheckCmd_bytes Let_def)
qed

end
