(* ===== verification/Eeprom.thy ===== *)
theory Eeprom
  imports Prelude
begin

text \<open>
  The EEPROM driver \<^verbatim>\<open>User/src/i2c_ee.c\<close>: how a write is cut into page writes.  The chip is not
  part of the program: \<open>dev\<close> is what one write transaction does to its bytes and \<open>rd\<close> what a
  sequential read returns, with their documented behaviour as the hypotheses \<open>page_device\<close> and
  \<open>read_device\<close>.
\<close>

type_synonym eeprom = "u8 \<Rightarrow> u8"
type_synonym write_dev = "eeprom \<Rightarrow> u8 \<Rightarrow> u8 list \<Rightarrow> eeprom"
type_synonym read_dev = "eeprom \<Rightarrow> u8 \<Rightarrow> nat \<Rightarrow> u8 list"

abbreviation (input) "I2C_PageSize \<equiv> (8 :: nat)"

section \<open>The driver\<close>

text \<open>A write transaction: the address and the bytes that follow it.\<close>

definition I2C_EE_PageWrite :: "u8 list \<Rightarrow> u8 \<Rightarrow> nat \<Rightarrow> u8 \<times> u8 list" where
  "I2C_EE_PageWrite pBuffer WriteAddr NumByteToWrite = (WriteAddr, take NumByteToWrite pBuffer)"

fun page_loop :: "u8 list \<Rightarrow> u8 \<Rightarrow> nat \<Rightarrow> (u8 \<times> u8 list) list \<times> u8 list \<times> u8" where
  "page_loop pBuffer WriteAddr 0 = ([], pBuffer, WriteAddr)"
| "page_loop pBuffer WriteAddr (Suc NumOfPage) =
     (case page_loop (drop I2C_PageSize pBuffer) (WriteAddr + of_nat I2C_PageSize) NumOfPage of
        (ts, p, a) \<Rightarrow> (I2C_EE_PageWrite pBuffer WriteAddr I2C_PageSize # ts, p, a))"

text \<open>The pages and the rest of a write that starts at a page.\<close>

definition write_pages :: "u8 list \<Rightarrow> u8 \<Rightarrow> u8 \<Rightarrow> u8 \<Rightarrow> (u8 \<times> u8 list) list" where
  "write_pages pBuffer WriteAddr NumOfPage NumOfSingle =
     (case page_loop pBuffer WriteAddr (unat NumOfPage) of
        (ts, p, a) \<Rightarrow> ts @ (if NumOfSingle \<noteq> 0 then [I2C_EE_PageWrite p a (unat NumOfSingle)] else []))"

definition I2C_EE_BufferWrite :: "u8 list \<Rightarrow> u8 \<Rightarrow> u16 \<Rightarrow> (u8 \<times> u8 list) list" where
  "I2C_EE_BufferWrite pBuffer WriteAddr NumByteToWrite =
     (let Addr = WriteAddr mod of_nat I2C_PageSize;
          count = of_nat I2C_PageSize - Addr;
          NumOfPage = ucast (NumByteToWrite div of_nat I2C_PageSize);
          NumOfSingle = ucast (NumByteToWrite mod of_nat I2C_PageSize)
      in if Addr = 0
         then if NumOfPage = 0 then [I2C_EE_PageWrite pBuffer WriteAddr (unat NumOfSingle)]
              else write_pages pBuffer WriteAddr NumOfPage NumOfSingle
         else if NumOfPage = 0 then [I2C_EE_PageWrite pBuffer WriteAddr (unat NumOfSingle)]
              else let NumByteToWrite = NumByteToWrite - ucast count;
                       NumOfPage = ucast (NumByteToWrite div of_nat I2C_PageSize);
                       NumOfSingle = ucast (NumByteToWrite mod of_nat I2C_PageSize)
                   in (if count \<noteq> 0
                       then I2C_EE_PageWrite pBuffer WriteAddr (unat count)
                         # write_pages (drop (unat count) pBuffer) (WriteAddr + count) NumOfPage NumOfSingle
                       else write_pages pBuffer WriteAddr NumOfPage NumOfSingle))"

definition run_writes :: "write_dev \<Rightarrow> (u8 \<times> u8 list) list \<Rightarrow> eeprom \<Rightarrow> eeprom" where
  "run_writes dev ts m = fold (\<lambda>(a, bs) m. dev m a bs) ts m"

definition WriteEEPROM :: "write_dev \<Rightarrow> u8 list \<Rightarrow> u8 \<Rightarrow> u8 \<Rightarrow> eeprom \<Rightarrow> eeprom" where
  "WriteEEPROM dev dat WriteAddr NumByteToWrite m =
     run_writes dev (I2C_EE_BufferWrite dat WriteAddr (ucast NumByteToWrite)) m"

definition ReadEEPROM :: "read_dev \<Rightarrow> u8 \<Rightarrow> u8 \<Rightarrow> eeprom \<Rightarrow> u8 list" where
  "ReadEEPROM rd ReadAddr NumByteToRead m = rd m ReadAddr (unat NumByteToRead)"

definition ClearEEPROM :: "write_dev \<Rightarrow> eeprom \<Rightarrow> eeprom" where
  "ClearEEPROM dev m = WriteEEPROM dev (replicate 256 0) 0x00 0xff m"

section \<open>The chip\<close>

fun store_bytes :: "eeprom \<Rightarrow> u8 \<Rightarrow> u8 list \<Rightarrow> eeprom" where
  "store_bytes m a [] = m"
| "store_bytes m a (b # bs) = store_bytes (m(a := b)) (a + 1) bs"

definition read_bytes :: "eeprom \<Rightarrow> u8 \<Rightarrow> nat \<Rightarrow> u8 list" where
  "read_bytes m a n = map (\<lambda>i. m (a + of_nat i)) [0 ..< n]"

text \<open>A transaction that stays inside a page of \<open>P\<close> bytes stores its bytes; nothing is said of others.\<close>

definition within_page :: "nat \<Rightarrow> u8 \<times> u8 list \<Rightarrow> bool" where
  "within_page P t \<longleftrightarrow> unat (fst t) mod P + length (snd t) \<le> P"

definition page_device :: "nat \<Rightarrow> write_dev \<Rightarrow> bool" where
  "page_device P dev \<longleftrightarrow> (\<forall>m a bs. within_page P (a, bs) \<longrightarrow> dev m a bs = store_bytes m a bs)"

definition read_device :: "read_dev \<Rightarrow> bool" where
  "read_device rd \<longleftrightarrow> (\<forall>m a n. n \<le> 256 \<longrightarrow> rd m a n = read_bytes m a n)"

section \<open>Consecutive transactions\<close>

fun chain :: "u8 \<Rightarrow> (u8 \<times> u8 list) list \<Rightarrow> bool" where
  "chain a [] = True"
| "chain a ((b, bs) # ts) = (b = a \<and> chain (a + of_nat (length bs)) ts)"

lemma store_bytes_append: "store_bytes m a (bs @ cs) = store_bytes (store_bytes m a bs) (a + of_nat (length bs)) cs"
  by (induction bs arbitrary: m a) (auto simp: algebra_simps)

lemma run_chain:
  assumes "page_device P dev" "chain a ts" "\<forall>t \<in> set ts. within_page P t"
  shows "run_writes dev ts m = store_bytes m a (concat (map snd ts))"
  using assms(2,3)
proof (induction ts arbitrary: a m)
  case (Cons t ts)
  obtain b bs where t: "t = (b, bs)" by (cases t)
  have "run_writes dev (t # ts) m = run_writes dev ts (store_bytes m a bs)"
    using Cons.prems t assms(1) by (simp add: run_writes_def page_device_def)
  then show ?case using Cons t by (simp add: store_bytes_append)
qed (simp add: run_writes_def)

lemma within_page_multiple: "within_page P t \<Longrightarrow> 0 < P \<Longrightarrow> P dvd Q \<Longrightarrow> 0 < Q \<Longrightarrow> within_page Q t"
proof -
  assume a: "within_page P t" "0 < P" "P dvd Q" "0 < Q"
  let ?x = "unat (fst t)"
  obtain k where k: "Q = P * k" using a(3) by (auto elim: dvdE)
  have "?x mod Q = P * (?x div P mod k) + ?x mod P" by (simp add: k mod_mult2_eq)
  moreover have "?x div P mod k < k" using k a by simp
  then have "P * (?x div P mod k) + P \<le> Q" using k by (metis Suc_leI mult_Suc_right mult_le_mono2 add.commute)
  ultimately show ?thesis using a(1) by (simp add: within_page_def)
qed

text \<open>What the loop over the pages writes, from the start of a page.\<close>

lemma page_loop_spec:
  assumes "8 * k \<le> length p" "unat a mod 8 = 0" "page_loop p a k = (ts, p', a')"
  shows "chain a ts \<and> concat (map snd ts) = take (8 * k) p \<and> p' = drop (8 * k) p \<and> a' = a + of_nat (8 * k)
    \<and> (\<forall>t \<in> set ts. within_page 8 t)"
  using assms
proof (induction k arbitrary: p a ts)
  case (Suc k)
  obtain ts1 where t: "page_loop (drop 8 p) (a + 8) k = (ts1, p', a')" "ts = (a, take 8 p) # ts1"
    using Suc.prems(3) by (auto simp: I2C_EE_PageWrite_def split: prod.splits)
  have "unat (a + 8) mod 8 = (unat a + 8) mod 256 mod 8" by (simp add: unat_word_ariths)
  also have "\<dots> = (unat a + 8) mod 8" by (simp add: mod_mod_cancel)
  also have "\<dots> = 0" using Suc.prems(2) by simp
  finally have "chain (a + 8) ts1 \<and> concat (map snd ts1) = take (8 * k) (drop 8 p) \<and> p' = drop (8 * k) (drop 8 p)
      \<and> a' = a + 8 + of_nat (8 * k) \<and> (\<forall>t \<in> set ts1. within_page 8 t)"
    using Suc.prems(1) by (intro Suc.IH) (auto simp: t(1))
  moreover have "take (8 * Suc k) p = take 8 p @ take (8 * k) (drop 8 p)" by (simp add: take_add)
  moreover have "within_page 8 (a, take 8 p)" using Suc.prems(2) by (simp add: within_page_def)
  moreover have "length (take 8 p) = 8" using Suc.prems(1) by simp
  ultimately show ?case using t(2) by (simp add: algebra_simps del: length_take)
qed simp

lemma write_pages_spec:
  assumes "length p = 8 * unat k + unat r" "unat r < 8" "unat a mod 8 = 0"
  shows "chain a (write_pages p a k r) \<and> concat (map snd (write_pages p a k r)) = p
    \<and> (\<forall>t \<in> set (write_pages p a k r). within_page 8 t)"
proof -
  obtain ts p' a' where l: "page_loop p a (unat k) = (ts, p', a')" by (metis prod_cases3)
  have s: "chain a ts" "concat (map snd ts) = take (8 * unat k) p" "p' = drop (8 * unat k) p" "a' = a + of_nat (8 * unat k)"
    "\<forall>t \<in> set ts. within_page 8 t"
    using page_loop_spec [OF _ assms(3) l] assms(1) by auto
  have "chain a (ts @ [(a', x)])" for x
  proof -
    have *: "chain a us \<Longrightarrow> chain a (us @ [(a + of_nat (length (concat (map snd us))), x)])" for us a
      by (induction us arbitrary: a) (auto simp: add.assoc [symmetric])
    have "length (concat (map snd ts)) = 8 * unat k" using s(2) assms(1) by simp
    then show ?thesis using * [OF s(1)] s(4) by simp
  qed
  moreover have "unat a' mod 8 = 0"
  proof -
    have "unat a' = (unat a + 8 * unat k) mod 256" using s(4) by (simp add: unat_word_ariths unat_of_nat mod_simps)
    then have "unat a' mod 8 = (unat a + 8 * unat k) mod 8" by (simp add: mod_mod_cancel)
    then show ?thesis using assms(3) by (simp add: mod_add_left_eq [symmetric])
  qed
  moreover have "r \<noteq> 0 \<longrightarrow> take (unat r) p' = p'" "r = 0 \<longrightarrow> p' = []" using s(3) assms(1) by auto
  ultimately show ?thesis using s l assms(1,2)
    by (auto simp: write_pages_def I2C_EE_PageWrite_def within_page_def append_take_drop_id)
qed

lemma mod_8 [simp]: "unat ((a :: u8) mod 8) = unat a mod 8" "unat ((n :: u16) mod 8) = unat n mod 8"
    "unat ((n :: u16) div 8) = unat n div 8"
  by (simp_all add: unat_mod_distrib unat_div_distrib)

lemma unat_ucast_8: "unat (n :: u16) < 256 \<Longrightarrow> unat (ucast n :: u8) = unat n"
  by (simp add: unsigned_ucast_eq take_bit_nat_eq_self)

text \<open>The bytes always come in order; they stay inside pages but for a short write over the end of one.\<close>

lemma buffer_write_spec:
  assumes "length p = unat n" "unat n \<le> 2047"
  shows "chain a (I2C_EE_BufferWrite p a n) \<and> concat (map snd (I2C_EE_BufferWrite p a n)) = p
    \<and> ((\<forall>t \<in> set (I2C_EE_BufferWrite p a n). within_page 8 t)
         \<longleftrightarrow> unat a mod 8 = 0 \<or> 8 \<le> unat n \<or> unat a mod 8 + unat n \<le> 8)"
proof -
  let ?A = "a mod 8" and ?c = "8 - a mod 8"
  have A: "unat ?A < 8" by simp
  have q: "unat (ucast (n div 8) :: u8) = unat n div 8" "unat (ucast (n mod 8) :: u8) = unat n mod 8"
    using assms(2) by (simp_all add: unat_ucast_8)
  have A0: "?A = 0 \<longleftrightarrow> unat a mod 8 = 0" by (simp add: word_unat_eq_iff)
  have q0: "(ucast (n div 8) :: u8) = 0 \<longleftrightarrow> unat n < 8" by (simp add: word_unat_eq_iff q(1) div_eq_0_iff)
  show ?thesis
  proof (cases "unat n < 8")
    case True
    then have "I2C_EE_BufferWrite p a n = [(a, p)]"
      using q assms(1) q0 by (simp add: I2C_EE_BufferWrite_def Let_def I2C_EE_PageWrite_def)
    then show ?thesis using True by (auto simp: within_page_def assms(1))
  next
    case False
    show ?thesis
    proof (cases "?A = 0")
      case True
      have "length p = 8 * unat (ucast (n div 8) :: u8) + unat (ucast (n mod 8) :: u8)" using assms(1) q by simp
      then show ?thesis
        using write_pages_spec [of p "ucast (n div 8)" "ucast (n mod 8)" a] True q(2) False A0 q0
        by (simp add: I2C_EE_BufferWrite_def Let_def)
    next
      case shift: False
      have c: "unat ?c = 8 - unat a mod 8" "0 < unat ?c" "unat ?c \<le> 8"
        using A by (simp_all add: unat_sub word_le_nat_alt)
      let ?n = "n - ucast ?c"
      have n: "unat ?n = unat n - unat ?c"
        using c(3) False by (simp add: unat_sub word_le_nat_alt unsigned_ucast_eq take_bit_nat_eq_self)
      have r: "unat (ucast (?n div 8) :: u8) = unat ?n div 8" "unat (ucast (?n mod 8) :: u8) = unat ?n mod 8"
        using assms(2) n by (simp_all add: unat_ucast_8)
      have a': "unat (a + ?c) mod 8 = 0"
      proof -
        have "unat (a + ?c) mod 8 = (unat a + unat ?c) mod 256 mod 8" by (simp add: unat_word_ariths)
        also have "\<dots> = (unat a + unat ?c) mod 8" by (simp add: mod_mod_cancel)
        also have "\<dots> = (unat a mod 8 + (8 - unat a mod 8)) mod 8" by (simp only: c(1) mod_add_left_eq)
        also have "unat a mod 8 + (8 - unat a mod 8) = 8" using mod_less_divisor [of 8 "unat a"] by linarith
        finally show ?thesis by simp
      qed
      have "length (drop (unat ?c) p) = 8 * unat (ucast (?n div 8) :: u8) + unat (ucast (?n mod 8) :: u8)"
        using assms(1) r n by simp
      note w = write_pages_spec [OF this _ a']
      have "I2C_EE_BufferWrite p a n = (a, take (unat ?c) p)
          # write_pages (drop (unat ?c) p) (a + ?c) (ucast (?n div 8)) (ucast (?n mod 8))"
        using shift c q0 False by (auto simp: I2C_EE_BufferWrite_def Let_def I2C_EE_PageWrite_def)
      moreover have "within_page 8 (a, take (unat ?c) p)" using c(1) A by (simp add: within_page_def)
      moreover have "length (take (unat ?c) p) = unat ?c" using assms(1) c(3) False by simp
      ultimately show ?thesis using w r(2) False by simp
    qed
  qed
qed

lemma WriteEEPROM_store:
  assumes "page_device P dev" "P = 8 \<or> P = 16 \<or> P = 32" "length p = unat n"
    "unat a mod 8 = 0 \<or> 8 \<le> unat n \<or> unat a mod 8 + unat n \<le> 8"
  shows "WriteEEPROM dev p a n m = store_bytes m a p"
proof -
  have "unat n < 256" by (rule unat_u8)
  moreover from this have n: "unat (ucast n :: u16) = unat n" by (simp add: unsigned_ucast_eq take_bit_nat_eq_self)
  ultimately have s: "chain a (I2C_EE_BufferWrite p a (ucast n))" "concat (map snd (I2C_EE_BufferWrite p a (ucast n))) = p"
    "\<forall>t \<in> set (I2C_EE_BufferWrite p a (ucast n)). within_page 8 t"
    using buffer_write_spec [of p "ucast n" a] assms(3,4) n by auto
  have "\<forall>t \<in> set (I2C_EE_BufferWrite p a (ucast n)). within_page P t"
    using s(3) assms(2) within_page_multiple [of 8 _ P] by auto
  then show ?thesis using run_chain [OF assms(1) s(1)] s(2) by (simp add: WriteEEPROM_def)
qed

section \<open>Reading back\<close>

lemma store_bytes_other: "(\<And>i. i < length bs \<Longrightarrow> x \<noteq> a + of_nat i) \<Longrightarrow> store_bytes m a bs x = m x"
proof (induction bs arbitrary: m a)
  case (Cons b bs)
  have "x \<noteq> (a + 1) + of_nat i" if "i < length bs" for i using Cons.prems [of "Suc i"] that by (simp add: algebra_simps)
  moreover have "x \<noteq> a" using Cons.prems [of 0] by simp
  ultimately show ?case using Cons.IH by simp
qed simp

lemma offset_inj:
  assumes "i < 256" "j < 256" "(a :: u8) + of_nat i = a + of_nat j"
  shows "i = j"
proof -
  have "unat (of_nat i :: u8) = unat (of_nat j :: u8)" using assms(3) by simp
  then show ?thesis using assms(1,2) by (simp add: unat_of_nat take_bit_nat_eq_self)
qed

lemma store_bytes_same: "i < length bs \<Longrightarrow> length bs \<le> 256 \<Longrightarrow> store_bytes m a bs (a + of_nat i) = bs ! i"
proof (induction bs arbitrary: m a i)
  case (Cons b bs)
  show ?case
  proof (cases i)
    case 0
    have "a \<noteq> (a + 1) + of_nat j" if "j < length bs" for j
      using offset_inj [of 0 "Suc j" a] that Cons.prems(2) by (auto simp: algebra_simps)
    then show ?thesis using 0 store_bytes_other [of bs a "a + 1" "m(a := b)"] by simp
  next
    case (Suc j)
    have "store_bytes m a (b # bs) (a + of_nat i) = store_bytes (m(a := b)) (a + 1) bs ((a + 1) + of_nat j)"
      unfolding Suc by (simp add: add.assoc del: fun_upd_apply)
    then show ?thesis using Cons.IH [of j "m(a := b)" "a + 1"] Cons.prems Suc by (simp del: fun_upd_apply store_bytes.simps)
  qed
qed simp

lemma read_store: "length bs \<le> 256 \<Longrightarrow> read_bytes (store_bytes m a bs) a (length bs) = bs"
  by (rule nth_equalityI) (simp_all add: read_bytes_def store_bytes_same)

section \<open>Properties\<close>

text \<open>C20. A write reaches the chip as page writes of consecutive bytes that together are the
  buffer.  They stay inside eight-byte pages unless a write shorter than a page starts inside a page
  and ends beyond it: that one is sent as a single transaction over the page boundary.\<close>

theorem eeprom_page_writes:
  assumes "length p = unat n" "unat n \<le> 2047"
  shows "chain a (I2C_EE_BufferWrite p a n) \<and> concat (map snd (I2C_EE_BufferWrite p a n)) = p
    \<and> ((\<forall>t \<in> set (I2C_EE_BufferWrite p a n). within_page 8 t)
         \<longleftrightarrow> unat a mod 8 = 0 \<or> 8 \<le> unat n \<or> unat a mod 8 + unat n \<le> 8)"
  using assms by (rule buffer_write_spec)

theorem eeprom_page_writes_witness:
  "chain 5 (I2C_EE_BufferWrite (replicate 12 7) 5 12) \<and> concat (map snd (I2C_EE_BufferWrite (replicate 12 7) 5 12)) = replicate 12 7
   \<and> list_all (within_page 8) (I2C_EE_BufferWrite (replicate 12 7) 5 12)
   \<and> \<not> list_all (within_page 8) (I2C_EE_BufferWrite (replicate 4 7) 0x36 4)"
  using eeprom_page_writes [of "replicate 12 7" 12 5] eeprom_page_writes [of "replicate 4 7" 4 "0x36"] by (simp add: list_all_iff)

end
