(* ===== verification/Print_Cells.thy ===== *)
theory Print_Cells
  imports Order_Store Status_Messages Printer_Port Eeprom
begin

text \<open>
  The print cells of \<^verbatim>\<open>User/src/print_cells.c\<close> and the health check of
  \<^verbatim>\<open>User/src/status_mesg.c\<close>: the state of the two printers, the dispatch of a job, the table of
  orders to print again, the handling of a printer's answer and the totals kept in the EEPROM.
  Critical sections, handlers and posts are atomic steps.  The signed bytes of order entries are
  words, so that \<open>-1\<close> is \<open>255\<close>; using an array out of its range is the value \<^term>\<open>None\<close>.
\<close>

section \<open>State\<close>

datatype PrintCellStatus = PRINT_CELL_STATUS_IDLE | PRINT_CELL_STATUS_BUSY | PRINT_CELL_STATUS_ERR

record PrintCellInfo =
  pc_no :: u8
  pc_entryIndex :: u8
  pc_status :: PrintCellStatus
  pc_health_status :: u8
  pc_totalTime :: u32
  pc_cutCnt :: u32
  pc_totalLength :: u32
  pc_exceptCnt :: "u8 list"
  pc_workedTime :: u32
  pc_beginTick :: u32
  pc_endTick :: u32
  pc_printBeginSem :: u16
  pc_printDoneSem :: u16

record print_sys =
  ps_store :: order_store
  ps_mesg :: mesg_state
  ps_resrcSem :: u16
  ps_cells :: "PrintCellInfo list"
  ps_RestoreOrderTable :: "u8 list"
  ps_Print_Sem :: u16
  ps_Printer_Status_Rec_Sem :: u16
  ps_cell_cutCnt :: "u16 list"
  ps_tmp :: "u8 list"
  ps_cnt :: u8
  ps_needCutPaper :: "bool list"
  ps_eeprom :: eeprom
  ps_wire :: wire
  ps_now :: u32

abbreviation (input) "MAX_CELL_NUM \<equiv> (2 :: nat)"
abbreviation (input) "EXCEPTION_NUM \<equiv> (5 :: nat)"
abbreviation (input) "ORDER_DATA_ERR \<equiv> (4 :: u8)"
abbreviation (input) "ORDER_DATA_OK \<equiv> (5 :: u8)"
abbreviation (input) "PRINTER_HEALTH_HEALTHY \<equiv> (0x0e :: u8)"
abbreviation (input) "PRITNER_HEALTH_SUB_HEALTH \<equiv> (0x0f :: u8)"
abbreviation (input) "PRINTER_HEALTH_UNHEALTHY \<equiv> (0x10 :: u8)"
abbreviation (input) "DEVICE_ONE_START_ADDR \<equiv> (0x00 :: u8)"
abbreviation (input) "DEVICE_TWO_START_ADDR \<equiv> (0x32 :: u8)"

abbreviation cell :: "print_sys \<Rightarrow> nat \<Rightarrow> PrintCellInfo" where
  "cell s i \<equiv> ps_cells s ! i"

definition upd_cell :: "nat \<Rightarrow> (PrintCellInfo \<Rightarrow> PrintCellInfo) \<Rightarrow> print_sys \<Rightarrow> print_sys" where
  "upd_cell i f s = s\<lparr>ps_cells := (ps_cells s)[i := f (cell s i)]\<rparr>"

definition put_wire :: "(wire \<Rightarrow> wire) \<Rightarrow> print_sys \<Rightarrow> print_sys" where
  "put_wire f s = s\<lparr>ps_wire := f (ps_wire s)\<rparr>"

definition send_mesg :: "(mesg_state \<Rightarrow> mesg_state) \<Rightarrow> print_sys \<Rightarrow> print_sys" where
  "send_mesg f s = s\<lparr>ps_mesg := f (ps_mesg s)\<rparr>"

abbreviation order_of :: "print_sys \<Rightarrow> u8 \<Rightarrow> order_info" where
  "order_of s e \<equiv> node (st_table (ps_store s)) e"

definition set_order_status :: "u8 \<Rightarrow> u8 \<Rightarrow> print_sys \<Rightarrow> print_sys" where
  "set_order_status e st s = s\<lparr>ps_store := (ps_store s)\<lparr>st_table :=
     set_data (unat e) ((order_of s e)\<lparr>oi_status := st\<rparr>) (st_table (ps_store s))\<rparr>\<rparr>"

section \<open>Starting up\<close>

definition InitRestoreOrderQueue :: "print_sys \<Rightarrow> print_sys" where
  "InitRestoreOrderQueue s =
     s\<lparr>ps_RestoreOrderTable := fold (\<lambda>i t. t[i := 255]) [0 ..< MAX_CELL_NUM] (ps_RestoreOrderTable s)\<rparr>"

definition InitPrintCellsMgr :: "print_sys \<Rightarrow> print_sys" where
  "InitPrintCellsMgr s =
     fold (\<lambda>i. upd_cell i (\<lambda>c. c\<lparr>pc_no := 1 + of_nat i, pc_status := PRINT_CELL_STATUS_ERR, pc_entryIndex := 255,
               pc_health_status := PRINTER_HEALTH_UNHEALTHY, pc_printBeginSem := 0, pc_printDoneSem := 0\<rparr>))
       [0 ..< MAX_CELL_NUM] (s\<lparr>ps_resrcSem := 0\<rparr>)"

section \<open>Dispatch\<close>

text \<open>The entry of the first slot that is not negative, which is cleared.\<close>

definition GetRestoredOrder :: "print_sys \<Rightarrow> u8 option \<times> print_sys" where
  "GetRestoredOrder s =
     (case List.find (\<lambda>i. 0 \<le> sint (ps_RestoreOrderTable s ! i)) [0 ..< MAX_CELL_NUM] of
        Some i \<Rightarrow> (Some (ps_RestoreOrderTable s ! i), s\<lparr>ps_RestoreOrderTable := (ps_RestoreOrderTable s)[i := 255]\<rparr>)
      | None \<Rightarrow> (None, s))"

text \<open>The critical section of \<^verbatim>\<open>GetIdlePrintCell\<close>, after the wait for \<^verbatim>\<open>resrcSem\<close>.\<close>

definition take_idle :: "print_sys \<Rightarrow> nat option \<times> print_sys" where
  "take_idle s =
     (case List.find (\<lambda>i. pc_status (cell s i) = PRINT_CELL_STATUS_IDLE) [0 ..< MAX_CELL_NUM] of
        Some i \<Rightarrow> (Some i, upd_cell i (\<lambda>c. c\<lparr>pc_status := PRINT_CELL_STATUS_BUSY\<rparr>) s)
      | None \<Rightarrow> (None, s))"

definition GetIdlePrintCell :: "print_sys \<Rightarrow> (nat option \<times> print_sys) option" where
  "GetIdlePrintCell s =
     (case OSSemPend (ps_resrcSem s) of None \<Rightarrow> None | Some n \<Rightarrow> Some (take_idle (s\<lparr>ps_resrcSem := n\<rparr>)))"

definition start_job :: "u8 \<Rightarrow> nat option \<times> print_sys \<Rightarrow> print_sys" where
  "start_job entryIndex r =
     (case r of (None, s) \<Rightarrow> s
      | (Some i, s) \<Rightarrow> upd_cell i (\<lambda>c. c\<lparr>pc_entryIndex := entryIndex, pc_printBeginSem := OSSemPost (pc_printBeginSem c)\<rparr>) s)"

text \<open>\<^term>\<open>None\<close> is the wait for a free cell.\<close>

definition DispensePrintJob :: "u8 \<Rightarrow> print_sys \<Rightarrow> print_sys option" where
  "DispensePrintJob entryIndex s = map_option (start_job entryIndex) (GetIdlePrintCell s)"

definition PutRestoredOrder :: "u8 \<Rightarrow> u8 \<Rightarrow> print_sys \<Rightarrow> print_sys" where
  "PutRestoredOrder no entryIndex s =
     s\<lparr>ps_RestoreOrderTable := (ps_RestoreOrderTable s)[unat (no - 1) := entryIndex],
       ps_Print_Sem := OSSemPost (ps_Print_Sem s)\<rparr>"

definition PutPrintCell :: "u8 \<Rightarrow> PrintCellStatus \<Rightarrow> print_sys \<Rightarrow> print_sys" where
  "PutPrintCell no st s =
     (let i = unat (no - 1); entryIndex = pc_entryIndex (cell s i);
          s = upd_cell i (\<lambda>c. c\<lparr>pc_status := st, pc_entryIndex := 255\<rparr>) s
      in if st = PRINT_CELL_STATUS_ERR then PutRestoredOrder no entryIndex s
         else s\<lparr>ps_resrcSem := OSSemPost (ps_resrcSem s)\<rparr>)"

section \<open>Totals\<close>

definition cutPaper :: "u8 \<Rightarrow> print_sys \<Rightarrow> print_sys" where
  "cutPaper deviceNum s =
     put_wire (cut_bytes deviceNum) (upd_cell (unat (deviceNum - 1)) (\<lambda>c. c\<lparr>pc_cutCnt := pc_cutCnt c + 1\<rparr>) s)"

definition errMsg :: "u8 list" where
  "errMsg = [10, 10] @ map of_char ''          This was a invalid order :(          '' @ [10]
     @ map of_char '' ;) But don't worry.I may try it again lagter  '' @ [10, 10, 0]"

definition OutputErrorTag :: "u8 \<Rightarrow> print_sys \<Rightarrow> print_sys" where
  "OutputErrorTag cellno = put_wire (output_array errMsg cellno)"

definition le_bytes :: "u32 \<Rightarrow> u8 list" where
  "le_bytes w = [byte 0 w, byte 1 w, byte 2 w, byte 3 w]"

definition le_word :: "u8 list \<Rightarrow> u32" where
  "le_word bs = be32 (bs ! 3) (bs ! 2) (bs ! 1) (bs ! 0)"

text \<open>The totals of a cell are written and read one after the other, each counter of faults as one byte.\<close>

definition WritePrintCellInfo :: "write_dev \<Rightarrow> u8 \<Rightarrow> print_sys \<Rightarrow> print_sys" where
  "WritePrintCellInfo dev no s =
     (let addr = (if no = 1 then DEVICE_ONE_START_ADDR else if no = 2 then DEVICE_TWO_START_ADDR else 0);
          c = cell s (unat (no - 1)); m = ps_eeprom s;
          m = WriteEEPROM dev (le_bytes (pc_totalTime c)) addr 4 m; addr = addr + 4;
          m = WriteEEPROM dev (le_bytes (pc_cutCnt c)) addr 4 m; addr = addr + 4;
          m = WriteEEPROM dev (le_bytes (pc_totalLength c)) addr 4 m; addr = addr + 4;
          m = WriteEEPROM dev [pc_exceptCnt c ! unat KNIFE_ERROR_STATE] addr 1 m; addr = addr + 1;
          m = WriteEEPROM dev [pc_exceptCnt c ! unat UNEXPECTED_OPENED_STATE] addr 1 m; addr = addr + 1;
          m = WriteEEPROM dev [pc_exceptCnt c ! unat PAPER_INSUFFICIENT_STATE] addr 1 m; addr = addr + 1;
          m = WriteEEPROM dev [pc_exceptCnt c ! unat FILL_IN_PAPER_STATE] addr 1 m
      in s\<lparr>ps_eeprom := m\<rparr>)"

definition read_cell_info :: "read_dev \<Rightarrow> eeprom \<Rightarrow> u8 \<Rightarrow> PrintCellInfo \<Rightarrow> PrintCellInfo" where
  "read_cell_info rd m addr c =
     (let c = c\<lparr>pc_totalTime := le_word (ReadEEPROM rd addr 4 m)\<rparr>; addr = addr + 4;
          c = c\<lparr>pc_cutCnt := le_word (ReadEEPROM rd addr 4 m)\<rparr>; addr = addr + 4;
          c = c\<lparr>pc_totalLength := le_word (ReadEEPROM rd addr 4 m)\<rparr>; addr = addr + 4;
          c = c\<lparr>pc_exceptCnt := (pc_exceptCnt c)[unat KNIFE_ERROR_STATE := ReadEEPROM rd addr 1 m ! 0]\<rparr>; addr = addr + 1;
          c = c\<lparr>pc_exceptCnt := (pc_exceptCnt c)[unat UNEXPECTED_OPENED_STATE := ReadEEPROM rd addr 1 m ! 0]\<rparr>; addr = addr + 1;
          c = c\<lparr>pc_exceptCnt := (pc_exceptCnt c)[unat PAPER_INSUFFICIENT_STATE := ReadEEPROM rd addr 1 m ! 0]\<rparr>; addr = addr + 1
      in c\<lparr>pc_exceptCnt := (pc_exceptCnt c)[unat FILL_IN_PAPER_STATE := ReadEEPROM rd addr 1 m ! 0]\<rparr>)"

definition ReadPrintCellsInfo :: "read_dev \<Rightarrow> print_sys \<Rightarrow> print_sys" where
  "ReadPrintCellsInfo rd s =
     fold (\<lambda>i s. upd_cell i (read_cell_info rd (ps_eeprom s) (if i = 0 then DEVICE_ONE_START_ADDR else DEVICE_TWO_START_ADDR)) s)
       [0 ..< MAX_CELL_NUM] s"

definition DealwithDMA :: "u8 \<Rightarrow> print_sys \<Rightarrow> print_sys" where
  "DealwithDMA cellno s =
     upd_cell (unat (cellno - 1)) (\<lambda>c. let c = c\<lparr>pc_endTick := ps_now s\<rparr>; t = (pc_endTick c - pc_beginTick c) * 20 div 100
        in c\<lparr>pc_totalTime := pc_totalTime c + t, pc_workedTime := pc_workedTime c + t\<rparr>) s"

section \<open>The answer of a printer\<close>

text \<open>A cell that is not busy.\<close>

definition deal_not_busy :: "u8 \<Rightarrow> u8 \<Rightarrow> print_sys \<Rightarrow> print_sys" where
  "deal_not_busy cellno st s =
     (let i = unat (cellno - 1);
          s = (if pc_status (cell s i) = PRINT_CELL_STATUS_ERR
               then if st = NORMAL_STATE then PutPrintCell cellno PRINT_CELL_STATUS_IDLE s else s
               else if pc_status (cell s i) = PRINT_CELL_STATUS_IDLE
               then if st \<noteq> NORMAL_STATE
                    then (upd_cell i (\<lambda>c. c\<lparr>pc_status := PRINT_CELL_STATUS_ERR\<rparr>) s)\<lparr>ps_resrcSem := snd (OSSemAccept (ps_resrcSem s))\<rparr>
                    else s
               else s)
      in s\<lparr>ps_Printer_Status_Rec_Sem := OSSemPost (ps_Printer_Status_Rec_Sem s)\<rparr>)"

text \<open>The order of a busy cell that has been sent completely: printed, or to be printed again.\<close>

definition job_printed :: "u8 \<Rightarrow> print_sys \<Rightarrow> print_sys" where
  "job_printed e s =
     (let s = set_order_status e PRINT_STATUS_OK s in s\<lparr>ps_store := snd (Delete_Order (ps_store s) e)\<rparr>)"

definition job_failed :: "write_dev \<Rightarrow> u8 \<Rightarrow> u8 \<Rightarrow> u8 \<Rightarrow> print_sys \<Rightarrow> print_sys" where
  "job_failed dev cellno st e s =
     (let s = set_order_status e PRINT_STATUS_MACHINE_ERR s;
          s = upd_cell (unat (cellno - 1)) (\<lambda>c. c\<lparr>pc_exceptCnt := (pc_exceptCnt c)[unat st := pc_exceptCnt c ! unat st + 1]\<rparr>) s;
          s = send_mesg (Printer_Status_Send (ucast cellno) st) s
      in OutputErrorTag cellno (WritePrintCellInfo dev cellno s))"

definition DealwithOrder :: "write_dev \<Rightarrow> u8 \<Rightarrow> u8 list \<Rightarrow> print_sys \<Rightarrow> print_sys option" where
  "DealwithOrder dev cellno tmp s =
     (let st = ResolveStatus tmp; i = unat (cellno - 1); e = pc_entryIndex (cell s i)
      in if pc_status (cell s i) = PRINT_CELL_STATUS_BUSY
         then if \<not> in_table (st_table (ps_store s)) e then None
           else if oi_status (order_of s e) = ORDER_DATA_OK
           then let s = (if st = NORMAL_STATE then job_printed e s else job_failed dev cellno st e s);
                    cellStatus = (if st = NORMAL_STATE then PRINT_CELL_STATUS_IDLE else PRINT_CELL_STATUS_ERR);
                    s = PutPrintCell cellno cellStatus (cutPaper cellno s)
                in if st = 0x01 \<and> length (ps_cell_cutCnt s) \<le> unat cellno then None
                   else let s = (if st = 0x01 then s\<lparr>ps_cell_cutCnt := (ps_cell_cutCnt s)[unat cellno := ps_cell_cutCnt s ! unat cellno + 1]\<rparr> else s);
                            s = send_mesg (Order_Print_Status_Send (order_of s e) (oi_status (order_of s e))) s
                        in Some (upd_cell i (\<lambda>c. c\<lparr>pc_printDoneSem := OSSemPost (pc_printDoneSem c)\<rparr>) s)
           else Some s
         else Some (deal_not_busy cellno st s))"

text \<open>The buffer of the answer and its counter are static: both printers share them.\<close>

definition CheckPrintStatue :: "write_dev \<Rightarrow> u8 \<Rightarrow> u8 \<Rightarrow> print_sys \<Rightarrow> (int \<times> print_sys) option" where
  "CheckPrintStatue dev cellno received s =
     (if length (ps_tmp s) \<le> unat (ps_cnt s) then None
      else let s = s\<lparr>ps_tmp := (ps_tmp s)[unat (ps_cnt s) := received], ps_cnt := ps_cnt s + 1\<rparr>
           in if ps_cnt s = 1 then Some (1, put_wire (SEND_STATUS_CMD_TWO cellno) s)
              else if ps_cnt s = 2 then Some (1, put_wire (SEND_STATUS_CMD_THREE cellno) s)
              else if ps_cnt s = 3 then Some (1, put_wire (SEND_STATUS_CMD_FOUR cellno) s)
              else if ps_cnt s = 4
              then case DealwithOrder dev cellno (ps_tmp s) s of None \<Rightarrow> None | Some s \<Rightarrow> Some (0, s\<lparr>ps_cnt := 0\<rparr>)
              else Some (-1, s\<lparr>ps_cnt := 0\<rparr>))"

definition USART1_Hook :: "write_dev \<Rightarrow> u8 \<Rightarrow> print_sys \<Rightarrow> print_sys option" where
  "USART1_Hook dev received s = map_option snd (CheckPrintStatue dev 1 received s)"

definition UART4_Hook :: "write_dev \<Rightarrow> u8 \<Rightarrow> print_sys \<Rightarrow> print_sys option" where
  "UART4_Hook dev received s = map_option snd (CheckPrintStatue dev 2 received s)"

section \<open>The health check\<close>

definition getHealthValue :: "nat \<Rightarrow> print_sys \<Rightarrow> u8" where
  "getHealthValue i s =
     (if 100000000 < pc_totalTime (cell s i) then PRITNER_HEALTH_SUB_HEALTH
      else if 1000000 < pc_cutCnt (cell s i) then PRITNER_HEALTH_SUB_HEALTH
      else if 10000000 < pc_totalLength (cell s i) then PRITNER_HEALTH_SUB_HEALTH
      else if 10000 < pc_workedTime (cell s i) then PRITNER_HEALTH_SUB_HEALTH
      else PRINTER_HEALTH_HEALTHY)"

text \<open>The two halves of a round for cell \<open>i\<close>: the question, and what follows the answer or the timeout.\<close>

definition health_ask :: "nat \<Rightarrow> print_sys \<Rightarrow> print_sys" where
  "health_ask i s =
     (if pc_status (cell s i) \<noteq> PRINT_CELL_STATUS_BUSY then put_wire (SEND_STATUS_CMD_ONE (pc_no (cell s i))) s else s)"

definition health_report :: "nat \<Rightarrow> u8 \<Rightarrow> print_sys \<Rightarrow> print_sys" where
  "health_report i v s =
     (if pc_health_status (cell s i) \<noteq> v
      then upd_cell i (\<lambda>c. c\<lparr>pc_health_status := v\<rparr>) (send_mesg (Printer_Status_Send (of_nat i) v) s)
      else s)"

definition health_timeout :: "nat \<Rightarrow> print_sys \<Rightarrow> print_sys" where
  "health_timeout i s =
     (if pc_status (cell s i) = PRINT_CELL_STATUS_ERR then s
      else health_report i PRINTER_HEALTH_UNHEALTHY
             (upd_cell i (\<lambda>c. c\<lparr>pc_status := PRINT_CELL_STATUS_ERR\<rparr>) (s\<lparr>ps_resrcSem := snd (OSSemAccept (ps_resrcSem s))\<rparr>)))"

definition health_answer :: "nat \<Rightarrow> print_sys \<Rightarrow> print_sys option" where
  "health_answer i s =
     (case OSSemPend (ps_Printer_Status_Rec_Sem s) of None \<Rightarrow> None
      | Some n \<Rightarrow> let s = s\<lparr>ps_Printer_Status_Rec_Sem := n\<rparr>
          in Some (health_report i (if pc_status (cell s i) = PRINT_CELL_STATUS_ERR then PRINTER_HEALTH_UNHEALTHY else getHealthValue i s) s))"

section \<open>Free cells and the count of the semaphore\<close>

definition idle_cells :: "print_sys \<Rightarrow> nat" where
  "idle_cells s = length (filter (\<lambda>c. pc_status c = PRINT_CELL_STATUS_IDLE) (ps_cells s))"

definition cells_ok :: "print_sys \<Rightarrow> bool" where
  "cells_ok s \<longleftrightarrow> length (ps_cells s) = MAX_CELL_NUM \<and> unat (ps_resrcSem s) = idle_cells s"

text \<open>
  What the tasks and the interrupts do to the cells, without three interleavings that the program has: the
  timeout of the health check comes while the cell is still not busy (\<^verbatim>\<open>status_mesg.c:513\<close> does
  not look), a cell is given up by its task only while it is still busy (\<^verbatim>\<open>print_queue.c:757\<close> does not
  look), and no fault comes between the wait of the dispatcher and its search
  (\<^verbatim>\<open>print_cells.c:287\<close>).  What the first and the last do is \<open>cell_races\<close> below.
\<close>

inductive cells_step :: "write_dev \<Rightarrow> print_sys \<Rightarrow> print_sys \<Rightarrow> bool" for dev where
  dispense: "DispensePrintJob e s = Some s' \<Longrightarrow> cells_step dev s s'"
| restored: "GetRestoredOrder s = (r, s') \<Longrightarrow> cells_step dev s s'"
| transmitted: "no = 1 \<or> no = 2 \<Longrightarrow> cells_step dev s (DealwithDMA no s)"
| answer_one: "USART1_Hook dev b s = Some s' \<Longrightarrow> cells_step dev s s'"
| answer_two: "UART4_Hook dev b s = Some s' \<Longrightarrow> cells_step dev s s'"
| give_up: "no = 1 \<or> no = 2 \<Longrightarrow> pc_status (cell s (unat (no - 1))) = PRINT_CELL_STATUS_BUSY
    \<Longrightarrow> cells_step dev s (PutPrintCell no PRINT_CELL_STATUS_ERR s)"
| ask: "i < MAX_CELL_NUM \<Longrightarrow> cells_step dev s (health_ask i s)"
| health: "i < MAX_CELL_NUM \<Longrightarrow> health_answer i s = Some s' \<Longrightarrow> cells_step dev s s'"
| offline: "i < MAX_CELL_NUM \<Longrightarrow> pc_status (cell s i) \<noteq> PRINT_CELL_STATUS_BUSY \<Longrightarrow> cells_step dev s (health_timeout i s)"

lemma two_cells: "length xs = 2 \<Longrightarrow> \<exists>a b. xs = [a, b]"
  by (auto simp: numeral_2_eq_2 length_Suc_conv)

lemma sys_simps [simp]:
  "ps_cells (upd_cell i f s) = (ps_cells s)[i := f (cell s i)]" "ps_resrcSem (upd_cell i f s) = ps_resrcSem s"
  "ps_cells (put_wire g s) = ps_cells s" "ps_resrcSem (put_wire g s) = ps_resrcSem s"
  "ps_cells (send_mesg h s) = ps_cells s" "ps_resrcSem (send_mesg h s) = ps_resrcSem s"
  "ps_cells (set_order_status e st s) = ps_cells s" "ps_resrcSem (set_order_status e st s) = ps_resrcSem s"
  "ps_cells (job_printed e s) = ps_cells s" "ps_resrcSem (job_printed e s) = ps_resrcSem s"
  "ps_cells (WritePrintCellInfo dev no s) = ps_cells s" "ps_resrcSem (WritePrintCellInfo dev no s) = ps_resrcSem s"
  "ps_cells (OutputErrorTag no s) = ps_cells s" "ps_resrcSem (OutputErrorTag no s) = ps_resrcSem s"
  by (simp_all add: upd_cell_def put_wire_def send_mesg_def set_order_status_def job_printed_def WritePrintCellInfo_def
      OutputErrorTag_def Let_def)

lemma idle_cells_two: "ps_cells s = [a, b] \<Longrightarrow> idle_cells s =
    (if pc_status a = PRINT_CELL_STATUS_IDLE then 1 else 0) + (if pc_status b = PRINT_CELL_STATUS_IDLE then 1 else 0)"
  by (simp add: idle_cells_def)

text \<open>A change of cell \<open>i\<close> that moves the count with the cell's status keeps the invariant.\<close>

definition idle1 :: "PrintCellInfo \<Rightarrow> nat" where
  "idle1 c = (if pc_status c = PRINT_CELL_STATUS_IDLE then 1 else 0)"

lemma idle_cells_update:
  assumes "i < length (ps_cells s)" "ps_cells s' = (ps_cells s)[i := c]"
  shows "idle_cells s' + idle1 (cell s i) = idle_cells s + idle1 c"
proof -
  have *: "idle_cells s = (\<Sum>c\<leftarrow>ps_cells s. idle1 c)" for s
  proof -
    have "length (filter (\<lambda>c. pc_status c = PRINT_CELL_STATUS_IDLE) xs) = (\<Sum>c\<leftarrow>xs. idle1 c)" for xs
      by (induction xs) (auto simp: idle1_def)
    then show ?thesis by (simp add: idle_cells_def)
  qed
  have "sum_list (map idle1 (xs[i := c])) + idle1 (xs ! i) = sum_list (map idle1 xs) + idle1 c" if "i < length xs" for xs
    using that by (induction xs arbitrary: i) (auto split: nat.splits)
  then show ?thesis using assms by (simp add: *)
qed

lemma cells_ok_update:
  assumes "cells_ok s" "i < MAX_CELL_NUM" "ps_cells s' = (ps_cells s)[i := c]"
    "unat (ps_resrcSem s') + idle1 (cell s i) = unat (ps_resrcSem s) + idle1 c"
  shows "cells_ok s'"
  using idle_cells_update [of i s s' c] assms by (simp add: cells_ok_def)

lemma cells_ok_same: "cells_ok s \<Longrightarrow> ps_cells s' = ps_cells s \<Longrightarrow> ps_resrcSem s' = ps_resrcSem s \<Longrightarrow> cells_ok s'"
  by (simp add: cells_ok_def idle_cells_def)

lemma cells_ok_sem:
  assumes "cells_ok s"
  shows "unat (OSSemPost (ps_resrcSem s)) = Suc (unat (ps_resrcSem s))"
    and "unat (ps_resrcSem s) \<le> 2"
    and "i < MAX_CELL_NUM \<Longrightarrow> pc_status (cell s i) = PRINT_CELL_STATUS_IDLE \<Longrightarrow>
      Suc (unat (snd (OSSemAccept (ps_resrcSem s)))) = unat (ps_resrcSem s)"
proof -
  obtain a b where c: "ps_cells s = [a, b]" using assms two_cells unfolding cells_ok_def by blast
  have n: "unat (ps_resrcSem s) = idle_cells s" using assms by (simp add: cells_ok_def)
  then show le: "unat (ps_resrcSem s) \<le> 2" by (simp add: idle_cells_two [OF c])
  have "ps_resrcSem s < 65535" using le by (simp add: word_less_nat_alt)
  then show "unat (OSSemPost (ps_resrcSem s)) = Suc (unat (ps_resrcSem s))"
    using le by (simp add: OSSemPost_def unat_word_ariths)
  assume "i < MAX_CELL_NUM" "pc_status (cell s i) = PRINT_CELL_STATUS_IDLE"
  then have "i = 0 \<or> i = 1" by auto
  then have "0 < idle_cells s"
    using \<open>pc_status (cell s i) = PRINT_CELL_STATUS_IDLE\<close> c by (auto simp: idle_cells_two [OF c])
  then have "0 < unat (ps_resrcSem s)" using n by simp
  then show "Suc (unat (snd (OSSemAccept (ps_resrcSem s)))) = unat (ps_resrcSem s)"
    by (simp add: OSSemAccept_def word_less_nat_alt unat_minus_one unat_gt_0)
qed

lemma PutPrintCell_cells:
  "ps_cells (PutPrintCell no st s) =
     (ps_cells s)[unat (no - 1) := (cell s (unat (no - 1)))\<lparr>pc_status := st, pc_entryIndex := 255\<rparr>]"
  "ps_resrcSem (PutPrintCell no st s) = (if st = PRINT_CELL_STATUS_ERR then ps_resrcSem s else OSSemPost (ps_resrcSem s))"
  by (simp_all add: PutPrintCell_def PutRestoredOrder_def Let_def)

text \<open>A cell that is not free is given back: as free with a post, as broken without one.\<close>

lemma put_cell_ok:
  assumes "cells_ok s" "no = 1 \<or> no = 2" "pc_status (cell s (unat (no - 1))) \<noteq> PRINT_CELL_STATUS_IDLE"
    "st \<noteq> PRINT_CELL_STATUS_BUSY"
  shows "cells_ok (PutPrintCell no st s)"
proof (rule cells_ok_update [OF assms(1), of "unat (no - 1)"])
  show "unat (no - 1) < MAX_CELL_NUM" using assms(2) by auto
  show "unat (ps_resrcSem (PutPrintCell no st s)) + idle1 (cell s (unat (no - 1)))
      = unat (ps_resrcSem s) + idle1 ((cell s (unat (no - 1)))\<lparr>pc_status := st, pc_entryIndex := 255\<rparr>)"
    using assms(3,4) cells_ok_sem(1) [OF assms(1)] by (cases st) (simp_all add: PutPrintCell_cells idle1_def)
qed (rule PutPrintCell_cells)

text \<open>A step that leaves the statuses and the semaphore.\<close>

lemma same_status_ok:
  assumes "cells_ok s" "map pc_status (ps_cells s') = map pc_status (ps_cells s)" "ps_resrcSem s' = ps_resrcSem s"
  shows "cells_ok s'"
proof -
  have *: "idle_cells s = length (filter (\<lambda>st. st = PRINT_CELL_STATUS_IDLE) (map pc_status (ps_cells s)))" for s
    by (simp add: idle_cells_def filter_map comp_def)
  have "length (ps_cells s') = length (ps_cells s)" using assms(2) by (metis length_map)
  moreover have "idle_cells s' = idle_cells s" using assms(2) by (simp add: *)
  ultimately show ?thesis using assms(1,3) by (simp add: cells_ok_def)
qed

lemma deal_not_busy_ok:
  assumes "cells_ok s" "no = 1 \<or> no = 2"
  shows "cells_ok (deal_not_busy no st s)"
proof -
  let ?i = "unat (no - 1)"
  have i: "?i < MAX_CELL_NUM" using assms(2) by auto
  have post: "cells_ok (t\<lparr>ps_Printer_Status_Rec_Sem := x\<rparr>)" if "cells_ok t" for t x
    using that by (rule cells_ok_same) simp_all
  have "cells_ok ((upd_cell ?i (\<lambda>c. c\<lparr>pc_status := PRINT_CELL_STATUS_ERR\<rparr>) s)\<lparr>ps_resrcSem := snd (OSSemAccept (ps_resrcSem s))\<rparr>)"
    if "pc_status (cell s ?i) = PRINT_CELL_STATUS_IDLE"
    using cells_ok_sem(3) [OF assms(1) i that] that
    by (intro cells_ok_update [OF assms(1) i, where c = "(cell s ?i)\<lparr>pc_status := PRINT_CELL_STATUS_ERR\<rparr>"])
      (simp_all add: idle1_def)
  then show ?thesis
    using assms(1) put_cell_ok [OF assms(1,2), of PRINT_CELL_STATUS_IDLE]
    by (cases "pc_status (cell s ?i)") (simp_all add: deal_not_busy_def Let_def post)
qed

text \<open>The statuses and the semaphore, which most steps leave.\<close>

definition view :: "print_sys \<Rightarrow> PrintCellStatus list \<times> u16" where
  "view s = (map pc_status (ps_cells s), ps_resrcSem s)"

lemma view_ok: "cells_ok s \<Longrightarrow> view s' = view s \<Longrightarrow> cells_ok s'"
  by (rule same_status_ok) (simp_all add: view_def)

lemma view_status:
  assumes "view s' = view s" "i < length (ps_cells s)"
  shows "pc_status (cell s' i) = pc_status (cell s i)"
proof -
  have m: "map pc_status (ps_cells s') = map pc_status (ps_cells s)" using assms(1) by (simp add: view_def)
  then have "length (ps_cells s') = length (ps_cells s)" by (rule map_eq_imp_length_eq)
  then show ?thesis using arg_cong [OF m, of "\<lambda>xs. xs ! i"] assms(2) by simp
qed

lemma view_upd:
  assumes "\<And>c. pc_status (f c) = pc_status c"
  shows "view (upd_cell i f s) = view s"
proof (cases "i < length (ps_cells s)")
  case True
  then have "pc_status (cell s i) = map pc_status (ps_cells s) ! i" by simp
  then show ?thesis unfolding view_def by (simp add: map_update assms)
qed (simp add: view_def list_update_beyond)

lemma view_simps [simp]:
  "view (put_wire g s) = view s" "view (send_mesg h s) = view s" "view (set_order_status e st s) = view s"
  "view (job_printed e s) = view s" "view (WritePrintCellInfo dev no s) = view s" "view (OutputErrorTag no s) = view s"
  by (simp_all add: view_def)

lemma view_fields [simp]:
  "view (s\<lparr>ps_tmp := a\<rparr>) = view s" "view (s\<lparr>ps_cnt := b\<rparr>) = view s" "view (s\<lparr>ps_cell_cutCnt := d\<rparr>) = view s"
  "view (s\<lparr>ps_Printer_Status_Rec_Sem := f\<rparr>) = view s" "view (s\<lparr>ps_RestoreOrderTable := g\<rparr>) = view s"
  by (simp_all add: view_def)

lemma view_jobs [simp]: "view (job_failed dev no st e s) = view s" "view (cutPaper no s) = view s"
  by (simp_all add: job_failed_def cutPaper_def Let_def view_upd)

lemma DealwithOrder_ok:
  assumes "cells_ok s" "no = 1 \<or> no = 2" "DealwithOrder dev no tmp s = Some s'"
  shows "cells_ok s'"
proof (cases "pc_status (cell s (unat (no - 1))) = PRINT_CELL_STATUS_BUSY")
  case True
  have i: "unat (no - 1) < length (ps_cells s)" using assms(1,2) by (auto simp: cells_ok_def)
  have put: "cells_ok (PutPrintCell no st t)" if "view t = view s" "st \<noteq> PRINT_CELL_STATUS_BUSY" for t st
    using that True put_cell_ok [OF view_ok [OF assms(1) that(1)] assms(2)] view_status [OF that(1) i] by simp
  have fin: "cells_ok (upd_cell (unat (no - 1)) (\<lambda>c. c\<lparr>pc_printDoneSem := OSSemPost (pc_printDoneSem c)\<rparr>) (send_mesg h t))"
      "cells_ok (t\<lparr>ps_cell_cutCnt := d\<rparr>)" if "cells_ok t" for h t d
    by (rule view_ok [OF that], simp add: view_upd)+
  show ?thesis using assms(1,3) True
    by (auto simp: DealwithOrder_def Let_def intro!: fin put split: if_splits)
next
  case False
  then show ?thesis using assms deal_not_busy_ok [OF assms(1,2)] by (auto simp: DealwithOrder_def Let_def)
qed

lemma CheckPrintStatue_ok:
  assumes "cells_ok s" "no = 1 \<or> no = 2" "CheckPrintStatue dev no b s = Some (r, s')"
  shows "cells_ok s'"
proof -
  let ?s = "s\<lparr>ps_tmp := (ps_tmp s)[unat (ps_cnt s) := b], ps_cnt := ps_cnt s + 1\<rparr>"
  have s: "cells_ok ?s" by (rule view_ok [OF assms(1)]) simp
  have cnt: "cells_ok (t\<lparr>ps_cnt := n\<rparr>)" if "cells_ok t" for t n by (rule view_ok [OF that]) simp
  note d = DealwithOrder_ok [OF s assms(2)]
  show ?thesis using assms(3) d
    by (auto simp: CheckPrintStatue_def Let_def intro: view_ok [OF s] cnt split: if_splits option.splits)
qed

lemma offline_ok:
  assumes "cells_ok s" "i < MAX_CELL_NUM" "pc_status (cell s i) \<noteq> PRINT_CELL_STATUS_BUSY"
  shows "cells_ok (health_timeout i s)"
proof (cases "pc_status (cell s i) = PRINT_CELL_STATUS_ERR")
  case False
  then have idle: "pc_status (cell s i) = PRINT_CELL_STATUS_IDLE" using assms(3) by (cases "pc_status (cell s i)") auto
  let ?t = "upd_cell i (\<lambda>c. c\<lparr>pc_status := PRINT_CELL_STATUS_ERR\<rparr>) (s\<lparr>ps_resrcSem := snd (OSSemAccept (ps_resrcSem s))\<rparr>)"
  have "cells_ok ?t" using cells_ok_sem(3) [OF assms(1,2) idle] idle
    by (intro cells_ok_update [OF assms(1,2), where c = "(cell s i)\<lparr>pc_status := PRINT_CELL_STATUS_ERR\<rparr>"])
      (simp_all add: idle1_def)
  moreover have "view (health_report i v t) = view t" for v t by (simp add: health_report_def view_upd)
  ultimately show ?thesis using False by (simp add: health_timeout_def view_ok)
qed (simp add: health_timeout_def assms(1))

text \<open>The wait for a free cell and the search for it.\<close>

lemma dispense_spec:
  assumes "cells_ok s"
  shows "if idle_cells s = 0 then DispensePrintJob e s = None
    else \<exists>i s'. DispensePrintJob e s = Some s' \<and> i < MAX_CELL_NUM \<and> pc_status (cell s i) = PRINT_CELL_STATUS_IDLE
      \<and> ps_cells s' = (ps_cells s)[i := (cell s i)\<lparr>pc_status := PRINT_CELL_STATUS_BUSY, pc_entryIndex := e,
           pc_printBeginSem := OSSemPost (pc_printBeginSem (cell s i))\<rparr>] \<and> cells_ok s'"
proof (cases "idle_cells s = 0")
  case True
  then have "ps_resrcSem s = 0" using assms by (simp add: cells_ok_def unat_eq_zero)
  then show ?thesis using True by (simp add: DispensePrintJob_def GetIdlePrintCell_def OSSemPend_def)
next
  case False
  obtain a b where c: "ps_cells s = [a, b]" using assms two_cells unfolding cells_ok_def by blast
  have "0 < unat (ps_resrcSem s)" using False assms by (simp add: cells_ok_def)
  then have p: "OSSemPend (ps_resrcSem s) = Some (ps_resrcSem s - 1)" "Suc (unat (ps_resrcSem s - 1)) = unat (ps_resrcSem s)"
    by (simp_all add: OSSemPend_def word_less_nat_alt unat_minus_one unat_gt_0)
  obtain i where i: "i < MAX_CELL_NUM" "pc_status (cell s i) = PRINT_CELL_STATUS_IDLE"
    "List.find (\<lambda>i. pc_status (cell s i) = PRINT_CELL_STATUS_IDLE) [0 ..< MAX_CELL_NUM] = Some i"
    using False idle_cells_two [OF c] by (cases "pc_status a = PRINT_CELL_STATUS_IDLE") (auto simp: c upt_rec split: if_splits)
  let ?c = "(cell s i)\<lparr>pc_status := PRINT_CELL_STATUS_BUSY, pc_entryIndex := e,
           pc_printBeginSem := OSSemPost (pc_printBeginSem (cell s i))\<rparr>"
  have d: "DispensePrintJob e s = Some (start_job e (Some i,
      upd_cell i (\<lambda>c. c\<lparr>pc_status := PRINT_CELL_STATUS_BUSY\<rparr>) (s\<lparr>ps_resrcSem := ps_resrcSem s - 1\<rparr>)))"
    using i(3) by (simp add: DispensePrintJob_def GetIdlePrintCell_def p(1) take_idle_def)
  define s' where "s' = start_job e (Some i,
      upd_cell i (\<lambda>c. c\<lparr>pc_status := PRINT_CELL_STATUS_BUSY\<rparr>) (s\<lparr>ps_resrcSem := ps_resrcSem s - 1\<rparr>))"
  have s': "ps_cells s' = (ps_cells s)[i := ?c]" "ps_resrcSem s' = ps_resrcSem s - 1"
    using i(1) assms by (simp_all add: s'_def start_job_def cells_ok_def)
  moreover have "cells_ok s'" using s' i p(2)
    by (intro cells_ok_update [OF assms i(1), where c = ?c]) (simp_all add: idle1_def)
  ultimately show ?thesis using False d i s'_def by auto
qed

lemma cells_step_ok: "cells_step dev s s' \<Longrightarrow> cells_ok s \<Longrightarrow> cells_ok s'"
proof (induction rule: cells_step.induct)
  case (dispense e s s')
  then show ?case using dispense_spec [of s e] by (auto split: if_splits)
next
  case (restored s r s')
  have "view s' = view s" using restored(1) by (auto simp: GetRestoredOrder_def split: option.splits)
  then show ?case using restored(2) view_ok by blast
next
  case (transmitted no s)
  have "view (DealwithDMA no s) = view s" by (simp add: DealwithDMA_def view_upd Let_def)
  then show ?case using transmitted(2) view_ok by blast
next
  case (answer_one b s s')
  then show ?case using CheckPrintStatue_ok [of s 1 dev b] by (auto simp: USART1_Hook_def)
next
  case (answer_two b s s')
  then show ?case using CheckPrintStatue_ok [of s 2 dev b] by (auto simp: UART4_Hook_def)
next
  case (give_up no s)
  then show ?case using put_cell_ok [of s no PRINT_CELL_STATUS_ERR] by simp
next
  case (ask i s)
  have "view (health_ask i s) = view s" by (simp add: health_ask_def)
  then show ?case using ask(2) view_ok by blast
next
  case (health i s s')
  have "view s' = view s" using health(2) by (auto simp: health_answer_def health_report_def view_upd Let_def split: option.splits)
  then show ?case using health(3) view_ok by blast
next
  case (offline i s)
  then show ?case using offline_ok by blast
qed

lemma InitPrintCellsMgr_ok:
  assumes "length (ps_cells s) = MAX_CELL_NUM"
  shows "cells_ok (InitPrintCellsMgr s)"
proof -
  obtain a b where "ps_cells s = [a, b]" using assms two_cells by blast
  then show ?thesis by (simp add: cells_ok_def idle_cells_def InitPrintCellsMgr_def upd_cell_def upt_rec)
qed

lemma cells_reachable:
  assumes "(cells_step dev)\<^sup>*\<^sup>* (InitPrintCellsMgr s0) s" "length (ps_cells s0) = MAX_CELL_NUM"
  shows "cells_ok s"
  using assms(1) by (induction rule: rtranclp_induct) (auto intro: InitPrintCellsMgr_ok [OF assms(2)] cells_step_ok)

text \<open>A timeout that arrives when the cell has got a job takes the count of another cell.\<close>

lemma late_timeout:
  assumes "cells_ok s" "i < MAX_CELL_NUM" "pc_status (cell s i) = PRINT_CELL_STATUS_BUSY" "0 < idle_cells s"
  shows "idle_cells (health_timeout i s) = idle_cells s \<and> Suc (unat (ps_resrcSem (health_timeout i s))) = idle_cells s"
proof -
  let ?t = "upd_cell i (\<lambda>c. c\<lparr>pc_status := PRINT_CELL_STATUS_ERR\<rparr>) (s\<lparr>ps_resrcSem := snd (OSSemAccept (ps_resrcSem s))\<rparr>)"
  have r: "view (health_report i v t) = view t" for v t by (simp add: health_report_def view_upd)
  have vi: "view a = view b \<Longrightarrow> idle_cells a = idle_cells b \<and> ps_resrcSem a = ps_resrcSem b" for a b
  proof -
    have *: "idle_cells s = length (filter (\<lambda>st. st = PRINT_CELL_STATUS_IDLE) (map pc_status (ps_cells s)))" for s
      by (simp add: idle_cells_def filter_map comp_def)
    show "view a = view b \<Longrightarrow> idle_cells a = idle_cells b \<and> ps_resrcSem a = ps_resrcSem b"
      by (simp add: view_def *)
  qed
  have "health_timeout i s = health_report i PRINTER_HEALTH_UNHEALTHY ?t" using assms(3) by (simp add: health_timeout_def)
  then have "idle_cells (health_timeout i s) = idle_cells ?t" "ps_resrcSem (health_timeout i s) = ps_resrcSem ?t"
    using vi [OF r] by metis+
  moreover have "idle_cells ?t = idle_cells s"
    using idle_cells_update [of i s ?t "(cell s i)\<lparr>pc_status := PRINT_CELL_STATUS_ERR\<rparr>"] assms
    by (simp add: idle1_def cells_ok_def)
  moreover have "Suc (unat (ps_resrcSem ?t)) = idle_cells s"
  proof -
    have n: "0 < unat (ps_resrcSem s)" "unat (ps_resrcSem s) = idle_cells s" using assms(1,4) by (simp_all add: cells_ok_def)
    have "Suc (unat (ps_resrcSem ?t)) = unat (ps_resrcSem s)"
      using n(1) by (simp add: OSSemAccept_def word_less_nat_alt unat_minus_one unat_gt_0)
    then show ?thesis using n(2) by simp
  qed
  ultimately show ?thesis by simp
qed

text \<open>A fault reported between the wait and the search leaves the job without a cell.\<close>

lemma late_fault:
  assumes "cells_ok s" "no = 1 \<or> no = 2" "idle_cells s = 1" "pc_status (cell s (unat (no - 1))) = PRINT_CELL_STATUS_IDLE"
    "OSSemPend (ps_resrcSem s) = Some n" "st \<noteq> NORMAL_STATE"
  shows "fst (take_idle (deal_not_busy no st (s\<lparr>ps_resrcSem := n\<rparr>))) = None"
proof -
  let ?i = "unat (no - 1)"
  obtain a b where c: "ps_cells s = [a, b]" using assms(1) two_cells unfolding cells_ok_def by blast
  let ?t = "deal_not_busy no st (s\<lparr>ps_resrcSem := n\<rparr>)"
  have t: "ps_cells ?t = (ps_cells s)[?i := (cell s ?i)\<lparr>pc_status := PRINT_CELL_STATUS_ERR\<rparr>]"
    using assms(4,6) by (simp add: deal_not_busy_def Let_def)
  have i: "?i < length (ps_cells s)" using assms(1,2) by (auto simp: cells_ok_def)
  have "idle_cells ?t = 0"
    using idle_cells_update [OF i t] assms(3,4) by (simp add: idle1_def)
  then have "\<forall>c \<in> set (ps_cells ?t). pc_status c \<noteq> PRINT_CELL_STATUS_IDLE" by (simp add: idle_cells_def filter_empty_conv)
  moreover have "length (ps_cells ?t) = MAX_CELL_NUM" using t assms(1) by (simp add: cells_ok_def)
  ultimately have "List.find (\<lambda>i. pc_status (cell ?t i) = PRINT_CELL_STATUS_IDLE) [0 ..< MAX_CELL_NUM] = None"
    by (simp add: find_None_iff)
  then show ?thesis by (simp add: take_idle_def)
qed

section \<open>The answer of a busy printer\<close>

lemma store_simps [simp]:
  "ps_store (upd_cell i f s) = ps_store s" "ps_store (put_wire g s) = ps_store s" "ps_store (send_mesg h s) = ps_store s"
  "ps_store (WritePrintCellInfo dev no s) = ps_store s" "ps_store (OutputErrorTag no s) = ps_store s"
  "ps_store (cutPaper no s) = ps_store s" "ps_store (PutPrintCell no st s) = ps_store s"
  by (simp_all add: upd_cell_def put_wire_def send_mesg_def WritePrintCellInfo_def OutputErrorTag_def cutPaper_def
      PutPrintCell_def PutRestoredOrder_def Let_def)

lemma restore_simps [simp]:
  "ps_RestoreOrderTable (upd_cell i f s) = ps_RestoreOrderTable s" "ps_RestoreOrderTable (put_wire g s) = ps_RestoreOrderTable s"
  "ps_RestoreOrderTable (send_mesg h s) = ps_RestoreOrderTable s"
  "ps_RestoreOrderTable (set_order_status e st s) = ps_RestoreOrderTable s"
  "ps_RestoreOrderTable (job_printed e s) = ps_RestoreOrderTable s"
  "ps_RestoreOrderTable (WritePrintCellInfo dev no s) = ps_RestoreOrderTable s"
  "ps_RestoreOrderTable (OutputErrorTag no s) = ps_RestoreOrderTable s"
  "ps_RestoreOrderTable (cutPaper no s) = ps_RestoreOrderTable s"
  by (simp_all add: upd_cell_def put_wire_def send_mesg_def set_order_status_def job_printed_def WritePrintCellInfo_def
      OutputErrorTag_def cutPaper_def Let_def)

lemma cutCnt_simps [simp]:
  "ps_cell_cutCnt (upd_cell i f s) = ps_cell_cutCnt s" "ps_cell_cutCnt (put_wire g s) = ps_cell_cutCnt s"
  "ps_cell_cutCnt (send_mesg h s) = ps_cell_cutCnt s" "ps_cell_cutCnt (set_order_status e st s) = ps_cell_cutCnt s"
  "ps_cell_cutCnt (WritePrintCellInfo dev no s) = ps_cell_cutCnt s" "ps_cell_cutCnt (OutputErrorTag no s) = ps_cell_cutCnt s"
  "ps_cell_cutCnt (cutPaper no s) = ps_cell_cutCnt s" "ps_cell_cutCnt (PutPrintCell no st' s) = ps_cell_cutCnt s"
  "ps_cell_cutCnt (job_failed dev no st e s) = ps_cell_cutCnt s"
  by (simp_all add: upd_cell_def put_wire_def send_mesg_def set_order_status_def job_failed_def WritePrintCellInfo_def
      OutputErrorTag_def cutPaper_def PutPrintCell_def PutRestoredOrder_def Let_def)

text \<open>The store with the order's status set.\<close>

definition with_status :: "u8 \<Rightarrow> u8 \<Rightarrow> order_store \<Rightarrow> order_store" where
  "with_status e st s = s\<lparr>st_table := set_data (unat e) ((node (st_table s) e)\<lparr>oi_status := st\<rparr>) (st_table s)\<rparr>"

lemma job_stores:
  "ps_store (job_printed e s) = snd (Delete_Order (with_status e PRINT_STATUS_OK (ps_store s)) e)"
  "ps_store (job_failed dev no st e s) = with_status e PRINT_STATUS_MACHINE_ERR (ps_store s)"
  by (simp_all add: job_printed_def job_failed_def set_order_status_def with_status_def Let_def)

definition busy_with :: "print_sys \<Rightarrow> u8 \<Rightarrow> u8 \<Rightarrow> bool" where
  "busy_with s no e \<longleftrightarrow> (no = 1 \<or> no = 2) \<and> pc_status (cell s (unat (no - 1))) = PRINT_CELL_STATUS_BUSY
     \<and> pc_entryIndex (cell s (unat (no - 1))) = e \<and> in_table (st_table (ps_store s)) e
     \<and> oi_status (order_of s e) = ORDER_DATA_OK"

lemma entry_upd:
  assumes "\<And>c. pc_entryIndex (f c) = pc_entryIndex c"
  shows "pc_entryIndex (cell (upd_cell i f s) j) = pc_entryIndex (cell s j)"
  by (cases "i = j"; cases "i < length (ps_cells s)") (simp_all add: assms list_update_beyond)

lemma entry_kept:
  "pc_entryIndex (cell (job_failed dev no st e s) i) = pc_entryIndex (cell s i)"
  "pc_entryIndex (cell (cutPaper no s) i) = pc_entryIndex (cell s i)"
proof -
  have *: "pc_entryIndex (cell (upd_cell j f s) i) = pc_entryIndex (cell s i)" if "\<And>c. pc_entryIndex (f c) = pc_entryIndex c" for j f s
    using that by (rule entry_upd)
  have "pc_entryIndex (cell (upd_cell j (\<lambda>c. c\<lparr>pc_exceptCnt := g c\<rparr>) (set_order_status e k s)) i) = pc_entryIndex (cell s i)" for j g k
    using * [of "\<lambda>c. c\<lparr>pc_exceptCnt := g c\<rparr>" j "set_order_status e k s"] by simp
  then show "pc_entryIndex (cell (job_failed dev no st e s) i) = pc_entryIndex (cell s i)"
    by (simp add: job_failed_def Let_def del: sys_simps(1))
  show "pc_entryIndex (cell (cutPaper no s) i) = pc_entryIndex (cell s i)"
    using * [of "\<lambda>c. c\<lparr>pc_cutCnt := pc_cutCnt c + 1\<rparr>" "unat (no - 1)" s] by (simp add: cutPaper_def del: sys_simps(1))
qed

lemma put_restore: "ps_RestoreOrderTable (PutPrintCell no st s) = (if st = PRINT_CELL_STATUS_ERR
    then (ps_RestoreOrderTable s)[unat (no - 1) := pc_entryIndex (cell s (unat (no - 1)))] else ps_RestoreOrderTable s)"
  by (simp add: PutPrintCell_def PutRestoredOrder_def Let_def)

lemma cells_length [simp]: "length (ps_cells (job_failed dev no st e s)) = length (ps_cells s)"
  "length (ps_cells (cutPaper no s)) = length (ps_cells s)"
  by (simp_all add: job_failed_def cutPaper_def Let_def)

lemma deal_busy_ok:
  assumes "cells_ok s" "busy_with s no e" "ResolveStatus tmp = NORMAL_STATE"
  shows "\<exists>s'. DealwithOrder dev no tmp s = Some s' \<and> cells_ok s'
    \<and> ps_store s' = snd (Delete_Order (with_status e PRINT_STATUS_OK (ps_store s)) e)
    \<and> pc_status (cell s' (unat (no - 1))) = PRINT_CELL_STATUS_IDLE \<and> pc_entryIndex (cell s' (unat (no - 1))) = 255
    \<and> ps_RestoreOrderTable s' = ps_RestoreOrderTable s"
proof -
  have no: "no = 1 \<or> no = 2" and i: "unat (no - 1) < length (ps_cells s)"
    using assms(1,2) by (auto simp: busy_with_def cells_ok_def)
  obtain s' where s': "DealwithOrder dev no tmp s = Some s'"
    using assms(2,3) by (simp add: busy_with_def DealwithOrder_def Let_def)
  moreover have "cells_ok s'" using DealwithOrder_ok [OF assms(1) no s'] .
  moreover have "PRINT_CELL_STATUS_IDLE \<noteq> PRINT_CELL_STATUS_ERR" by simp
  ultimately show ?thesis using assms(2,3) i s'
    by (auto simp: busy_with_def DealwithOrder_def Let_def job_stores PutPrintCell_cells put_restore)
qed

lemma sem_simps [simp]:
  "ps_Print_Sem (upd_cell i f s) = ps_Print_Sem s" "ps_Print_Sem (put_wire g s) = ps_Print_Sem s"
  "ps_Print_Sem (send_mesg h s) = ps_Print_Sem s"
  "ps_Print_Sem (job_failed dev no st e s) = ps_Print_Sem s" "ps_Print_Sem (cutPaper no s) = ps_Print_Sem s"
  "ps_Print_Sem (PutPrintCell no PRINT_CELL_STATUS_ERR s) = OSSemPost (ps_Print_Sem s)"
  by (simp_all add: upd_cell_def put_wire_def send_mesg_def set_order_status_def job_failed_def WritePrintCellInfo_def
      OutputErrorTag_def cutPaper_def PutPrintCell_def PutRestoredOrder_def Let_def)

lemma restore_job_failed [simp]: "ps_RestoreOrderTable (job_failed dev no st e s) = ps_RestoreOrderTable s"
  by (simp add: job_failed_def Let_def)

lemma deal_busy_fault:
  assumes "cells_ok s" "busy_with s no e" "ResolveStatus tmp \<noteq> NORMAL_STATE"
    "ResolveStatus tmp = 1 \<longrightarrow> unat no < length (ps_cell_cutCnt s)"
  shows "\<exists>s'. DealwithOrder dev no tmp s = Some s' \<and> cells_ok s'
    \<and> ps_store s' = with_status e PRINT_STATUS_MACHINE_ERR (ps_store s)
    \<and> pc_status (cell s' (unat (no - 1))) = PRINT_CELL_STATUS_ERR \<and> pc_entryIndex (cell s' (unat (no - 1))) = 255
    \<and> ps_RestoreOrderTable s' = (ps_RestoreOrderTable s)[unat (no - 1) := e] \<and> ps_Print_Sem s' = OSSemPost (ps_Print_Sem s)"
proof -
  have no: "no = 1 \<or> no = 2" and i: "unat (no - 1) < length (ps_cells s)"
    using assms(1,2) by (auto simp: busy_with_def cells_ok_def)
  obtain s' where s': "DealwithOrder dev no tmp s = Some s'"
    using assms(2-4) by (auto simp: busy_with_def DealwithOrder_def Let_def)
  moreover have "cells_ok s'" using DealwithOrder_ok [OF assms(1) no s'] .
  moreover have "ps_store (s\<lparr>ps_cell_cutCnt := x\<rparr>) = ps_store s" for s x by simp
  ultimately show ?thesis using assms(2-4) i
    by (cases "ResolveStatus tmp = 1")
      (auto simp: busy_with_def DealwithOrder_def Let_def job_stores PutPrintCell_cells put_restore entry_kept)
qed

lemma deal_busy_overrun:
  assumes "busy_with s no e" "ResolveStatus tmp = 1" "length (ps_cell_cutCnt s) \<le> unat no"
  shows "DealwithOrder dev no tmp s = None"
  using assms by (simp add: busy_with_def DealwithOrder_def Let_def)

text \<open>An order put back is handed out by one of the next two questions.\<close>

lemma restored_soon:
  assumes "RT = ps_RestoreOrderTable s" "2 \<le> length RT" "j < 2" "RT ! j = e" "0 \<le> sint e"
  shows "\<exists>r1 s1 r2 s2. GetRestoredOrder s = (r1, s1) \<and> GetRestoredOrder s1 = (r2, s2) \<and> (r1 = Some e \<or> r2 = Some e)"
proof -
  obtain a b xs where RT: "RT = a # b # xs" using assms(2) by (cases RT; cases "tl RT") auto
  have j: "j = 0 \<or> j = 1" using assms(3) by auto
  have m: "sint (255 :: u8) = -1" by simp
  show ?thesis using assms j RT m by (auto simp: GetRestoredOrder_def upt_rec assms(1) [symmetric])
qed

section \<open>The bytes of an answer\<close>

text \<open>The interrupts in the order they come: the printer and the byte.\<close>

fun receive :: "write_dev \<Rightarrow> (u8 \<times> u8) list \<Rightarrow> print_sys \<Rightarrow> print_sys option" where
  "receive dev [] s = Some s"
| "receive dev ((no, b) # xs) s = (case CheckPrintStatue dev no b s of None \<Rightarrow> None | Some (_, s) \<Rightarrow> receive dev xs s)"

lemma receive_four:
  assumes "ps_cnt s = 0" "length (ps_tmp s) = 4"
  shows "receive dev [(n1, b1), (n2, b2), (n3, b3), (n4, b4)] s =
    map_option (\<lambda>s. s\<lparr>ps_cnt := 0\<rparr>) (DealwithOrder dev n4 [b1, b2, b3, b4]
      (s\<lparr>ps_wire := SEND_STATUS_CMD_FOUR n3 (SEND_STATUS_CMD_THREE n2 (SEND_STATUS_CMD_TWO n1 (ps_wire s))),
         ps_tmp := [b1, b2, b3, b4], ps_cnt := 4\<rparr>))"
proof -
  obtain a b c d where "ps_tmp s = [a, b, c, d]" using assms(2) by (auto simp: length_Suc_conv numeral_eq_Suc)
  then show ?thesis using assms(1)
    by (cases "DealwithOrder dev n4 [b1, b2, b3, b4]
      (s\<lparr>ps_wire := SEND_STATUS_CMD_FOUR n3 (SEND_STATUS_CMD_THREE n2 (SEND_STATUS_CMD_TWO n1 (ps_wire s))),
         ps_tmp := [b1, b2, b3, b4], ps_cnt := 4\<rparr>)") (simp_all add: CheckPrintStatue_def put_wire_def Let_def)
qed

section \<open>The totals in the EEPROM\<close>

lemma WriteEEPROM_one:
  assumes "length p = unat n" "unat n < 8"
  shows "WriteEEPROM dev p a n m = dev m a p"
proof -
  have "unat n < 256" by (rule unat_u8)
  then have n: "unat (ucast n :: u16) = unat n" by (simp add: unsigned_ucast_eq take_bit_nat_eq_self)
  have "(ucast ((ucast n :: u16) div 8) :: u8) = 0"
    using assms(2) n by (simp add: word_unat_eq_iff unat_ucast_8)
  moreover have "unat (ucast ((ucast n :: u16) mod 8) :: u8) = unat n" using assms(2) n by (simp add: unat_ucast_8)
  ultimately show ?thesis
    using assms(1) by (simp add: WriteEEPROM_def I2C_EE_BufferWrite_def Let_def I2C_EE_PageWrite_def run_writes_def)
qed

lemma read_part:
  assumes "k + n \<le> length bs" "length bs \<le> 256"
  shows "read_bytes (store_bytes m a bs) (a + of_nat k) n = take n (drop k bs)"
proof (rule nth_equalityI)
  fix i assume "i < length (read_bytes (store_bytes m a bs) (a + of_nat k) n)"
  then have i: "i < n" by (simp add: read_bytes_def)
  have "a + of_nat k + of_nat i = a + of_nat (k + i)" by (simp add: add.assoc)
  then show "read_bytes (store_bytes m a bs) (a + of_nat k) n ! i = take n (drop k bs) ! i"
    using i assms store_bytes_same [of "k + i" bs m a] by (simp add: read_bytes_def add.assoc)
qed (use assms in \<open>simp add: read_bytes_def\<close>)

definition cell_image :: "PrintCellInfo \<Rightarrow> u8 list" where
  "cell_image c = le_bytes (pc_totalTime c) @ le_bytes (pc_cutCnt c) @ le_bytes (pc_totalLength c)
     @ [pc_exceptCnt c ! 1, pc_exceptCnt c ! 2, pc_exceptCnt c ! 3, pc_exceptCnt c ! 4]"

definition cell_addr :: "nat \<Rightarrow> u8" where
  "cell_addr i = (if i = 0 then DEVICE_ONE_START_ADDR else DEVICE_TWO_START_ADDR)"

lemma WriteEEPROM_in_page:
  assumes "page_device P dev" "length p = unat n" "unat n < 8" "unat a mod P + unat n \<le> P"
  shows "WriteEEPROM dev p a n m = store_bytes m a p"
  using assms by (simp add: WriteEEPROM_one page_device_def within_page_def)

lemma write_image:
  assumes "page_device P dev" "P \<in> {8, 16, 32}" "no = 1 \<or> no = 2 \<and> P \<noteq> 8"
  shows "ps_eeprom (WritePrintCellInfo dev no s) =
    store_bytes (ps_eeprom s) (cell_addr (unat (no - 1))) (cell_image (cell s (unat (no - 1))))"
proof -
  note w = WriteEEPROM_in_page [OF assms(1)]
  have l: "length (le_bytes v) = 4" for v by (simp add: le_bytes_def)
  have 1: "store_bytes m a (xs @ ys) = store_bytes (store_bytes m a xs) (a + 4) ys" if "length xs = 4" for m a xs ys
    using that by (simp add: store_bytes_append)
  show ?thesis using assms(2,3)
    by (elim disjE conjE insertE emptyE)
      (simp_all add: WritePrintCellInfo_def Let_def w l 1 cell_image_def cell_addr_def)
qed

lemma le_word_bytes: "le_word (le_bytes v) = v"
  by (simp add: le_word_def le_bytes_def be32_bytes [unfolded One_nat_def])

lemma read_image:
  assumes "read_device rd" "length (pc_exceptCnt c) = 6" "length (pc_exceptCnt c0) = 6"
  shows "read_cell_info rd (store_bytes m a (cell_image c)) a c0 =
    c0\<lparr>pc_totalTime := pc_totalTime c, pc_cutCnt := pc_cutCnt c, pc_totalLength := pc_totalLength c,
      pc_exceptCnt := pc_exceptCnt c0 ! 0 # take 4 (drop 1 (pc_exceptCnt c)) @ [pc_exceptCnt c0 ! 5]\<rparr>"
proof -
  have l: "length (le_bytes v) = 4" for v by (simp add: le_bytes_def)
  have n: "length (cell_image c) = 16" by (simp add: cell_image_def l)
  have r: "ReadEEPROM rd (a + of_nat k) n (store_bytes m a (cell_image c)) = take (unat n) (drop k (cell_image c))"
    if "k + unat n \<le> 16" for k n
    using assms(1) read_part [of k "unat n" "cell_image c" m a] that \<open>length (cell_image c) = 16\<close>
    by (simp add: ReadEEPROM_def read_device_def)
  obtain e0 e1 e2 e3 e4 e5 where e: "pc_exceptCnt c = [e0, e1, e2, e3, e4, e5]"
    using assms(2) by (auto simp: length_Suc_conv numeral_eq_Suc)
  obtain f0 f1 f2 f3 f4 f5 where f: "pc_exceptCnt c0 = [f0, f1, f2, f3, f4, f5]"
    using assms(3) by (auto simp: length_Suc_conv numeral_eq_Suc)
  have w: "ReadEEPROM rd a 4 (store_bytes m a (cell_image c)) = le_bytes (pc_totalTime c)"
    "ReadEEPROM rd (a + 4) 4 (store_bytes m a (cell_image c)) = le_bytes (pc_cutCnt c)"
    "ReadEEPROM rd (a + 8) 4 (store_bytes m a (cell_image c)) = le_bytes (pc_totalLength c)"
    "ReadEEPROM rd (a + 12) 1 (store_bytes m a (cell_image c)) = [e1]"
    "ReadEEPROM rd (a + 13) 1 (store_bytes m a (cell_image c)) = [e2]"
    "ReadEEPROM rd (a + 14) 1 (store_bytes m a (cell_image c)) = [e3]"
    "ReadEEPROM rd (a + 15) 1 (store_bytes m a (cell_image c)) = [e4]"
    using r [of 0 4] r [of 4 4] r [of 8 4] r [of 12 1] r [of 13 1] r [of 14 1] r [of 15 1]
    by (simp_all add: cell_image_def l e)
  have add: "a + 4 + 4 = a + 8" "a + 8 + 4 = a + 12" "a + 12 + 1 = a + 13" "a + 13 + 1 = a + 14" "a + 14 + 1 = a + 15"
    by (simp_all add: add.assoc)
  show ?thesis by (simp add: read_cell_info_def Let_def w w(4-7) [unfolded add.commute [of a]] add le_word_bytes e f)
qed

lemma store_upd: "(\<And>i. i < length bs \<Longrightarrow> b \<noteq> a + of_nat i) \<Longrightarrow> store_bytes (m(b := v)) a bs = (store_bytes m a bs)(b := v)"
proof (induction bs arbitrary: m a)
  case (Cons c bs)
  have "b \<noteq> a + 1 + of_nat i" if "i < length bs" for i using Cons.prems [of "Suc i"] that by (simp add: algebra_simps)
  moreover have "b \<noteq> a" using Cons.prems [of 0] by simp
  ultimately show ?case using Cons.IH [of "a + 1" "m(a := c)"] by (simp add: fun_upd_twist [of a b] del: fun_upd_apply)
qed simp

lemma store_commute:
  "(\<And>i j. i < length bs \<Longrightarrow> j < length cs \<Longrightarrow> b + of_nat j \<noteq> a + of_nat i) \<Longrightarrow>
   store_bytes (store_bytes m a bs) b cs = store_bytes (store_bytes m b cs) a bs"
proof (induction cs arbitrary: m b)
  case (Cons c cs)
  have "b + 1 + of_nat j \<noteq> a + of_nat i" if "i < length bs" "j < length cs" for i j
    using Cons.prems [of i "Suc j"] that by (simp add: algebra_simps)
  moreover have "b \<noteq> a + of_nat i" if "i < length bs" for i using Cons.prems [of i 0] that by simp
  ultimately show ?case using Cons.IH [of "b + 1" "m(b := c)"] store_upd [of bs b a m c] by (simp del: fun_upd_apply)
qed simp

lemma images_apart:
  assumes "i < 16" "j < 16"
  shows "cell_addr 1 + of_nat j \<noteq> cell_addr 0 + of_nat i"
proof
  assume "cell_addr 1 + of_nat j = cell_addr 0 + of_nat i"
  then have "unat (cell_addr 1 + of_nat j) = unat (cell_addr 0 + of_nat i)" by simp
  then show False using assms by (simp add: cell_addr_def unat_word_ariths unat_of_nat take_bit_nat_eq_self)
qed

definition totals :: "PrintCellInfo \<Rightarrow> u32 \<times> u32 \<times> u32 \<times> u8 list" where
  "totals c = (pc_totalTime c, pc_cutCnt c, pc_totalLength c, take 4 (drop 1 (pc_exceptCnt c)))"

definition counters_ok :: "print_sys \<Rightarrow> bool" where
  "counters_ok s \<longleftrightarrow> length (ps_cells s) = MAX_CELL_NUM \<and> (\<forall>c \<in> set (ps_cells s). length (pc_exceptCnt c) = 6)"

lemma cell_image_length [simp]: "length (cell_image c) = 16"
  by (simp add: cell_image_def le_bytes_def)

lemma totals_kept:
  assumes "page_device P dev" "P \<in> {16, 32}" "read_device rd" "counters_ok s" "counters_ok s0" "i < MAX_CELL_NUM"
  shows "totals (cell (ReadPrintCellsInfo rd (s0\<lparr>ps_eeprom :=
      ps_eeprom (WritePrintCellInfo dev 2 (WritePrintCellInfo dev 1 s))\<rparr>)) i) = totals (cell s i)"
proof -
  obtain a b where c: "ps_cells s = [a, b]" using assms(4) two_cells unfolding counters_ok_def by blast
  obtain a0 b0 where c0: "ps_cells s0 = [a0, b0]" using assms(5) two_cells unfolding counters_ok_def by blast
  have l: "length (pc_exceptCnt a) = 6" "length (pc_exceptCnt b) = 6" "length (pc_exceptCnt a0) = 6" "length (pc_exceptCnt b0) = 6"
    using assms(4,5) c c0 by (simp_all add: counters_ok_def)
  let ?m = "ps_eeprom (WritePrintCellInfo dev 2 (WritePrintCellInfo dev 1 s))"
  have P: "P \<in> {8, 16, 32}" "P \<noteq> 8" using assms(2) by auto
  have m: "?m = store_bytes (store_bytes (ps_eeprom s) (cell_addr 0) (cell_image a)) (cell_addr 1) (cell_image b)"
    using write_image [OF assms(1) P(1), of 2] write_image [OF assms(1) P(1), of 1 s] P(2) by (simp add: c)
  also have "\<dots> = store_bytes (store_bytes (ps_eeprom s) (cell_addr 1) (cell_image b)) (cell_addr 0) (cell_image a)"
    by (rule store_commute) (use images_apart in \<open>simp_all\<close>)
  finally have m': "?m = store_bytes (store_bytes (ps_eeprom s) (cell_addr 1) (cell_image b)) (cell_addr 0) (cell_image a)" .
  have t: "totals (c0\<lparr>pc_totalTime := pc_totalTime c, pc_cutCnt := pc_cutCnt c, pc_totalLength := pc_totalLength c,
      pc_exceptCnt := x # take 4 (drop 1 (pc_exceptCnt c)) @ [y]\<rparr>) = totals c" if "length (pc_exceptCnt c) = 6" for c c0 x y
    using that by (simp add: totals_def)
  have A: "totals (read_cell_info rd ?m (cell_addr 0) a0) = totals a" unfolding m' read_image [OF assms(3) l(1,3)] by (rule t [OF l(1)])
  have B: "totals (read_cell_info rd ?m (cell_addr 1) b0) = totals b" unfolding m read_image [OF assms(3) l(2,4)] by (rule t [OF l(2)])
  have "ps_eeprom (upd_cell i f s) = ps_eeprom s" for i f s by (simp add: upd_cell_def)
  then have r: "ps_cells (ReadPrintCellsInfo rd (s0\<lparr>ps_eeprom := m\<rparr>)) =
      [read_cell_info rd m (cell_addr 0) a0, read_cell_info rd m (cell_addr 1) b0]" for m
    using c0 by (simp add: ReadPrintCellsInfo_def upt_rec cell_addr_def)
  have "i = 0 \<or> i = 1" using assms(6) by auto
  then show ?thesis using A B by (auto simp: r c)
qed

section \<open>A state to try the operations on\<close>

definition sample_cell :: "u8 \<Rightarrow> PrintCellStatus \<Rightarrow> u8 \<Rightarrow> PrintCellInfo" where
  "sample_cell no st e = \<lparr>pc_no = no, pc_entryIndex = e, pc_status = st, pc_health_status = PRINTER_HEALTH_HEALTHY,
     pc_totalTime = 1, pc_cutCnt = 2, pc_totalLength = 3, pc_exceptCnt = [0, 1, 2, 3, 4, 0], pc_workedTime = 0,
     pc_beginTick = 0, pc_endTick = 0, pc_printBeginSem = 0, pc_printDoneSem = 0\<rparr>"

definition sample_sys :: "PrintCellInfo list \<Rightarrow> u16 \<Rightarrow> print_sys" where
  "sample_sys cs n = \<lparr>ps_store = \<lparr>st_table = Init_Order_Table\<lparr>pt_order_node :=
         replicate ALL_BLOCK_NUM (blank_order\<lparr>oi_status := ORDER_DATA_OK, oi_data := 0x2000\<rparr>)\<rparr>, st_mem = \<lambda>a. 0,
       st_parts = [], st_sems = [0, 0, 0, 0]\<rparr>,
     ps_mesg = init_mesg, ps_resrcSem = n, ps_cells = cs, ps_RestoreOrderTable = [255, 255, 0], ps_Print_Sem = 0,
     ps_Printer_Status_Rec_Sem = 0, ps_cell_cutCnt = [0, 0], ps_tmp = [0, 0, 0, 0], ps_cnt = 0,
     ps_needCutPaper = [False, False, False], ps_eeprom = \<lambda>a. 0, ps_wire = [], ps_now = 0\<rparr>"

lemma sample_cells:
  "cells_ok (sample_sys [sample_cell 1 PRINT_CELL_STATUS_BUSY 3, sample_cell 2 PRINT_CELL_STATUS_IDLE 255] 1)"
  "busy_with (sample_sys [sample_cell 1 PRINT_CELL_STATUS_BUSY 3, sample_cell 2 PRINT_CELL_STATUS_IDLE 255] 1) 1 3"
  "idle_cells (sample_sys [sample_cell 1 PRINT_CELL_STATUS_BUSY 3, sample_cell 2 PRINT_CELL_STATUS_IDLE 255] 1) = 1"
  by (simp_all add: cells_ok_def idle_cells_def sample_sys_def sample_cell_def busy_with_def in_table_def)

section \<open>Properties\<close>

text \<open>In the runs of \<open>cells_step\<close>, which leave out the three interleavings named there, the semaphore of
  free cells counts the idle cells.  So there a job waits exactly when no cell is idle, and one that does not wait gets an
  idle cell, which becomes busy with the order and is told to begin.\<close>

lemma free_cells_counted:
  assumes "length (ps_cells s0) = MAX_CELL_NUM" "(cells_step dev)\<^sup>*\<^sup>* (InitPrintCellsMgr s0) s"
  shows "length (ps_cells s) = MAX_CELL_NUM \<and> unat (ps_resrcSem s) = idle_cells s
    \<and> (if idle_cells s = 0 then DispensePrintJob e s = None
       else \<exists>i s'. DispensePrintJob e s = Some s' \<and> i < MAX_CELL_NUM \<and> pc_status (cell s i) = PRINT_CELL_STATUS_IDLE
         \<and> ps_cells s' = (ps_cells s)[i := (cell s i)\<lparr>pc_status := PRINT_CELL_STATUS_BUSY, pc_entryIndex := e,
              pc_printBeginSem := OSSemPost (pc_printBeginSem (cell s i))\<rparr>] \<and> cells_ok s')"
  using dispense_spec [OF cells_reachable [OF assms(2,1)], of e] cells_reachable [OF assms(2,1)]
  by (simp add: cells_ok_def)

text \<open>C21. Where the count and the cells come apart.  A timeout of the health check that fires after
  its cell has become busy takes away the count of another idle cell; and a fault that a printer
  reports between the dispatcher's wait and its search for the cell leaves the dispatcher without
  a cell, so that the job it holds is dropped.\<close>

theorem cell_races:
  assumes "cells_ok s" "i < MAX_CELL_NUM"
  shows "(pc_status (cell s i) = PRINT_CELL_STATUS_BUSY \<and> 0 < idle_cells s \<longrightarrow>
      idle_cells (health_timeout i s) = idle_cells s \<and> Suc (unat (ps_resrcSem (health_timeout i s))) = idle_cells s)
    \<and> (pc_status (cell s i) = PRINT_CELL_STATUS_IDLE \<and> idle_cells s = 1 \<and> OSSemPend (ps_resrcSem s) = Some n \<and> st \<noteq> NORMAL_STATE \<longrightarrow>
      fst (take_idle (deal_not_busy (1 + of_nat i) st (s\<lparr>ps_resrcSem := n\<rparr>))) = None)"
proof -
  have "i = 0 \<or> i = 1" using assms(2) by auto
  then show ?thesis using late_timeout [OF assms] late_fault [OF assms(1), of "1 + of_nat i" n st] by auto
qed

theorem cell_races_witness:
  "Suc (unat (ps_resrcSem (health_timeout 0 (sample_sys [sample_cell 1 PRINT_CELL_STATUS_BUSY 3, sample_cell 2 PRINT_CELL_STATUS_IDLE 255] 1)))) = 1
   \<and> fst (take_idle (deal_not_busy 2 KNIFE_ERROR_STATE ((sample_sys [sample_cell 1 PRINT_CELL_STATUS_BUSY 3,
       sample_cell 2 PRINT_CELL_STATUS_IDLE 255] 1)\<lparr>ps_resrcSem := 0\<rparr>))) = None"
  using cell_races [OF sample_cells(1), of 0] cell_races [OF sample_cells(1), of 1 0 KNIFE_ERROR_STATE]
  by (simp add: sample_cells(3)) (simp add: sample_sys_def sample_cell_def OSSemPend_def)

text \<open>C22. A printer that reports a fault while its sent order is being printed: the cell is
  taken out of use, the order stays in the store, is marked, and goes to the cell's slot of the table of
  orders to print again, for which the printing task is woken.  For the fault of the knife the
  per-printer counter is indexed from one and lies outside of its array for the last printer.\<close>

theorem order_failed:
  assumes "cells_ok s" "busy_with s no e" "ResolveStatus tmp \<noteq> NORMAL_STATE"
  shows "if ResolveStatus tmp = KNIFE_ERROR_STATE \<and> length (ps_cell_cutCnt s) \<le> unat no then DealwithOrder dev no tmp s = None
    else \<exists>s'. DealwithOrder dev no tmp s = Some s' \<and> cells_ok s'
      \<and> ps_store s' = with_status e PRINT_STATUS_MACHINE_ERR (ps_store s)
      \<and> pc_status (cell s' (unat (no - 1))) = PRINT_CELL_STATUS_ERR \<and> pc_entryIndex (cell s' (unat (no - 1))) = 255
      \<and> ps_RestoreOrderTable s' = (ps_RestoreOrderTable s)[unat (no - 1) := e] \<and> ps_Print_Sem s' = OSSemPost (ps_Print_Sem s)"
  using deal_busy_fault [OF assms, of dev] deal_busy_overrun [OF assms(2), of tmp dev] by auto

theorem order_failed_witness:
  "\<exists>s'. DealwithOrder (\<lambda>m a bs. m) 1 [0x08, 0x40, 0x28, 0x0c]
      (sample_sys [sample_cell 1 PRINT_CELL_STATUS_BUSY 3, sample_cell 2 PRINT_CELL_STATUS_IDLE 255] 1) = Some s'
    \<and> ps_RestoreOrderTable s' = [3, 255, 0]"
proof -
  have "ResolveStatus [0x08, 0x40, 0x28, 0x0c] \<noteq> NORMAL_STATE" by (simp add: ResolveStatus_def)
  from order_failed [OF sample_cells(1,2) this, of "\<lambda>m a bs. m"] show ?thesis by (auto simp: sample_sys_def)
qed

text \<open>An order whose printing failed is returned by one of the next two questions for an order to restore, if
  no other fault comes between them: the slot of the first cell is asked first, so one that is filled again before every
  question keeps the order of the second cell back.\<close>

lemma failed_order_returns:
  assumes "cells_ok s" "busy_with s no e" "ResolveStatus tmp \<noteq> NORMAL_STATE" "DealwithOrder dev no tmp s = Some s'"
    "length (ps_RestoreOrderTable s) = 3" "0 \<le> sint e"
  shows "\<exists>r1 s1 r2 s2. GetRestoredOrder s' = (r1, s1) \<and> GetRestoredOrder s1 = (r2, s2) \<and> (r1 = Some e \<or> r2 = Some e)"
proof -
  have j: "unat (no - 1) < 2" using assms(2) by (auto simp: busy_with_def)
  have "ps_RestoreOrderTable s' = (ps_RestoreOrderTable s)[unat (no - 1) := e]"
    using deal_busy_fault [OF assms(1-3), of dev] deal_busy_overrun [OF assms(2), of tmp dev] assms(4) by force
  then show ?thesis using restored_soon [OF refl, of s' "unat (no - 1)" e] j assms(5,6) by simp
qed

text \<open>Saving the totals of both cells and reading them at the next start gives the same totals, on a
  chip with pages of 16 or 32 bytes.  On one with pages of eight bytes, the size the driver is built for, the cut count
  of the second cell is written over the end of a page (\<open>eeprom_page_writes\<close>) and is not covered.\<close>

lemma totals_roundtrip:
  assumes "page_device P dev" "P \<in> {16, 32}" "read_device rd" "counters_ok s" "counters_ok s0" "i < MAX_CELL_NUM"
  shows "totals (cell (ReadPrintCellsInfo rd (s0\<lparr>ps_eeprom :=
      ps_eeprom (WritePrintCellInfo dev 2 (WritePrintCellInfo dev 1 s))\<rparr>)) i) = totals (cell s i)"
  using assms by (rule totals_kept)

end
