(* ===== verification/Bitmap_Codec.thy ===== *)
theory Bitmap_Codec
  imports Printer_Port
begin

text \<open>
  The bitmap compression of \<^verbatim>\<open>User/src/compress.c\<close> and the enlarged printing of
  \<^verbatim>\<open>User/src/print_bmp.c\<close>, in the configuration of the source (\<^verbatim>\<open>DOUBLE_PRINT\<close> defined,
  \<^verbatim>\<open>SEC_COMPRESS\<close> not).  A code byte is a run: its top bit the colour and its low seven bits
  the length.  Reading past the source, and writing past \<^verbatim>\<open>line_buf[20]\<close> or the 25 cells of
  the enlarged line, is the value \<^term>\<open>None\<close>.
\<close>

section \<open>Enlarged lines\<close>

abbreviation (input) "masks \<equiv> [0x80, 0x40, 0x20, 0x10, 0x08, 0x04, 0x02, 0x01 :: u8]"

definition original_print :: "u8 \<Rightarrow> u8 list \<Rightarrow> u8 \<Rightarrow> wire \<Rightarrow> wire" where
  "original_print col buf deviceNum w = fold (\<lambda>i. PRINTER_PUT (buf ! i) deviceNum) [0 ..< unat col] w"

definition double_cell :: "u8 \<Rightarrow> u16" where
  "double_cell b = fold (\<lambda>m a. if b AND m \<noteq> 0 then push_bit 2 a OR 0x03 else push_bit 2 a) masks 0"

definition double_print :: "u8 \<Rightarrow> u8 list \<Rightarrow> u8 \<Rightarrow> wire \<Rightarrow> wire option" where
  "double_print col buf deviceNum w =
     (if 25 < unat col then None
      else let amplify_buf = map (\<lambda>i. double_cell (buf ! i)) [0 ..< unat col]
           in Some (fold (\<lambda>j w. fold (\<lambda>i w. PRINTER_PUT (byte 0 (amplify_buf ! i)) deviceNum
                                              (PRINTER_PUT (byte 1 (amplify_buf ! i)) deviceNum w))
                          [0 ..< unat col] w) [0 ..< 2] w))"

definition four_cell :: "u8 \<Rightarrow> u32" where
  "four_cell b = fold (\<lambda>m a. if b AND m \<noteq> 0 then push_bit 4 a OR 0x0f else push_bit 4 a) masks 0"

definition fourflod_print :: "u8 \<Rightarrow> u8 list \<Rightarrow> u8 \<Rightarrow> wire \<Rightarrow> wire option" where
  "fourflod_print col buf deviceNum w =
     (if 25 < unat col then None
      else let four_amplify_buf = map (\<lambda>i. four_cell (buf ! i)) [0 ..< unat col]
           in Some (fold (\<lambda>j w. fold (\<lambda>i w. fold (\<lambda>k. PRINTER_PUT (byte k (four_amplify_buf ! i)) deviceNum) [3, 2, 1, 0] w)
                          [0 ..< unat col] w) [0 ..< 4] w))"

section \<open>Compression\<close>

lemma unat_drop_bit1: "unat (drop_bit 1 (m :: u8)) = unat m div 2"
  by (simp add: drop_bit_eq_div unat_div_distrib)

text \<open>
  The loops over a run of ones and of zeros.  The source is the bytes from \<^verbatim>\<open>src\<close> to
  \<^verbatim>\<open>src_end\<close>; leaving the loop at its end leaves no bytes.
\<close>

function run_loop :: "bool \<Rightarrow> u8 list \<Rightarrow> u8 \<Rightarrow> nat \<Rightarrow> u8 list \<Rightarrow> u8 list \<times> u8 \<times> nat \<times> u8 list" where
  "run_loop v [] m count des = ([], m, count, des)"
| "run_loop v (b # src) m count des =
     (if (b AND m \<noteq> 0) = v
      then if count = 127 then run_loop v (b # src) m 0 (des @ [if v then 0xff else 127])
           else if drop_bit 1 m = 0
             then if src = [] then ([], drop_bit 1 m, count + 1, des) else run_loop v src 0x80 (count + 1) des
             else run_loop v (b # src) (drop_bit 1 m) (count + 1) des
      else (b # src, m, count, des))"
  by pat_completeness auto

termination
proof (relation "measures [\<lambda>(v, src, m, count, des). length src, \<lambda>(v, src, m, count, des). unat m,
    \<lambda>(v, src, m, count, des). if count = 127 then 1 else 0]", goal_cases)
  case (4 v b src m count des)
  then have "0 < unat m" by (auto simp: unat_gt_0)
  then show ?case using unat_drop_bit1 [of m] by simp
qed auto

definition flush :: "bool \<Rightarrow> nat \<Rightarrow> u8 list \<Rightarrow> u8 list" where
  "flush v count des = (if count \<noteq> 0 then des @ [if v then 128 + of_nat count else of_nat count] else des)"

partial_function (option) compress_loop :: "u8 list \<Rightarrow> u8 \<Rightarrow> u8 list \<Rightarrow> u8 list option" where
  "compress_loop src m des =
     (case run_loop True src m 0 des of (src, m, count, des) \<Rightarrow>
        let des = flush True count des
        in if src = [] then Some des
           else case run_loop False src m 0 des of (src, m, count, des) \<Rightarrow>
             let des = flush False count des
             in if src = [] then Some des else compress_loop src m des)"

text \<open>The bytes stored from \<^verbatim>\<open>des\<close> on; their number is the value returned.\<close>

definition compress :: "u8 list \<Rightarrow> u8 \<Rightarrow> u8 \<Rightarrow> u8 list option" where
  "compress src row col = (if src = [] then None else compress_loop src 0x80 [row, col])"

section \<open>Decompression\<close>

record line_state =
  ls_line :: "u8 list"
  ls_bit :: nat
  ls_i :: nat
  ls_out :: wire

definition uncompress_map :: "u8 list" where
  "uncompress_map = [0x01, 0x02, 0x04, 0x08, 0x10, 0x20, 0x40, 0x80]"

definition put_bit :: "bool \<Rightarrow> u8 \<Rightarrow> nat \<Rightarrow> u8" where
  "put_bit v b k = (if v then b OR uncompress_map ! k else b AND NOT (uncompress_map ! k))"

definition next_byte :: "u8 \<Rightarrow> u8 \<Rightarrow> line_state \<Rightarrow> line_state option" where
  "next_byte col deviceNum s =
     (let s = s\<lparr>ls_i := ls_i s + 1\<rparr>
      in if ls_i s = unat col
         then case double_print col (ls_line s) deviceNum (ls_out s) of None \<Rightarrow> None
              | Some w \<Rightarrow> Some (s\<lparr>ls_out := w, ls_i := 0\<rparr>)
         else Some s)"

definition one_bit :: "bool \<Rightarrow> line_state \<Rightarrow> line_state option" where
  "one_bit v s =
     (if ls_i s < 20
      then Some (s\<lparr>ls_line := (ls_line s)[ls_i s := put_bit v (ls_line s ! ls_i s) (ls_bit s - 1)], ls_bit := ls_bit s - 1\<rparr>)
      else None)"

text \<open>The first and the second half of the loop body; both branches of the source differ in the colour only.\<close>

definition run_head :: "bool \<Rightarrow> u8 \<Rightarrow> u8 \<Rightarrow> nat \<Rightarrow> line_state \<Rightarrow> (nat \<times> line_state) option" where
  "run_head v col deviceNum count s =
     (if ls_bit s \<noteq> 0
      then case one_bit v s of None \<Rightarrow> None
        | Some s \<Rightarrow> if ls_bit s = 0
            then case next_byte col deviceNum s of None \<Rightarrow> None | Some s \<Rightarrow> Some (count - 1, s)
            else Some (count - 1, s)
      else Some (count, s))"

fun fill_bits :: "bool \<Rightarrow> nat \<Rightarrow> line_state \<Rightarrow> line_state option" where
  "fill_bits v 0 s = Some s"
| "fill_bits v (Suc count) s = (case one_bit v s of None \<Rightarrow> None | Some s \<Rightarrow> fill_bits v count s)"

definition run_tail :: "bool \<Rightarrow> u8 \<Rightarrow> u8 \<Rightarrow> nat \<Rightarrow> line_state \<Rightarrow> (nat \<times> line_state) option" where
  "run_tail v col deviceNum count s =
     (if ls_bit s = 0 \<and> 8 \<le> count
      then if ls_i s < 20
           then case next_byte col deviceNum (s\<lparr>ls_line := (ls_line s)[ls_i s := if v then 0xff else 0x00]\<rparr>) of
                  None \<Rightarrow> None | Some s \<Rightarrow> Some (count - 8, s)
           else None
      else if ls_bit s = 0 \<and> count < 8
      then case fill_bits v count (s\<lparr>ls_bit := 8\<rparr>) of None \<Rightarrow> None | Some s \<Rightarrow> Some (0, s)
      else Some (count, s))"

partial_function (option) uncompress_run :: "bool \<Rightarrow> u8 \<Rightarrow> u8 \<Rightarrow> nat \<Rightarrow> line_state \<Rightarrow> line_state option" where
  "uncompress_run v col deviceNum count s =
     (if 0 < count
      then case run_head v col deviceNum count s of None \<Rightarrow> None
        | Some (count, s) \<Rightarrow> case run_tail v col deviceNum count s of None \<Rightarrow> None
          | Some (count, s) \<Rightarrow> uncompress_run v col deviceNum count s
      else Some s)"

definition PRINT_FAST_BITMAP :: "u8 \<Rightarrow> u8 \<Rightarrow> u8 \<Rightarrow> u8 \<Rightarrow> u8 \<Rightarrow> u8 \<Rightarrow> wire \<Rightarrow> wire" where
  "PRINT_FAST_BITMAP m xl xh yl yh deviceNum w =
     fold (\<lambda>b. PRINTER_PUT b deviceNum) [0x1D, 0x76, 0x30, m, xl, xh, yl, yh] w"

definition uncompress_print :: "bytes_at \<Rightarrow> nat \<Rightarrow> u8 \<Rightarrow> wire \<Rightarrow> wire option" where
  "uncompress_print src src_end deviceNum w =
     (let row = src 0; col = src 1;
          s = \<lparr>ls_line = replicate 20 0, ls_bit = 0, ls_i = 0, ls_out = PRINT_FAST_BITMAP 0 (col * 2) 0 (row * 2) 0 deviceNum w\<rparr>
      in case fold_opt (\<lambda>s c. uncompress_run (c AND 0x80 \<noteq> 0) col deviceNum (unat (c AND 0x7F)) s) s
                (map src [2 ..< src_end + 1]) of None \<Rightarrow> None
         | Some s \<Rightarrow> Some (ls_out s))"

definition printImages :: "bytes_at \<Rightarrow> u16 \<Rightarrow> u8 \<Rightarrow> wire \<Rightarrow> wire option" where
  "printImages dat sz deviceNum w = uncompress_print dat (unat sz + 1) deviceNum w"

section \<open>Bits of a picture\<close>

text \<open>The bits of a byte from the top, and the runs of a code.\<close>

definition bits_below :: "nat \<Rightarrow> u8 \<Rightarrow> bool list" where
  "bits_below n b = map (bit b) (rev [0 ..< n])"

definition bits_of :: "u8 list \<Rightarrow> bool list" where
  "bits_of bs = concat (map (bits_below 8) bs)"

definition run_of :: "u8 \<Rightarrow> bool list" where
  "run_of c = replicate (unat (c AND 0x7F)) (c AND 0x80 \<noteq> 0)"

definition expand :: "u8 list \<Rightarrow> bool list" where
  "expand cs = concat (map run_of cs)"

fun rest_bits :: "u8 list \<Rightarrow> nat \<Rightarrow> bool list" where
  "rest_bits [] k = []"
| "rest_bits (b # bs) k = bits_below (Suc k) b @ bits_of bs"

lemma bits_below_Suc [simp]: "bits_below (Suc n) b = bit b n # bits_below n b"
  by (simp add: bits_below_def)

lemma bits_below_0 [simp]: "bits_below 0 b = []"
  by (simp add: bits_below_def)

lemma length_bits_of [simp]: "length (bits_of bs) = 8 * length bs"
  by (induction bs) (auto simp: bits_of_def bits_below_def)

lemma expand_append [simp]: "expand (xs @ ys) = expand xs @ expand ys"
  by (simp add: expand_def)

lemma and_exp: "(b :: u8) AND 2 ^ k \<noteq> 0 \<longleftrightarrow> bit b k"
  by (simp add: and_exp_eq_0_iff_not_bit)

lemma top_bit: "(c :: u8) AND 0x80 \<noteq> 0 \<longleftrightarrow> bit c 7"
  using and_exp [of c 7] by simp

lemma low_bits: "unat ((c :: u8) AND 0x7F) = unat c mod 128"
proof -
  have "c AND 0x7F = take_bit 7 c" by (simp add: take_bit_eq_mask mask_eq_exp_minus_1)
  then show ?thesis by (simp add: take_bit_eq_mod unat_mod_distrib)
qed

lemma bit_top_unat: "bit (c :: u8) 7 \<longleftrightarrow> 128 \<le> unat c"
proof -
  have "bit c 7 \<longleftrightarrow> bit (unat c) 7" by (simp add: bit_unsigned_iff)
  also have "\<dots> \<longleftrightarrow> odd (unat c div 128)" by (simp add: bit_iff_odd)
  also have "unat c div 128 = (if 128 \<le> unat c then 1 else 0)" using unat_u8 [of c] by auto
  finally show ?thesis by simp
qed

lemma run_of_code:
  assumes "n \<le> 127"
  shows "run_of (if v then 128 + of_nat n else of_nat n) = replicate n v"
proof -
  have n: "unat (of_nat n :: u8) = n" using assms by (simp add: unat_of_nat take_bit_nat_eq_self)
  then have "unat (128 + of_nat n :: u8) = 128 + n" using assms by (simp add: unat_word_ariths)
  then show ?thesis unfolding run_of_def top_bit low_bits bit_top_unat using n assms by simp
qed

lemma expand_flush: "count \<le> 127 \<Longrightarrow> \<exists>x. flush v count des = des @ x \<and> expand x = replicate count v"
  using run_of_code [of count v] by (auto simp: flush_def expand_def)

section \<open>Compression is exact\<close>

lemma drop_bit_exp:
  assumes "k < 8"
  shows "drop_bit 1 (2 ^ k :: u8) = (if k = 0 then 0 else 2 ^ (k - 1))"
proof -
  have "k = 0 \<or> k = 1 \<or> k = 2 \<or> k = 3 \<or> k = 4 \<or> k = 5 \<or> k = 6 \<or> k = 7" using assms by linarith
  then show ?thesis by (elim disjE) simp_all
qed

lemma exp_nonzero: "k < 8 \<Longrightarrow> (2 ^ k :: u8) \<noteq> 0"
  by simp

definition at_bit :: "u8 list \<Rightarrow> u8 \<Rightarrow> bool list \<Rightarrow> bool" where
  "at_bit src m bits \<longleftrightarrow> src = [] \<and> bits = [] \<or> (\<exists>k < 8. m = 2 ^ k \<and> bits = rest_bits src k)"

lemma run_loop_spec:
  assumes "at_bit src m bits" "count \<le> 127" "run_loop v src m count des = (src', m', count', des')"
  shows "\<exists>x bits'. des' = des @ x \<and> at_bit src' m' bits' \<and> count' \<le> 127
    \<and> expand x @ replicate count' v @ bits' = replicate count v @ bits
    \<and> (bits' \<noteq> [] \<longrightarrow> hd bits' = (\<not> v)) \<and> (src' = [] \<longleftrightarrow> bits' = [])"
  using assms
proof (induction v src m count des arbitrary: bits rule: run_loop.induct)
  case (1 v m count des)
  then show ?case by (force simp: at_bit_def expand_def)
next
  case (2 v b src m count des)
  obtain k where k: "k < 8" "m = 2 ^ k" "bits = rest_bits (b # src) k" using 2(4) by (auto simp: at_bit_def)
  have bm: "(b AND m \<noteq> 0) = bit b k" by (simp add: k and_exp)
  show ?case
  proof (cases "bit b k = v")
    case False
    then have "src' = b # src" "m' = m" "count' = count" "des' = des" using 2(6) bm by auto
    then show ?thesis using 2(4,5) k False by (intro exI [of _ "[]"] exI [of _ bits]) (auto simp: expand_def)
  next
    case True
    then have bm': "(b AND m \<noteq> 0) = v" using bm by simp
    consider (full) "count = 127" | (stop) "count \<noteq> 127" "k = 0" "src = []"
      | (byte) "count \<noteq> 127" "k = 0" "src \<noteq> []" | (shift) "count \<noteq> 127" "k \<noteq> 0" by auto
    then show ?thesis
    proof cases
      case full
      have "expand [if v then 0xff else 127] = replicate 127 v"
        using run_of_code [of 127 v] by (cases v) (auto simp: expand_def)
      moreover obtain x bits' where "des' = (des @ [if v then 0xff else 127]) @ x" "at_bit src' m' bits'" "count' \<le> 127"
        "expand x @ replicate count' v @ bits' = bits" "bits' \<noteq> [] \<longrightarrow> hd bits' = (\<not> v)" "src' = [] \<longleftrightarrow> bits' = []"
        using 2(1) [OF bm' full 2(4)] 2(6) bm' full by auto
      ultimately show ?thesis using full expand_append [of "[if v then 0xff else 127]" x]
        by (intro exI [of _ "[if v then 0xff else 127] @ x"] exI [of _ bits']) (cases v, simp_all)
    next
      case stop
      then have "src' = []" "m' = drop_bit 1 m" "count' = count + 1" "des' = des" "bits = [v]"
        using \<open>bit b k = v\<close> stop k bm' drop_bit_exp [of k] 2(6) by (auto simp: bits_of_def)
      then show ?thesis using stop 2(5)
        by (intro exI [of _ "[]"] exI [of _ "[]"]) (auto simp: at_bit_def expand_def replicate_append_same)
    next
      case byte
      then have z: "drop_bit 1 m = 0" using k drop_bit_exp [of k] by simp
      obtain c cs where "src = c # cs" using byte by (cases src) auto
      then have bits: "bits = v # rest_bits src 7" using k byte \<open>bit b k = v\<close> by (auto simp: bits_of_def)
      have "at_bit src 0x80 (rest_bits src 7)" unfolding at_bit_def by (intro disjI2 exI [of _ 7]) simp
      moreover have "run_loop v src 0x80 (count + 1) des = (src', m', count', des')" using "2.prems"(3) bm' byte z by simp
      moreover have "count + 1 \<le> 127" using "2.prems"(2) byte by simp
      ultimately obtain x bits' where "des' = des @ x" "at_bit src' m' bits'" "count' \<le> 127"
        "expand x @ replicate count' v @ bits' = replicate (count + 1) v @ rest_bits src 7"
        "bits' \<noteq> [] \<longrightarrow> hd bits' = (\<not> v)" "src' = [] \<longleftrightarrow> bits' = []"
        using "2.IH"(2) [OF bm' byte(1) z byte(3), of "rest_bits src 7"] by auto
      then show ?thesis using bits
        by (intro exI [of _ x] exI [of _ bits']) (simp add: replicate_append_same [symmetric])
    next
      case shift
      then have d: "drop_bit 1 m = 2 ^ (k - 1)" "drop_bit 1 m \<noteq> 0" using k drop_bit_exp [of k] by auto
      have bits: "bits = v # rest_bits (b # src) (k - 1)" using k shift \<open>bit b k = v\<close> by (cases k) auto
      have "at_bit (b # src) (drop_bit 1 m) (rest_bits (b # src) (k - 1))"
        unfolding at_bit_def using d k by (intro disjI2 exI [of _ "k - 1"]) auto
      moreover have "run_loop v (b # src) (drop_bit 1 m) (count + 1) des = (src', m', count', des')"
        using "2.prems"(3) bm' shift d(2) by simp
      moreover have "count + 1 \<le> 127" using "2.prems"(2) shift by simp
      ultimately obtain x bits' where "des' = des @ x" "at_bit src' m' bits'" "count' \<le> 127"
        "expand x @ replicate count' v @ bits' = replicate (count + 1) v @ rest_bits (b # src) (k - 1)"
        "bits' \<noteq> [] \<longrightarrow> hd bits' = (\<not> v)" "src' = [] \<longleftrightarrow> bits' = []"
        using "2.IH"(3) [OF bm' shift(1) d(2), of "rest_bits (b # src) (k - 1)"] by auto
      then show ?thesis using bits
        by (intro exI [of _ x] exI [of _ bits']) (simp add: replicate_append_same [symmetric])
    qed
  qed
qed

lemma rest_bits_nonempty: "at_bit src m bits \<Longrightarrow> src \<noteq> [] \<Longrightarrow> bits \<noteq> []"
  by (auto simp: at_bit_def neq_Nil_conv)

lemma compress_loop_spec:
  assumes "at_bit src m bits" "src \<noteq> []"
  shows "\<exists>cs. compress_loop src m des = Some (des @ cs) \<and> expand cs = bits"
  using assms
proof (induction bits arbitrary: src m des rule: length_induct)
  case (1 bits)
  obtain src1 m1 n1 d1 where r1: "run_loop True src m 0 des = (src1, m1, n1, d1)" by (metis prod_cases4)
  obtain x1 bits1 where x1: "d1 = des @ x1" "at_bit src1 m1 bits1" "n1 \<le> 127" "expand x1 @ replicate n1 True @ bits1 = bits"
    "bits1 \<noteq> [] \<longrightarrow> hd bits1 = False" "src1 = [] \<longleftrightarrow> bits1 = []"
    using run_loop_spec [OF 1(2) _ r1] by auto
  obtain f1 where f1: "flush True n1 d1 = d1 @ f1" "expand f1 = replicate n1 True" using expand_flush [OF x1(3)] by blast
  show ?case
  proof (cases "src1 = []")
    case True
    then show ?thesis using r1 x1 f1 by (subst compress_loop.simps) (auto simp: Let_def)
  next
    case False
    obtain src2 m2 n2 d2 where r2: "run_loop False src1 m1 0 (d1 @ f1) = (src2, m2, n2, d2)" by (metis prod_cases4)
    obtain x2 bits2 where x2: "d2 = (d1 @ f1) @ x2" "at_bit src2 m2 bits2" "n2 \<le> 127" "expand x2 @ replicate n2 False @ bits2 = bits1"
      "bits2 \<noteq> [] \<longrightarrow> hd bits2 = True" "src2 = [] \<longleftrightarrow> bits2 = []"
      using run_loop_spec [OF x1(2) _ r2] by auto
    obtain f2 where f2: "flush False n2 d2 = d2 @ f2" "expand f2 = replicate n2 False" using expand_flush [OF x2(3)] by blast
    have "bits1 \<noteq> []" using False x1 by simp
    then have "bits2 \<noteq> bits1" using x1(5) x2(5) by auto
    then have "expand x2 @ replicate n2 False \<noteq> []" using x2(4) by auto
    then have "length bits2 < length bits1" using x2(4) by (metis append.assoc length_append length_greater_0_conv less_add_same_cancel2)
    then have short: "length bits2 < length bits" using x1(4) by (metis append.assoc length_append trans_less_add2)
    show ?thesis
    proof (cases "src2 = []")
      case True
      then have "compress_loop src m des = Some (d2 @ f2)"
        using r1 r2 f1 f2 False by (subst compress_loop.simps) (simp add: Let_def)
      then show ?thesis using True x1 x2 f1 f2 by auto
    next
      case ne: False
      obtain cs where cs: "compress_loop src2 m2 (d2 @ f2) = Some ((d2 @ f2) @ cs)" "expand cs = bits2"
        using 1(1) short x2(2) ne by blast
      then have "compress_loop src m des = Some ((d2 @ f2) @ cs)"
        using r1 r2 f1 f2 False ne by (subst compress_loop.simps) (simp add: Let_def)
      then show ?thesis using x1 x2 f1 f2 cs by (intro exI [of _ "x1 @ f1 @ x2 @ f2 @ cs"]) auto
    qed
  qed
qed

text \<open>The codes of a picture stand for exactly its bits.\<close>

lemma compress_spec:
  assumes "src \<noteq> []"
  shows "\<exists>cs. compress src row col = Some (row # col # cs) \<and> expand cs = bits_of src"
proof -
  have "rest_bits src 7 = bits_of src" using assms by (cases src) (auto simp: bits_of_def)
  moreover have "at_bit src 0x80 (rest_bits src 7)" unfolding at_bit_def by (intro disjI2 exI [of _ 7]) simp
  ultimately show ?thesis
    using compress_loop_spec [of src "0x80" "bits_of src" "[row, col]"] assms by (auto simp: compress_def)
qed

section \<open>Decompression is exact\<close>

lemma uncompress_map_exp: "k < 8 \<Longrightarrow> uncompress_map ! k = 2 ^ k"
proof -
  assume "k < 8"
  then have "k = 0 \<or> k = 1 \<or> k = 2 \<or> k = 3 \<or> k = 4 \<or> k = 5 \<or> k = 6 \<or> k = 7" by linarith
  then show ?thesis by (elim disjE) (simp_all add: uncompress_map_def)
qed

lemma bit_put_bit: "k < 8 \<Longrightarrow> j < 8 \<Longrightarrow> bit (put_bit v b k) j = (if j = k then v else bit b j)"
  by (auto simp: put_bit_def uncompress_map_exp bit_or_iff bit_and_iff bit_not_iff bit_exp_iff)

definition partial :: "nat \<Rightarrow> nat \<Rightarrow> u8 list \<Rightarrow> bool list" where
  "partial i k line = bits_of (take i line) @ map (bit (line ! i)) (rev [k ..< 8])"

lemma bits_of_append [simp]: "bits_of (xs @ ys) = bits_of xs @ bits_of ys"
  by (simp add: bits_of_def)

lemma partial_8 [simp]: "partial i 8 line = bits_of (take i line)"
  by (simp add: partial_def)

lemma partial_0: "i < length line \<Longrightarrow> partial i 0 line = bits_of (take (Suc i) line)"
  by (simp add: partial_def take_Suc_conv_app_nth bits_of_def bits_below_def)

lemma partial_put:
  assumes "i < length line" "0 < k" "k \<le> 8"
  shows "partial i (k - 1) (line[i := put_bit v (line ! i) (k - 1)]) = partial i k line @ [v]"
proof -
  have "[k - 1 ..< 8] = (k - 1) # [k ..< 8]" using assms upt_conv_Cons [of "k - 1" 8] by simp
  then show ?thesis using assms by (auto simp: partial_def bit_put_bit)
qed

lemma bits_whole: "bits_below 8 (if v then 0xff else 0x00) = replicate 8 v"
proof (rule nth_equalityI)
  have ff: "bit (0xff :: u8) i = (i < 8)" for i
  proof -
    have "(0xff :: u8) = mask 8" by (simp add: mask_eq_exp_minus_1)
    then have "bit (0xff :: u8) i = bit (mask 8 :: u8) i" by (rule arg_cong)
    also have "\<dots> = (i < 8)" by (auto simp only: bit_mask_iff possible_bit_word len_bit0 len_num1)
    finally show ?thesis .
  qed
  then show "bits_below 8 (if v then 0xff else 0x00) ! j = replicate 8 v ! j" if "j < length (bits_below 8 (if v then 0xff else 0x00))" for j
    using that by (cases v) (auto simp: bits_below_def rev_nth simp del: upt_Suc)
qed (simp add: bits_below_def)

lemma take_nths: "n \<le> length xs \<Longrightarrow> take n xs = map ((!) xs) [0 ..< n]"
  by (rule nth_equalityI) auto

text \<open>What \<^verbatim>\<open>double_print\<close> sends for a line.\<close>

definition double_bytes :: "u8 list \<Rightarrow> u8 list" where
  "double_bytes bs = concat (map (\<lambda>b. [byte 1 (double_cell b), byte 0 (double_cell b)]) bs)"

lemma double_print_spec:
  assumes "unat col \<le> 25" "unat col \<le> length buf"
  shows "double_print col buf d w
    = Some (w @ map (Pair d) (double_bytes (take (unat col) buf) @ double_bytes (take (unat col) buf)))"
proof -
  have *: "fold (\<lambda>i w. PRINTER_PUT (byte 0 (g i)) d (PRINTER_PUT (byte 1 (g i)) d w)) is w
      = w @ map (Pair d) (concat (map (\<lambda>i. [byte 1 (g i), byte 0 (g i)]) is))" for g :: "nat \<Rightarrow> u16" and "is" w
    by (induction "is" arbitrary: w) (auto simp: PRINTER_PUT_def)
  have "double_bytes (take (unat col) buf) = concat (map (\<lambda>i. [byte 1 (double_cell (buf ! i)), byte 0 (double_cell (buf ! i))]) [0 ..< unat col])"
    using assms(2) by (simp add: double_bytes_def take_nths comp_def)
  also have "\<dots> = concat (map (\<lambda>i. [byte 1 (map (\<lambda>i. double_cell (buf ! i)) [0 ..< unat col] ! i),
      byte 0 (map (\<lambda>i. double_cell (buf ! i)) [0 ..< unat col] ! i)]) [0 ..< unat col])"
    by (intro arg_cong [of _ _ concat] map_cong refl) simp
  finally have db: "double_bytes (take (unat col) buf) = \<dots>" .
  have two: "[0 ..< 2] = [0, 1 :: nat]" by (simp add: upt_rec)
  show ?thesis using assms(1) unfolding double_print_def Let_def * db two by simp
qed

text \<open>The bits consumed so far are the printed rows and the open row.\<close>

definition emit :: "u8 \<Rightarrow> u8 list list \<Rightarrow> wire" where
  "emit d rows = concat (map (\<lambda>r. map (Pair d) (double_bytes r @ double_bytes r)) rows)"

definition pending :: "line_state \<Rightarrow> bool list" where
  "pending s = partial (ls_i s) (if ls_bit s = 0 then 8 else ls_bit s) (ls_line s)"

definition line_inv :: "u8 \<Rightarrow> u8 \<Rightarrow> wire \<Rightarrow> line_state \<Rightarrow> bool list \<Rightarrow> bool" where
  "line_inv col d w0 s fed \<longleftrightarrow> unat col \<le> 20 \<and> length (ls_line s) = 20 \<and> ls_bit s \<le> 8 \<and> ls_i s < unat col
     \<and> (\<exists>rows. ls_out s = w0 @ emit d rows \<and> (\<forall>r \<in> set rows. length r = unat col)
          \<and> fed = bits_of (concat rows) @ pending s)"

lemma emit_snoc: "emit d (rows @ [r]) = emit d rows @ map (Pair d) (double_bytes r @ double_bytes r)"
  by (simp add: emit_def)

lemma next_byte_inv:
  assumes "unat col \<le> 20" "length (ls_line s) = 20" "ls_bit s = 0" "ls_i s < unat col"
    "ls_out s = w0 @ emit d rows" "\<forall>r \<in> set rows. length r = unat col"
  shows "\<exists>s'. next_byte col d s = Some s' \<and> ls_bit s' = 0
    \<and> line_inv col d w0 s' (bits_of (concat rows) @ bits_of (take (Suc (ls_i s)) (ls_line s)))"
proof (cases "Suc (ls_i s) = unat col")
  case True
  then have "next_byte col d s = Some (s\<lparr>ls_i := 0, ls_out := w0 @ emit d (rows @ [take (unat col) (ls_line s)])\<rparr>)"
    using assms by (simp add: next_byte_def double_print_spec emit_snoc)
  then show ?thesis using assms True
    by (auto simp: line_inv_def pending_def intro!: exI [of _ "rows @ [take (unat col) (ls_line s)]"])
      (simp_all add: bits_of_def)
next
  case False
  then show ?thesis using assms by (auto simp: next_byte_def line_inv_def pending_def)
qed

lemma run_head_inv:
  assumes inv: "line_inv col d w0 s fed" and "0 < count"
  shows "\<exists>s'. if ls_bit s = 0 then run_head v col d count s = Some (count, s)
    else run_head v col d count s = Some (count - 1, s') \<and> line_inv col d w0 s' (fed @ [v])"
proof (cases "ls_bit s = 0")
  case False
  obtain rows where r: "ls_out s = w0 @ emit d rows" "\<forall>r \<in> set rows. length r = unat col"
    "fed = bits_of (concat rows) @ partial (ls_i s) (ls_bit s) (ls_line s)"
    using inv False by (auto simp: line_inv_def pending_def)
  have b: "unat col \<le> 20" "length (ls_line s) = 20" "ls_bit s \<le> 8" "ls_i s < unat col"
    using inv by (auto simp: line_inv_def)
  let ?l = "(ls_line s)[ls_i s := put_bit v (ls_line s ! ls_i s) (ls_bit s - 1)]"
  let ?s = "s\<lparr>ls_line := ?l, ls_bit := ls_bit s - 1\<rparr>"
  have p: "partial (ls_i s) (ls_bit s - 1) ?l = partial (ls_i s) (ls_bit s) (ls_line s) @ [v]"
    using b False by (intro partial_put) auto
  have one: "one_bit v s = Some ?s" using b by (simp add: one_bit_def)
  show ?thesis
  proof (cases "ls_bit s = 1")
    case True
    then have "partial (ls_i s) 0 ?l = bits_of (take (Suc (ls_i s)) ?l)" using b by (intro partial_0) simp
    then have "fed @ [v] = bits_of (concat rows) @ bits_of (take (Suc (ls_i ?s)) (ls_line ?s))"
      using r(3) p True by simp
    moreover obtain s' where "next_byte col d ?s = Some s'"
      "line_inv col d w0 s' (bits_of (concat rows) @ bits_of (take (Suc (ls_i ?s)) (ls_line ?s)))"
      using next_byte_inv [of col ?s w0 d rows] b r True by auto
    ultimately show ?thesis using one True by (auto simp: run_head_def)
  next
    case notlast: False
    then have "run_head v col d count s = Some (count - 1, ?s)" using one False by (simp add: run_head_def)
    moreover have "line_inv col d w0 ?s (fed @ [v])"
      using b r p False notlast by (auto simp: line_inv_def pending_def intro!: exI [of _ rows])
    ultimately show ?thesis using False by auto
  qed
qed (simp add: run_head_def)

lemma fill_bits_inv:
  assumes "line_inv col d w0 s fed" "count < ls_bit s"
  shows "\<exists>s'. fill_bits v count s = Some s' \<and> line_inv col d w0 s' (fed @ replicate count v)"
  using assms
proof (induction count arbitrary: s fed)
  case (Suc count)
  obtain s1 where s1: "run_head v col d 1 s = Some (0, s1)" "line_inv col d w0 s1 (fed @ [v])"
    using run_head_inv [OF Suc.prems(1), of 1 v] Suc.prems(2) by auto
  have "ls_i s < 20" using Suc.prems(1) by (auto simp: line_inv_def)
  then have "one_bit v s = Some s1 \<and> ls_bit s1 = ls_bit s - 1" using s1(1) Suc.prems(2)
    by (auto simp: run_head_def one_bit_def split: if_splits option.splits)
  then show ?case using Suc.IH [OF s1(2)] Suc.prems(2) by auto
qed simp

lemma run_tail_inv:
  assumes inv: "line_inv col d w0 s fed"
  shows "\<exists>n s'. n \<le> count \<and> run_tail v col d count s = Some (count - n, s')
    \<and> line_inv col d w0 s' (fed @ replicate n v) \<and> (ls_bit s = 0 \<longrightarrow> 0 < count \<longrightarrow> 0 < n)"
proof -
  consider "ls_bit s \<noteq> 0" | "ls_bit s = 0" "8 \<le> count" | "ls_bit s = 0" "count < 8" by linarith
  then show ?thesis
  proof cases
    case 1
    then show ?thesis using inv by (intro exI [of _ 0] exI [of _ s]) (simp add: run_tail_def)
  next
    case 2
    obtain rows where r: "ls_out s = w0 @ emit d rows" "\<forall>r \<in> set rows. length r = unat col"
      "fed = bits_of (concat rows) @ bits_of (take (ls_i s) (ls_line s))"
      using inv 2 by (auto simp: line_inv_def pending_def)
    have b: "unat col \<le> 20" "length (ls_line s) = 20" "ls_i s < unat col" using inv by (auto simp: line_inv_def)
    let ?s = "s\<lparr>ls_line := (ls_line s)[ls_i s := if v then 0xff else 0x00]\<rparr>"
    have "bits_of (take (Suc (ls_i ?s)) (ls_line ?s)) = bits_of (take (ls_i s) (ls_line s)) @ replicate 8 v"
      using b bits_whole [of v] by (simp add: take_Suc_conv_app_nth bits_of_def)
    then obtain s' where "next_byte col d ?s = Some s'" "line_inv col d w0 s' (fed @ replicate 8 v)"
      using next_byte_inv [of col ?s w0 d rows] b r 2 by auto
    then show ?thesis using 2 b by (intro exI [of _ 8] exI [of _ s']) (simp add: run_tail_def)
  next
    case 3
    have "line_inv col d w0 (s\<lparr>ls_bit := 8\<rparr>) fed" using inv 3 by (simp add: line_inv_def pending_def)
    then obtain s' where "fill_bits v count (s\<lparr>ls_bit := 8\<rparr>) = Some s'" "line_inv col d w0 s' (fed @ replicate count v)"
      using fill_bits_inv [of col d w0 "s\<lparr>ls_bit := 8\<rparr>" fed count v] 3 by auto
    then show ?thesis using 3 by (intro exI [of _ count] exI [of _ s']) (simp add: run_tail_def)
  qed
qed

lemma uncompress_run_inv:
  assumes "line_inv col d w0 s fed"
  shows "\<exists>s'. uncompress_run v col d count s = Some s' \<and> line_inv col d w0 s' (fed @ replicate count v)"
  using assms
proof (induction count arbitrary: s fed rule: less_induct)
  case (less count)
  show ?case
  proof (cases "count = 0")
    case True
    then show ?thesis using less.prems by (subst uncompress_run.simps) simp
  next
    case False
    obtain k s1 where h: "k \<le> 1" "run_head v col d count s = Some (count - k, s1)" "line_inv col d w0 s1 (fed @ replicate k v)"
      "k = 0 \<longrightarrow> ls_bit s1 = 0"
    proof (cases "ls_bit s = 0")
      case True
      then show ?thesis using that [of 0 s] run_head_inv [OF less.prems, of count v] False less.prems by simp
    next
      case nz: False
      then show ?thesis using that [of 1] run_head_inv [OF less.prems, of count v] False by auto
    qed
    obtain n s2 where t: "n \<le> count - k" "run_tail v col d (count - k) s1 = Some (count - k - n, s2)"
      "line_inv col d w0 s2 ((fed @ replicate k v) @ replicate n v)" "ls_bit s1 = 0 \<longrightarrow> 0 < count - k \<longrightarrow> 0 < n"
      using run_tail_inv [OF h(3), of "count - k" v] by (elim exE conjE) (rule that)
    have "count - k - n < count" 
    proof (cases "k = 0")
      case True
      then have "0 < n" using h(4) t(4) False by simp
      then show ?thesis using False by linarith
    next
      case nz: False
      then show ?thesis using False by linarith
    qed
    then obtain s' where u: "uncompress_run v col d (count - k - n) s2 = Some s'"
      "line_inv col d w0 s' (((fed @ replicate k v) @ replicate n v) @ replicate (count - k - n) v)"
      using less.IH t(3) by blast
    have "uncompress_run v col d count s = Some s'"
      using False u(1) by (subst uncompress_run.simps) (simp add: h(2) t(2))
    moreover have "((fed @ replicate k v) @ replicate n v) @ replicate (count - k - n) v = fed @ replicate count v"
      using h(1) t(1) False by (simp add: replicate_add [symmetric])
    ultimately show ?thesis using u(2) by metis
  qed
qed

lemma uncompress_codes_inv:
  assumes "line_inv col d w0 s fed"
  shows "\<exists>s'. fold_opt (\<lambda>s c. uncompress_run (c AND 0x80 \<noteq> 0) col d (unat (c AND 0x7F)) s) s cs = Some s'
    \<and> line_inv col d w0 s' (fed @ expand cs)"
  using assms
proof (induction cs arbitrary: s fed)
  case (Cons c cs)
  obtain s1 where s1: "uncompress_run (c AND 0x80 \<noteq> 0) col d (unat (c AND 0x7F)) s = Some s1"
    "line_inv col d w0 s1 (fed @ run_of c)"
    using uncompress_run_inv [OF Cons.prems] unfolding run_of_def by blast
  then show ?case using Cons.IH [OF s1(2)] by (simp add: expand_def)
qed (simp add: expand_def)

text \<open>A picture of whole rows is determined by its bits.\<close>

lemma bits_below_inj: "bits_below 8 a = bits_below 8 b \<Longrightarrow> a = b"
  by (rule bit_word_eqI) (auto simp: bits_below_def)

lemma bits_of_inj: "bits_of xs = bits_of ys \<Longrightarrow> xs = ys"
proof (induction xs arbitrary: ys)
  case Nil
  then have "length (bits_of ys) = 0" by (simp only: Nil [symmetric]) (simp add: bits_of_def)
  then show ?case by simp
next
  case (Cons x xs)
  have "length (bits_of ys) = 8 * length (x # xs)" by (simp only: Cons(2) [symmetric] length_bits_of)
  then obtain z zs where z: "ys = z # zs" by (cases ys) auto
  have "bits_below 8 x @ bits_of xs = bits_below 8 z @ bits_of zs" using Cons(2) z by (simp add: bits_of_def)
  then have "bits_below 8 x = bits_below 8 z" "bits_of xs = bits_of zs"
    by (auto simp: bits_below_def)
  then show ?case using Cons(1) z bits_below_inj by blast
qed

fun rows_of :: "nat \<Rightarrow> nat \<Rightarrow> u8 list \<Rightarrow> u8 list list" where
  "rows_of 0 n img = []"
| "rows_of (Suc k) n img = take n img # rows_of k n (drop n img)"

lemma rows_of_concat: "\<forall>r \<in> set rows. length r = n \<Longrightarrow> rows_of (length rows) n (concat rows) = rows"
  by (induction rows) auto

lemma sum_rows: "\<forall>r \<in> set rows. length r = n \<Longrightarrow> length (concat rows) = length rows * n"
  by (induction rows) auto

lemma whole_rows:
  assumes "line_inv col d w0 s (bits_of img)" "length img = k * unat col"
  shows "ls_out s = w0 @ emit d (rows_of k (unat col) img)"
proof -
  obtain rows where r: "ls_out s = w0 @ emit d rows" "\<forall>r \<in> set rows. length r = unat col"
    "bits_of img = bits_of (concat rows) @ pending s" using assms(1) by (auto simp: line_inv_def)
  have b: "ls_i s < unat col" "unat col \<le> 20" "length (ls_line s) = 20" "ls_bit s \<le> 8" using assms(1) by (auto simp: line_inv_def)
  have lp: "length (pending s) < 8 * unat col" using b by (auto simp: pending_def partial_def)
  have "8 * length img = 8 * (length rows * unat col) + length (pending s)"
    using arg_cong [OF r(3), of length] sum_rows [OF r(2)] by simp
  then have e: "8 * unat col * k = 8 * unat col * length rows + length (pending s)"
    using assms(2) by (simp add: algebra_simps)
  have "k = length rows"
  proof (rule ccontr)
    assume "k \<noteq> length rows"
    moreover have "length rows \<le> k" using e b(1) by (metis le_add1 mult_le_cancel1 mult_pos_pos zero_less_numeral not_less_zero neq0_conv)
    ultimately have "Suc (length rows) \<le> k" by simp
    then have "8 * unat col * Suc (length rows) \<le> 8 * unat col * k" by (rule mult_le_mono2)
    then show False using e lp by simp
  qed
  then have "pending s = []" using e by simp
  then have "img = concat rows" using r(3) by (auto intro: bits_of_inj)
  then show ?thesis using r rows_of_concat [OF r(2)] \<open>k = length rows\<close> by simp
qed

section \<open>Pixels\<close>

lemma scale_bits:
  assumes "s * length ps \<le> LENGTH('a::len)"
  shows "bit (fold (\<lambda>p a. push_bit s a OR (if p then mask s else 0)) ps (0 :: 'a word)) j
    \<longleftrightarrow> j < s * length ps \<and> rev ps ! (j div s)"
  using assms
proof (induction ps arbitrary: j rule: rev_induct)
  case (snoc p ps)
  let ?a = "fold (\<lambda>p a. push_bit s a OR (if p then mask s else 0)) ps (0 :: 'a word)"
  have "bit (push_bit s ?a OR (if p then mask s else 0)) j
      \<longleftrightarrow> s \<le> j \<and> j < LENGTH('a) \<and> bit ?a (j - s) \<or> p \<and> j < s \<and> j < LENGTH('a)"
    by (auto simp: bit_or_iff bit_push_bit_iff bit_mask_iff)
  also have "\<dots> \<longleftrightarrow> j < s * length (ps @ [p]) \<and> rev (ps @ [p]) ! (j div s)"
  proof (cases "j < s")
    case True
    then show ?thesis using snoc.prems by (auto simp: not_le)
  next
    case False
    then have "0 < s \<longrightarrow> j div s = Suc ((j - s) div s)" by (auto simp: le_div_geq)
    then show ?thesis using False snoc.prems snoc.IH [of "j - s"]
      by (cases "s = 0") (auto simp: bit_imp_le_length)
  qed
  finally show ?case by simp
qed simp

lemma mask_tests: "map (\<lambda>m. (b :: u8) AND m \<noteq> 0) masks = bits_below 8 b"
proof -
  have "masks = map (\<lambda>k. 2 ^ k) (rev [0 ..< 8])" by (simp add: upt_rec)
  then have "map (\<lambda>m. b AND m \<noteq> 0) masks = map (\<lambda>k. b AND 2 ^ k \<noteq> 0) (rev [0 ..< 8])"
    by (simp only: map_map comp_def)
  then show ?thesis by (simp only: and_exp bits_below_def)
qed

lemma rev_bits_below: "i < n \<Longrightarrow> rev (bits_below n b) ! i = bit b i"
  by (simp add: bits_below_def rev_map [symmetric])

lemma double_cell_bits: "bit (double_cell b) j \<longleftrightarrow> j < 16 \<and> bit b (j div 2)"
proof -
  have "double_cell b = fold (\<lambda>p a. push_bit 2 a OR (if p then mask 2 else 0)) (map (\<lambda>m. b AND m \<noteq> 0) masks) 0"
    unfolding double_cell_def fold_map comp_def
    by (intro fold_cong refl) (auto simp: mask_eq_exp_minus_1)
  then have "bit (double_cell b) j \<longleftrightarrow> j < 2 * length (bits_below 8 b) \<and> rev (bits_below 8 b) ! (j div 2)"
    by (simp only: mask_tests) (intro scale_bits, simp add: bits_below_def)
  also have "length (bits_below 8 b) = 8" by (simp add: bits_below_def)
  finally show ?thesis using rev_bits_below [of "j div 2" 8 b] by (cases "j < 16") auto
qed

lemma four_cell_bits: "bit (four_cell b) j \<longleftrightarrow> j < 32 \<and> bit b (j div 4)"
proof -
  have "four_cell b = fold (\<lambda>p a. push_bit 4 a OR (if p then mask 4 else 0)) (map (\<lambda>m. b AND m \<noteq> 0) masks) 0"
    unfolding four_cell_def fold_map comp_def
    by (intro fold_cong refl) (auto simp: mask_eq_exp_minus_1)
  then have "bit (four_cell b) j \<longleftrightarrow> j < 4 * length (bits_below 8 b) \<and> rev (bits_below 8 b) ! (j div 4)"
    by (simp only: mask_tests) (intro scale_bits, simp add: bits_below_def)
  also have "length (bits_below 8 b) = 8" by (simp add: bits_below_def)
  finally show ?thesis using rev_bits_below [of "j div 4" 8 b] by (cases "j < 32") auto
qed

lemma bits_double: "bits_of [byte 1 (double_cell b), byte 0 (double_cell b)] = concat (map (\<lambda>p. [p, p]) (bits_below 8 b))"
proof -
  have "bit (byte 0 (double_cell b)) j = bit b (j div 2)" "bit (byte 1 (double_cell b)) j = bit b (4 + j div 2)"
    if "j < 8" for j
  proof -
    have "(8 + j) div 2 = 4 + j div 2" by presburger
    then show "bit (byte 0 (double_cell b)) j = bit b (j div 2)" "bit (byte 1 (double_cell b)) j = bit b (4 + j div 2)"
      using that by (simp_all add: byte_def bit_simps double_cell_bits)
  qed
  moreover have "rev [0 ..< 8] = [7, 6, 5, 4, 3, 2, 1, 0 :: nat]" by (simp add: upt_rec)
  moreover have "4 + (7 :: nat) div 2 = 7" "4 + (6 :: nat) div 2 = 7" "4 + (5 :: nat) div 2 = 6" "4 + (4 :: nat) div 2 = 6"
    "4 + (3 :: nat) div 2 = 5" "4 + (2 :: nat) div 2 = 5" "4 + (1 :: nat) div 2 = 4" "4 + (0 :: nat) div 2 = 4"
    "(7 :: nat) div 2 = 3" "(6 :: nat) div 2 = 3" "(5 :: nat) div 2 = 2" "(3 :: nat) div 2 = 1" by simp_all
  ultimately show ?thesis unfolding bits_of_def bits_below_def by (simp del: add_numeral_left One_nat_def)
qed

lemma bits_double_bytes: "bits_of (double_bytes bs) = concat (map (\<lambda>p. [p, p]) (bits_of bs))"
proof (induction bs)
  case (Cons b bs)
  have "double_bytes (b # bs) = [byte 1 (double_cell b), byte 0 (double_cell b)] @ double_bytes bs"
    by (simp add: double_bytes_def)
  then have "bits_of (double_bytes (b # bs)) = bits_of [byte 1 (double_cell b), byte 0 (double_cell b)] @ bits_of (double_bytes bs)"
    by (simp only: bits_of_append)
  then show ?case by (simp only: Cons bits_double) (simp add: bits_of_def)
qed (simp add: double_bytes_def bits_of_def)

section \<open>Properties\<close>

text \<open>C17. A picture of whole rows that has been compressed is printed exactly: the decompression
  sends the bitmap command and then each row of the picture twice, every row in doubled pixels.\<close>

theorem picture_roundtrip:
  assumes "0 < unat col" "unat col \<le> 20" "img \<noteq> []" "length img = k * unat col"
    and "\<And>codes i. compress img row col = Some codes \<Longrightarrow> i < length codes \<Longrightarrow> src i = codes ! i"
  shows "\<exists>codes. compress img row col = Some codes
    \<and> uncompress_print src (length codes - 1) d w
        = Some (PRINT_FAST_BITMAP 0 (col * 2) 0 (row * 2) 0 d w @ emit d (rows_of k (unat col) img))"
proof -
  obtain cs where cs: "compress img row col = Some (row # col # cs)" "expand cs = bits_of img"
    using compress_spec [OF assms(3)] by blast
  note src = assms(5) [OF cs(1)]
  let ?w = "PRINT_FAST_BITMAP 0 (col * 2) 0 (row * 2) 0 d w"
  let ?s = "\<lparr>ls_line = replicate 20 0, ls_bit = 0, ls_i = 0, ls_out = ?w\<rparr>"
  have "line_inv col d ?w ?s []"
    using assms(1,2) by (auto simp: line_inv_def pending_def bits_of_def emit_def intro!: exI [of _ "[]"])
  then obtain s' where s': "fold_opt (\<lambda>s c. uncompress_run (c AND 0x80 \<noteq> 0) col d (unat (c AND 0x7F)) s) ?s cs = Some s'"
    "line_inv col d ?w s' (bits_of img)"
    using uncompress_codes_inv [of col d ?w ?s "[]" cs] cs(2) by auto
  have hd2: "src 0 = row" "src 1 = col" using src [of 0] src [of 1] by auto
  have tl2: "map src [2 ..< length (row # col # cs) - 1 + 1] = cs"
  proof (rule nth_equalityI)
    fix i assume "i < length (map src [2 ..< length (row # col # cs) - 1 + 1])"
    then show "map src [2 ..< length (row # col # cs) - 1 + 1] ! i = cs ! i"
      using src [of "2 + i"] by (simp del: upt_Suc)
  qed (simp del: upt_Suc)
  have "uncompress_print src (length (row # col # cs) - 1) d w = Some (ls_out s')"
    unfolding uncompress_print_def Let_def hd2 tl2 s'(1) by simp
  then have "uncompress_print src (length (row # col # cs) - 1) d w = Some (?w @ emit d (rows_of k (unat col) img))"
    by (simp only: whole_rows [OF s'(2) assms(4)])
  then show ?thesis by (intro exI [of _ "row # col # cs"] conjI cs(1))
qed

theorem picture_roundtrip_witness:
  "\<exists>codes src. compress [0xf0, 0x0f, 0xff, 0x01] 2 2 = Some codes
    \<and> uncompress_print src (length codes - 1) 1 []
        = Some (PRINT_FAST_BITMAP 0 (2 * 2) 0 (2 * 2) 0 1 [] @ emit 1 (rows_of 2 2 [0xf0, 0x0f, 0xff, 0x01]))"
proof -
  let ?img = "[0xf0, 0x0f, 0xff, 0x01]"
  have src: "the (compress ?img 2 2) ! i = codes ! i" if "compress ?img 2 2 = Some codes" "i < length codes" for codes i
    by (simp only: that option.sel)
  have "\<exists>codes. compress ?img 2 2 = Some codes
    \<and> uncompress_print (\<lambda>i. the (compress ?img 2 2) ! i) (length codes - 1) 1 []
        = Some (PRINT_FAST_BITMAP 0 (2 * 2) 0 (2 * 2) 0 1 [] @ emit 1 (rows_of 2 (unat (2 :: u8)) ?img))"
    by (rule picture_roundtrip [OF _ _ _ _ src]) simp_all
  moreover have "unat (2 :: u8) = 2" by simp
  ultimately show ?thesis by metis
qed

text \<open>C18. The enlarged line sends every pixel of the line twice in a row, and the whole line twice.\<close>

theorem double_print_pixels:
  assumes "unat col \<le> 25" "unat col \<le> length buf"
  shows "\<exists>bytes. double_print col buf d w = Some (w @ map (Pair d) (bytes @ bytes))
    \<and> bits_of bytes = concat (map (\<lambda>p. [p, p]) (bits_of (take (unat col) buf)))"
  using double_print_spec [OF assms] bits_double_bytes by blast

theorem double_print_pixels_witness:
  "\<exists>bytes. double_print 2 [0xa5, 0x01] 1 [] = Some (map (Pair 1) (bytes @ bytes))
    \<and> bits_of bytes = concat (map (\<lambda>p. [p, p]) (bits_of [0xa5, 0x01]))"
  using double_print_pixels [of 2 "[0xa5, 0x01]" 1 "[]"] by simp

end
