(* ===== verification/Print_Job.thy ===== *)
theory Print_Job
  imports Print_Cells Bitmap_Codec
begin

text \<open>
  Printing one order: the check of its data and the printing of its fields
  (\<^verbatim>\<open>CheckOrderData\<close> and \<^verbatim>\<open>Print_Order\<close> of \<^verbatim>\<open>User/src/print_queue.c\<close>), and the rounds of
  the tasks \<^verbatim>\<open>Print_Task\<close> and \<^verbatim>\<open>Transmit_Task\<close> of \<^verbatim>\<open>User/src/main.c\<close>.  A data pointer is
  an address of the memory that holds the blocks.  \<^term>\<open>None\<close> is a loop that does not end or a use
  of an array out of its range.
\<close>

section \<open>Fields of an order\<close>

abbreviation (input) "DATA_INVALID \<equiv> (0 :: u8)"
abbreviation (input) "DATA_IS_PLAINTEXT \<equiv> (1 :: u8)"
abbreviation (input) "DATA_IS_IMAGE \<equiv> (2 :: u8)"
abbreviation (input) "DATA_IS_QRCODE \<equiv> (3 :: u8)"
abbreviation (input) "DATA_HEADER_SIZE \<equiv> (4 :: 'a :: len word)"
abbreviation (input) "DATA_FOOTER_SIZE \<equiv> (4 :: 'a :: len word)"

definition GetDataType :: "memory \<Rightarrow> u32 \<Rightarrow> u8" where
  "GetDataType m datap =
     (if 0x7e = m datap \<and> 0xff = m (datap + 1) then DATA_IS_PLAINTEXT
      else if 0xff = m datap \<and> 0x7e = m (datap + 1) then DATA_IS_IMAGE
      else if 0x7f = m datap \<and> 0xff = m (datap + 1) then DATA_IS_QRCODE
      else DATA_INVALID)"

definition GetDataLength :: "memory \<Rightarrow> u32 \<Rightarrow> u16" where
  "GetDataLength m datap = push_bit 8 (ucast (m (datap + 2))) + ucast (m (datap + 3))"

definition MoveToNextData :: "u32 \<Rightarrow> u16 \<Rightarrow> u32" where
  "MoveToNextData datap len = datap + ucast len + DATA_HEADER_SIZE + DATA_FOOTER_SIZE"

definition GetImageBytes :: "memory \<Rightarrow> u32 \<Rightarrow> u16 \<Rightarrow> u16" where
  "GetImageBytes m datap len =
     push_bit 8 (ucast (m (datap + (DATA_HEADER_SIZE + ucast len)))) + ucast (m (datap + (DATA_HEADER_SIZE + ucast len + 1)))"

section \<open>Checking an order\<close>

text \<open>The loop over the fields: the value of \<^verbatim>\<open>pbytes\<close> at its end, or a field of no known type.\<close>

partial_function (option) check_fields :: "memory \<Rightarrow> u16 \<Rightarrow> u32 \<Rightarrow> u16 \<Rightarrow> u16 option option" where
  "check_fields m sz datap pbytes =
     (if pbytes < sz
      then if GetDataType m datap = DATA_INVALID then Some None
           else check_fields m sz (MoveToNextData datap (GetDataLength m datap))
                  (pbytes + GetDataLength m datap + DATA_HEADER_SIZE + DATA_FOOTER_SIZE)
      else Some (Some pbytes))"

definition report_data_err :: "u8 \<Rightarrow> print_sys \<Rightarrow> print_sys" where
  "report_data_err e s =
     (let s = set_order_status e PRINT_STATUS_DATA_ERR s
      in send_mesg (Order_Print_Status_Send (order_of s e) PRINT_STATUS_DATA_ERR) s)"

definition CheckOrderData :: "u8 \<Rightarrow> print_sys \<Rightarrow> (u8 \<times> print_sys) option" where
  "CheckOrderData entry_index s =
     (let orderp = order_of s entry_index; datap = oi_data orderp
      in if \<not> in_table (st_table (ps_store s)) entry_index then None
         else if datap = 0 then Some (ORDER_DATA_ERR, report_data_err entry_index s)
         else case check_fields (st_mem (ps_store s)) (oi_size orderp) datap 0 of
                None \<Rightarrow> None
              | Some None \<Rightarrow> Some (ORDER_DATA_ERR, report_data_err entry_index s)
              | Some (Some pbytes) \<Rightarrow> Some (if pbytes = 0 then ORDER_DATA_ERR else ORDER_DATA_OK, s))"

section \<open>Printing an order\<close>

definition print_field :: "memory \<Rightarrow> u32 \<Rightarrow> u8 \<Rightarrow> wire \<Rightarrow> wire option" where
  "print_field m datap cellno w =
     (let len = GetDataLength m datap; ty = GetDataType m datap; body = at_addr m (datap + DATA_HEADER_SIZE)
      in if DATA_IS_PLAINTEXT = ty then mySendData body len cellno w
         else if DATA_IS_IMAGE = ty then printImages body (GetImageBytes m datap len) cellno w
         else if DATA_IS_QRCODE = ty then printQRCode body len cellno w
         else Some w)"

partial_function (option) print_fields :: "memory \<Rightarrow> u16 \<Rightarrow> u8 \<Rightarrow> u32 \<Rightarrow> u16 \<Rightarrow> wire \<Rightarrow> u32 \<Rightarrow> (wire \<times> u32) option" where
  "print_fields m sz cellno datap pbytes w totalLength =
     (if pbytes < sz
      then case print_field m datap cellno w of None \<Rightarrow> None
           | Some w \<Rightarrow>
               print_fields m sz cellno (MoveToNextData datap (GetDataLength m datap))
                 (pbytes + GetDataLength m datap + DATA_HEADER_SIZE + DATA_FOOTER_SIZE) w
                 (totalLength + ucast (pbytes + GetDataLength m datap + DATA_HEADER_SIZE + DATA_FOOTER_SIZE))
      else Some (w, totalLength))"

text \<open>The paper of an order that broke off is cut before the next one.\<close>

definition cut_broken :: "u8 \<Rightarrow> print_sys \<Rightarrow> print_sys" where
  "cut_broken cellno s =
     (if ps_needCutPaper s ! unat cellno
      then let s = cutPaper cellno (OutputErrorTag cellno s)
           in s\<lparr>ps_needCutPaper := (ps_needCutPaper s)[unat cellno := False]\<rparr>
      else s)"

definition begin_work :: "u8 \<Rightarrow> print_sys \<Rightarrow> print_sys" where
  "begin_work cellno s =
     upd_cell (unat (cellno - 1)) (\<lambda>c. let c = c\<lparr>pc_beginTick := ps_now s\<rparr>
        in if 2000 div 20 < pc_beginTick c - pc_endTick c then c\<lparr>pc_workedTime := 0\<rparr> else c) s"

text \<open>\<^verbatim>\<open>Print_Order\<close> up to the status command, and what follows the wait for its answer.\<close>

definition Print_Order_send :: "u8 \<Rightarrow> print_sys \<Rightarrow> print_sys option" where
  "Print_Order_send cellno s =
     (let i = unat (cellno - 1); e = pc_entryIndex (cell s i)
      in if \<not> in_table (st_table (ps_store s)) e then None
         else let datap = oi_data (order_of s e); s = cut_broken cellno s;
                  s = set_order_status e PRINT_STATUS_START s;
                  s = send_mesg (Order_Print_Status_Send (order_of s e) PRINT_STATUS_START) s;
                  s = begin_work cellno s
              in case print_fields (st_mem (ps_store s)) (oi_size (order_of s e)) cellno datap 0 (ps_wire s) (pc_totalLength (cell s i)) of
                   None \<Rightarrow> None
                 | Some (w, t) \<Rightarrow>
                     let s = upd_cell i (\<lambda>c. c\<lparr>pc_totalLength := t\<rparr>) (s\<lparr>ps_wire := w\<rparr>);
                         s = set_order_status e ORDER_DATA_OK s
                     in Some (put_wire (SEND_STATUS_CMD_ONE cellno) s))"

definition Print_Order_done :: "u8 \<Rightarrow> print_sys \<Rightarrow> print_sys option" where
  "Print_Order_done cellno s =
     (let i = unat (cellno - 1)
      in case OSSemPend (pc_printDoneSem (cell s i)) of None \<Rightarrow> None
         | Some n \<Rightarrow> Some (upd_cell i (\<lambda>c. c\<lparr>pc_printDoneSem := n\<rparr>) s))"

text \<open>The order is the one taken at the start: the cell may have given it back since.\<close>

definition Print_Order_timeout :: "u8 \<Rightarrow> u8 \<Rightarrow> print_sys \<Rightarrow> print_sys" where
  "Print_Order_timeout cellno e s =
     (let s = s\<lparr>ps_needCutPaper := (ps_needCutPaper s)[unat cellno := True]\<rparr>;
          s = send_mesg (Order_Print_Status_Send (order_of s e) 2) s
      in PutPrintCell cellno PRINT_CELL_STATUS_ERR s)"

section \<open>The tasks\<close>

text \<open>A round of \<^verbatim>\<open>Print_Task\<close> up to the order to print, and the whole of it.\<close>

definition next_entry :: "print_sys \<Rightarrow> u8 option \<times> print_sys" where
  "next_entry s =
     (case GetRestoredOrder s of
        (Some e, s) \<Rightarrow> (Some e, s)
      | (None, s) \<Rightarrow> (case GetOrderFromQueue (st_table (ps_store s)) of
           (code, e, t) \<Rightarrow> (if code = ORDER_QUEUE_OK then e else None, s\<lparr>ps_store := (ps_store s)\<lparr>st_table := t\<rparr>\<rparr>)))"

definition Print_Task_fetch :: "print_sys \<Rightarrow> (u8 option \<times> print_sys) option" where
  "Print_Task_fetch s =
     (case OSSemPend (ps_Print_Sem s) of None \<Rightarrow> None
      | Some n \<Rightarrow> (case next_entry (s\<lparr>ps_Print_Sem := n\<rparr>) of
           (None, s) \<Rightarrow> Some (None, s)
         | (Some entry, s) \<Rightarrow> (case CheckOrderData entry s of None \<Rightarrow> None
             | Some (code, s) \<Rightarrow>
                 if code = ORDER_DATA_OK then Some (Some entry, s)
                 else Some (None, s\<lparr>ps_store := snd (Delete_Order (ps_store s) entry)\<rparr>))))"

definition Print_Task_round :: "print_sys \<Rightarrow> print_sys option" where
  "Print_Task_round s =
     (case Print_Task_fetch s of None \<Rightarrow> None
      | Some (None, s) \<Rightarrow> Some s
      | Some (Some entry, s) \<Rightarrow> DispensePrintJob entry s)"

definition Transmit_Task_begin :: "u8 \<Rightarrow> print_sys \<Rightarrow> print_sys option" where
  "Transmit_Task_begin cellno s =
     (let i = unat (cellno - 1)
      in case OSSemPend (pc_printBeginSem (cell s i)) of None \<Rightarrow> None
         | Some n \<Rightarrow> Print_Order_send cellno (upd_cell i (\<lambda>c. c\<lparr>pc_printBeginSem := n\<rparr>) s))"

section \<open>Orders as lists of fields\<close>

text \<open>A field: its kind, its body and the four bytes after it.\<close>

datatype order_field = Field (kind: u8) (body: "u8 list") (foot: "u8 list")

definition field_tag :: "u8 \<Rightarrow> u8 list" where
  "field_tag k = (if k = DATA_IS_PLAINTEXT then [0x7e, 0xff] else if k = DATA_IS_IMAGE then [0xff, 0x7e] else [0x7f, 0xff])"

definition field_ok :: "order_field \<Rightarrow> bool" where
  "field_ok f \<longleftrightarrow> kind f \<in> {DATA_IS_PLAINTEXT, DATA_IS_IMAGE, DATA_IS_QRCODE} \<and> length (foot f) = 4"

definition field_bytes :: "order_field \<Rightarrow> u8 list" where
  "field_bytes f = field_tag (kind f) @ [byte 1 (of_nat (length (body f)) :: u16), byte 0 (of_nat (length (body f)) :: u16)]
     @ body f @ foot f"

abbreviation order_bytes :: "order_field list \<Rightarrow> nat" where
  "order_bytes fs \<equiv> sum_list (map (\<lambda>f. length (body f) + 8) fs)"

fun holds :: "memory \<Rightarrow> u32 \<Rightarrow> order_field list \<Rightarrow> bool" where
  "holds m p [] = True"
| "holds m p (f # fs) = (field_ok f \<and> load_block m p (length (body f) + 8) = field_bytes f
     \<and> holds m (p + of_nat (length (body f)) + 8) fs)"

lemma field_length: "field_ok f \<Longrightarrow> length (field_bytes f) = length (body f) + 8"
  by (simp add: field_ok_def field_bytes_def field_tag_def)

lemma holds_byte:
  assumes "load_block m p (length (body f) + 8) = field_bytes f" "i < length (body f) + 8"
  shows "m (p + of_nat i) = field_bytes f ! i"
proof -
  have "load_block m p (length (body f) + 8) ! i = m (p + of_nat i)" using assms(2) by (simp add: load_block_def)
  then show ?thesis using assms(1) by simp
qed

lemma be16_plus: "push_bit 8 (ucast a) + ucast b = be16 a b"
proof -
  have "push_bit 8 (ucast a :: u16) AND ucast (b :: u8) = 0"
    by (rule bit_word_eqI) (auto simp: bit_simps dest: bit_imp_le_length)
  then show ?thesis by (simp add: be16_def disjunctive_add_eq_or)
qed

lemma field_head:
  assumes "holds m p (f # fs)" "length (body f) < 65536"
  shows "GetDataType m p = kind f" "GetDataLength m p = of_nat (length (body f))"
    "\<And>i. i < length (body f) \<Longrightarrow> at_addr m (p + 4) i = body f ! i"
    "GetImageBytes m p (of_nat (length (body f))) = be16 (foot f ! 0) (foot f ! 1)"
proof -
  have b: "m (p + of_nat i) = field_bytes f ! i" if "i < length (body f) + 8" for i
    using holds_byte [OF _ that] assms(1) by simp
  have ok: "field_ok f" using assms(1) by simp
  have t: "length (field_tag k) = 2" for k by (simp add: field_tag_def)
  have "m p = field_tag (kind f) ! 0" "m (p + 1) = field_tag (kind f) ! 1"
    using b [of 0] b [of 1] by (simp_all add: field_bytes_def nth_append t)
  then show "GetDataType m p = kind f" using ok by (auto simp: GetDataType_def field_tag_def field_ok_def)
  have "m (p + 2) = byte 1 (of_nat (length (body f)) :: u16)" "m (p + 3) = byte 0 (of_nat (length (body f)) :: u16)"
    using b [of 2] b [of 3] by (simp_all add: field_bytes_def nth_append t)
  then show "GetDataLength m p = of_nat (length (body f))"
    by (simp add: GetDataLength_def be16_plus be16_bytes [simplified])
  show "at_addr m (p + 4) i = body f ! i" if "i < length (body f)" for i
    using b [of "4 + i"] that by (simp add: field_bytes_def nth_append t at_addr_def add.assoc)
  have l: "(ucast (of_nat (length (body f)) :: u16) :: u32) = of_nat (length (body f))"
    using assms(2) by (simp add: word_unat_eq_iff unsigned_ucast_eq unat_of_nat take_bit_nat_eq_self)
  have "m (p + (4 + of_nat (length (body f)))) = foot f ! 0" "m (p + (4 + of_nat (length (body f)) + 1)) = foot f ! 1"
    using b [of "4 + length (body f)"] b [of "5 + length (body f)"] ok
    by (simp_all add: field_bytes_def nth_append t add.assoc)
  then show "GetImageBytes m p (of_nat (length (body f))) = be16 (foot f ! 0) (foot f ! 1)"
    by (simp add: GetImageBytes_def l be16_plus)
qed

lemma advance:
  assumes "unat (pb :: u16) + (l + 8) + k = unat (sz :: u16)"
  shows "unat (pb + of_nat l + 4 + 4) = unat pb + (l + 8)" "(ucast (of_nat l :: u16) :: u32) = of_nat l" "l < 65536" "pb < sz"
proof -
  have "unat sz < 65536" by (rule unat_u16)
  then have b: "unat pb + (l + 8) < 65536" using assms by linarith
  then show "l < 65536" by simp
  have "pb + of_nat l + 4 + 4 = pb + of_nat (l + 8)" by simp
  then have "unat (pb + of_nat l + 4 + 4) = (unat pb + unat (of_nat (l + 8) :: u16)) mod 2 ^ 16"
    by (simp only: unat_word_ariths(1)) simp
  also have "\<dots> = (unat pb + (l + 8)) mod 65536" by (simp only: unat_of_nat take_bit_eq_mod) (simp add: mod_add_right_eq)
  finally have "unat (pb + of_nat l + 4 + 4) = (unat pb + (l + 8)) mod 65536" .
  then show "unat (pb + of_nat l + 4 + 4) = unat pb + (l + 8)" using b by simp
  show "(ucast (of_nat l :: u16) :: u32) = of_nat l"
    using b by (simp add: word_unat_eq_iff unsigned_ucast_eq unat_of_nat take_bit_nat_eq_self)
  show "pb < sz" using assms by (simp add: word_less_nat_alt)
qed

lemma next_data:
  assumes "l < 65536"
  shows "MoveToNextData p (of_nat l) = p + of_nat l + 8"
proof -
  have "(ucast (of_nat l :: u16) :: u32) = of_nat l"
    using assms by (simp add: word_unat_eq_iff unsigned_ucast_eq unat_of_nat take_bit_nat_eq_self)
  then show ?thesis by (simp add: MoveToNextData_def)
qed

lemma check_holds:
  "holds m p fs \<Longrightarrow> unat pb + order_bytes fs = unat sz \<Longrightarrow> check_fields m sz p pb = Some (Some sz)"
proof (induction fs arbitrary: p pb)
  case Nil
  then have "pb = sz" by (simp add: word_unat_eq_iff)
  then show ?case by (simp add: check_fields.simps)
next
  case (Cons f fs)
  have s: "unat pb + (length (body f) + 8) + order_bytes fs = unat sz" using Cons.prems(2) by simp
  note a = advance [OF s]
  note h = field_head [OF Cons.prems(1) a(3)]
  have "kind f \<noteq> DATA_INVALID" using Cons.prems(1) by (auto simp: field_ok_def)
  moreover have "check_fields m sz (p + of_nat (length (body f)) + 8) (pb + of_nat (length (body f)) + 4 + 4) = Some (Some sz)"
    by (rule Cons.IH) (use Cons.prems(1) s a(1) in simp_all)
  ultimately show ?case by (subst check_fields.simps) (simp add: a(4) h(1,2) next_data [OF a(3)])
qed

text \<open>What a field puts on the wire; a picture is left to \<^verbatim>\<open>printImages\<close>.\<close>

definition field_output :: "memory \<Rightarrow> u8 \<Rightarrow> u32 \<Rightarrow> order_field \<Rightarrow> wire \<Rightarrow> wire option" where
  "field_output m no p f w =
     (if kind f = DATA_IS_PLAINTEXT then Some (w @ map (Pair no) (body f))
      else if kind f = DATA_IS_IMAGE then printImages (at_addr m (p + 4)) (be16 (foot f ! 0) (foot f ! 1)) no w
      else Some (w @ map (Pair no) ([0x1b, 0x61, 0x01, 0x1d, 0x01, 0x03, 0x08, 0x1d, 0x01, 0x04, 0x33, 0x1d, 0x01, 0x01,
          byte 0 (of_nat (length (body f)) :: u16), byte 1 (of_nat (length (body f)) :: u16)]
          @ body f @ [0x1d, 0x01, 0x02, 0x1b, 0x61, 0x03])))"

fun order_output :: "memory \<Rightarrow> u8 \<Rightarrow> u32 \<Rightarrow> order_field list \<Rightarrow> wire \<Rightarrow> wire option" where
  "order_output m no p [] w = Some w"
| "order_output m no p (f # fs) w = (case field_output m no p f w of None \<Rightarrow> None
     | Some w \<Rightarrow> order_output m no (p + of_nat (length (body f)) + 8) fs w)"

text \<open>What the printed length grows by: the bytes up to the end of each field, summed up.\<close>

fun odometer :: "nat \<Rightarrow> order_field list \<Rightarrow> nat" where
  "odometer n [] = 0"
| "odometer n (f # fs) = n + length (body f) + 8 + odometer (n + length (body f) + 8) fs"

lemma map_body:
  assumes "\<And>i. i < length xs \<Longrightarrow> g i = xs ! i" "length xs < 65536"
  shows "map g [0 ..< unat (of_nat (length xs) :: u16)] = xs"
  using assms by (intro nth_equalityI) (simp_all add: unat_of_nat take_bit_nat_eq_self)

lemma print_field_output:
  assumes "holds m p (f # fs)" "length (body f) < 65535"
  shows "print_field m p no w = field_output m no p f w"
proof -
  have l: "length (body f) < 65536" using assms(2) by simp
  note h = field_head [OF assms(1) l]
  have b: "map (at_addr m (p + 4)) [0 ..< unat (of_nat (length (body f)) :: u16)] = body f"
    by (rule map_body) (use h(3) l in simp_all)
  have b2: "map (\<lambda>i. (no, at_addr m (p + 4) i)) [0 ..< unat (of_nat (length (body f)) :: u16)] = map (Pair no) (body f)"
    using arg_cong [OF b, of "map (Pair no)"] by (simp only: map_map comp_def)
  have n: "(of_nat (length (body f)) :: u16) \<noteq> 65535"
    using assms(2) by (simp add: word_unat_eq_iff unat_of_nat take_bit_nat_eq_self)
  have "kind f \<in> {1, 2, 3}" using assms(1) by (simp add: field_ok_def)
  then show ?thesis
    by (elim insertE emptyE)
      (simp_all add: print_field_def Let_def h(1,2,4) field_output_def mySendData_spec printQRCode_spec n b b2)
qed

lemma print_holds:
  "holds m p fs \<Longrightarrow> unat pb + order_bytes fs = unat sz \<Longrightarrow>
   print_fields m sz no p pb w t = map_option (\<lambda>w. (w, t + of_nat (odometer (unat pb) fs))) (order_output m no p fs w)"
proof (induction fs arbitrary: p pb w t)
  case Nil
  then have "pb = sz" by (simp add: word_unat_eq_iff)
  then show ?case by (simp add: print_fields.simps)
next
  case (Cons f fs)
  have s: "unat pb + (length (body f) + 8) + order_bytes fs = unat sz" using Cons.prems(2) by simp
  note a = advance [OF s]
  note h = field_head [OF Cons.prems(1) a(3)]
  have "length (body f) < 65535" using s unat_u16 [of sz] by linarith
  note o = print_field_output [OF Cons.prems(1) this]
  define q where "q = pb + of_nat (length (body f)) + 4 + 4"
  have u: "unat q = unat pb + (length (body f) + 8)" unfolding q_def by (rule a(1))
  have ih: "print_fields m sz no (p + of_nat (length (body f)) + 8) q w' t' =
      map_option (\<lambda>w. (w, t' + of_nat (odometer (unat q) fs))) (order_output m no (p + of_nat (length (body f)) + 8) fs w')" for w' t'
    by (rule Cons.IH) (use Cons.prems(1) s u in simp_all)
  have step: "print_fields m sz no p pb w t = (case field_output m no p f w of None \<Rightarrow> None
      | Some w \<Rightarrow> print_fields m sz no (p + of_nat (length (body f)) + 8) q w (t + ucast q))"
    by (subst print_fields.simps) (simp only: a(4) h(2) o next_data [OF a(3)] q_def if_True)
  have od: "odometer (unat pb) (f # fs) = unat q + odometer (unat q) fs" by (simp add: u add.assoc)
  show ?case unfolding step ih od by (simp add: add.assoc split: option.splits)
qed

lemma check_bad:
  "holds m p fs \<Longrightarrow> unat pb + order_bytes fs < unat sz \<Longrightarrow> GetDataType m (p + of_nat (order_bytes fs)) = DATA_INVALID \<Longrightarrow>
   check_fields m sz p pb = Some None"
proof (induction fs arbitrary: p pb)
  case Nil
  then show ?case by (subst check_fields.simps) (simp add: word_less_nat_alt)
next
  case (Cons f fs)
  let ?l = "length (body f)"
  have s: "unat pb + (?l + 8) + (unat sz - unat pb - (?l + 8)) = unat sz" using Cons.prems(2) by simp
  note a = advance [OF s]
  note h = field_head [OF Cons.prems(1) a(3)]
  have "kind f \<noteq> DATA_INVALID" using Cons.prems(1) by (auto simp: field_ok_def)
  moreover have "check_fields m sz (p + of_nat ?l + 8) (pb + of_nat ?l + 4 + 4) = Some None"
    by (rule Cons.IH) (use Cons.prems a(1) in \<open>simp_all add: add.assoc\<close>)
  ultimately show ?case by (subst check_fields.simps) (simp add: a(4) h(1,2) next_data [OF a(3)])
qed

section \<open>Printing an order that a cell has got\<close>

text \<open>The order \<open>e\<close> with its fields in the memory.\<close>

definition order_holds :: "order_store \<Rightarrow> u8 \<Rightarrow> order_field list \<Rightarrow> bool" where
  "order_holds st e fs \<longleftrightarrow> in_table (st_table st) e \<and> oi_data (node (st_table st) e) \<noteq> 0
     \<and> holds (st_mem st) (oi_data (node (st_table st) e)) fs \<and> order_bytes fs = unat (oi_size (node (st_table st) e))"

lemma set_order_status_store: "set_order_status e k s = s\<lparr>ps_store := with_status e k (ps_store s)\<rparr>"
  by (simp add: set_order_status_def with_status_def)

lemma with_status_simps [simp]:
  "in_table (st_table st) e \<Longrightarrow> node (st_table (with_status e k st)) e = (node (st_table st) e)\<lparr>oi_status := k\<rparr>"
  "in_table (st_table (with_status e k st)) f = in_table (st_table st) f"
  "st_mem (with_status e k st) = st_mem st"
  "with_status e k (with_status e j st) = with_status e k st"
proof -
  show "with_status e k (with_status e j st) = with_status e k st"
  proof (cases "in_table (st_table st) e")
    case True
    then show ?thesis by (simp add: with_status_def set_data_def in_table_def)
  next
    case False
    then show ?thesis by (simp add: with_status_def set_data_def in_table_def list_update_beyond)
  qed
qed (simp_all add: with_status_def set_data_def in_table_def)

lemma order_checked:
  assumes "order_holds (ps_store s) e fs"
  shows "CheckOrderData e s = Some (if fs = [] then ORDER_DATA_ERR else ORDER_DATA_OK, s)"
proof -
  have "check_fields (st_mem (ps_store s)) (oi_size (order_of s e)) (oi_data (order_of s e)) 0 = Some (Some (oi_size (order_of s e)))"
    by (rule check_holds [of _ _ fs]) (use assms in \<open>simp_all add: order_holds_def\<close>)
  moreover have "oi_size (order_of s e) = 0 \<longleftrightarrow> fs = []"
  proof
    assume "oi_size (order_of s e) = 0"
    then have "order_bytes fs = 0" using assms by (simp add: order_holds_def)
    then show "fs = []" by (cases fs) simp_all
  next
    assume "fs = []"
    then show "oi_size (order_of s e) = 0" using assms by (simp add: order_holds_def unat_eq_zero)
  qed
  ultimately show ?thesis using assms by (simp add: CheckOrderData_def order_holds_def Let_def)
qed

lemma cut_broken_keeps [simp]:
  "ps_store (cut_broken no s) = ps_store s" "ps_now (cut_broken no s) = ps_now s"
  "ps_cnt (cut_broken no s) = ps_cnt s" "ps_tmp (cut_broken no s) = ps_tmp s"
  by (simp_all add: cut_broken_def Let_def cutPaper_def OutputErrorTag_def put_wire_def upd_cell_def)

lemma cut_broken_cells [simp]:
  "view (cut_broken no s) = view s" "pc_entryIndex (cell (cut_broken no s) i) = pc_entryIndex (cell s i)"
proof -
  have *: "view (s\<lparr>ps_needCutPaper := x\<rparr>) = view s" for x s by (simp add: view_def)
  show "view (cut_broken no s) = view s" by (simp add: cut_broken_def Let_def *)
  show "pc_entryIndex (cell (cut_broken no s) i) = pc_entryIndex (cell s i)"
    by (simp add: cut_broken_def Let_def entry_kept)
qed

lemma begin_work_keeps [simp]:
  "ps_store (begin_work no s) = ps_store s" "ps_wire (begin_work no s) = ps_wire s"
  "ps_cnt (begin_work no s) = ps_cnt s" "ps_tmp (begin_work no s) = ps_tmp s"
  "view (begin_work no s) = view s"
  by (simp_all add: begin_work_def Let_def view_upd) (simp_all add: upd_cell_def)

lemma begin_work_entry [simp]: "pc_entryIndex (cell (begin_work no s) i) = pc_entryIndex (cell s i)"
  unfolding begin_work_def by (rule entry_upd) (simp add: Let_def)

lemma upd_keeps [simp]:
  "ps_cnt (upd_cell i f s) = ps_cnt s" "ps_tmp (upd_cell i f s) = ps_tmp s" "ps_wire (upd_cell i f s) = ps_wire s"
  "ps_cnt (send_mesg h s) = ps_cnt s" "ps_tmp (send_mesg h s) = ps_tmp s" "ps_wire (send_mesg h s) = ps_wire s"
  "ps_cnt (put_wire g s) = ps_cnt s" "ps_tmp (put_wire g s) = ps_tmp s" "ps_wire (put_wire g s) = g (ps_wire s)"
  by (simp_all add: upd_cell_def send_mesg_def put_wire_def)

lemma view_store [simp]: "view (s\<lparr>ps_store := x\<rparr>) = view s" "view (s\<lparr>ps_wire := w\<rparr>) = view s"
  by (simp_all add: view_def)

lemma order_holds_status [simp]: "order_holds (with_status e k st) e fs = order_holds st e fs"
  by (cases "in_table (st_table st) e") (simp_all add: order_holds_def)

lemma print_order_sends:
  assumes "cells_ok s" "no = 1 \<or> no = 2" "pc_status (cell s (unat (no - 1))) = PRINT_CELL_STATUS_BUSY"
    "pc_entryIndex (cell s (unat (no - 1))) = e" "order_holds (ps_store s) e fs"
    "order_output (st_mem (ps_store s)) no (oi_data (order_of s e)) fs (ps_wire (cut_broken no s)) = Some w"
  shows "\<exists>s'. Print_Order_send no s = Some s' \<and> cells_ok s' \<and> busy_with s' no e
    \<and> ps_store s' = with_status e ORDER_DATA_OK (ps_store s) \<and> ps_wire s' = SEND_STATUS_CMD_ONE no w
    \<and> ps_cnt s' = ps_cnt s \<and> ps_tmp s' = ps_tmp s"
proof -
  let ?i = "unat (no - 1)"
  have i: "?i < length (ps_cells s)" using assms(1,2) by (auto simp: cells_ok_def)
  have t: "in_table (st_table (ps_store s)) e" using assms(5) by (simp add: order_holds_def)
  define a where "a = set_order_status e PRINT_STATUS_START (cut_broken no s)"
  define b where "b = begin_work no (send_mesg (Order_Print_Status_Send (order_of a e) PRINT_STATUS_START) a)"
  have pa: "ps_store a = with_status e PRINT_STATUS_START (ps_store s)" "ps_wire a = ps_wire (cut_broken no s)"
    "ps_cnt a = ps_cnt s" "ps_tmp a = ps_tmp s" "view a = view s" "pc_entryIndex (cell a ?i) = e"
    using assms(4) by (simp_all add: a_def set_order_status_store)
  have pb: "ps_store b = with_status e PRINT_STATUS_START (ps_store s)" "ps_wire b = ps_wire (cut_broken no s)"
    "ps_cnt b = ps_cnt s" "ps_tmp b = ps_tmp s" "view b = view s" "pc_entryIndex (cell b ?i) = e"
    by (simp_all add: b_def pa)
  let ?o = "node (st_table (ps_store s)) e"
  have "holds (st_mem (ps_store s)) (oi_data ?o) fs" "order_bytes fs = unat (oi_size ?o)"
    using assms(5) by (simp_all add: order_holds_def)
  then have p: "print_fields (st_mem (ps_store b)) (oi_size (order_of b e)) no (oi_data ?o) 0 (ps_wire b) x
      = Some (w, x + of_nat (odometer 0 fs))" for x
    using print_holds [of "st_mem (ps_store s)" "oi_data ?o" fs 0 "oi_size ?o" no] assms(6) t by (simp add: pb)
  define f where "f = put_wire (SEND_STATUS_CMD_ONE no) (set_order_status e ORDER_DATA_OK (upd_cell ?i
      (\<lambda>c. c\<lparr>pc_totalLength := pc_totalLength (cell b ?i) + of_nat (odometer 0 fs)\<rparr>) (b\<lparr>ps_wire := w\<rparr>)))"
  have r: "Print_Order_send no s = Some f"
    unfolding Print_Order_send_def Let_def assms(4) a_def [symmetric] b_def [symmetric] using p t by (simp add: f_def)
  have v: "view f = view s" by (simp add: f_def set_order_status_store view_upd pb)
  have st: "ps_store f = with_status e ORDER_DATA_OK (ps_store s)" by (simp add: f_def set_order_status_store pb)
  have "pc_entryIndex (cell f ?i) = pc_entryIndex (cell b ?i)"
    using entry_upd [of "\<lambda>c. c\<lparr>pc_totalLength := pc_totalLength (cell b ?i) + of_nat (odometer 0 fs)\<rparr>" ?i "b\<lparr>ps_wire := w\<rparr>" ?i]
    by (simp add: f_def set_order_status_store)
  then have "busy_with f no e"
    using view_status [OF v i] assms(2,3) t by (simp add: busy_with_def st pb)
  moreover have "ps_wire f = SEND_STATUS_CMD_ONE no w" "ps_cnt f = ps_cnt s" "ps_tmp f = ps_tmp s"
    by (simp_all add: f_def set_order_status_store pb)
  ultimately show ?thesis using r st view_ok [OF assms(1) v] by blast
qed

section \<open>From the dispatch to the end of an order\<close>

definition field_text :: "order_field \<Rightarrow> u8 list" where
  "field_text f = (if kind f = DATA_IS_PLAINTEXT then body f
     else [0x1b, 0x61, 0x01, 0x1d, 0x01, 0x03, 0x08, 0x1d, 0x01, 0x04, 0x33, 0x1d, 0x01, 0x01,
          byte 0 (of_nat (length (body f)) :: u16), byte 1 (of_nat (length (body f)) :: u16)]
          @ body f @ [0x1d, 0x01, 0x02, 0x1b, 0x61, 0x03])"

lemma order_output_text:
  "\<forall>f \<in> set fs. kind f \<noteq> DATA_IS_IMAGE \<Longrightarrow>
   order_output m no p fs w = Some (w @ map (Pair no) (concat (map field_text fs)))"
  by (induction fs arbitrary: p w) (auto simp: field_output_def field_text_def)

lemma post_positive [simp]: "0 < OSSemPost n"
proof (cases "n < 65535")
  case True
  then have "unat (OSSemPost n) = Suc (unat n)"
    by (simp add: OSSemPost_def word_less_nat_alt unat_word_ariths)
  then show ?thesis by (simp add: word_less_nat_alt)
next
  case False
  then have "65535 \<le> n" by simp
  moreover have "(0 :: u16) < 65535" by simp
  ultimately have "0 < n" by (meson less_le_trans)
  then show ?thesis using False by (simp add: OSSemPost_def)
qed

lemma deal_posts_done:
  assumes "cells_ok s" "busy_with s no e" "DealwithOrder dev no tmp s = Some s'"
  shows "0 < pc_printDoneSem (cell s' (unat (no - 1)))"
proof -
  have i: "unat (no - 1) < length (ps_cells s)" using assms(1,2) by (auto simp: busy_with_def cells_ok_def)
  then show ?thesis using assms(2,3)
    by (auto simp: busy_with_def DealwithOrder_def Let_def PutPrintCell_cells split: if_splits)
qed

text \<open>The four bytes that follow a sent order, from the printer that got it.\<close>

lemma answer_of_sent:
  assumes "cells_ok s" "busy_with s no e" "ps_cnt s = 0" "length (ps_tmp s) = 4" "ResolveStatus [b1, b2, b3, b4] = NORMAL_STATE"
  shows "\<exists>s'. receive dev [(no, b1), (no, b2), (no, b3), (no, b4)] s = Some s' \<and> cells_ok s'
    \<and> ps_store s' = snd (Delete_Order (with_status e PRINT_STATUS_OK (ps_store s)) e)
    \<and> pc_status (cell s' (unat (no - 1))) = PRINT_CELL_STATUS_IDLE \<and> 0 < pc_printDoneSem (cell s' (unat (no - 1)))"
proof -
  let ?s = "s\<lparr>ps_wire := SEND_STATUS_CMD_FOUR no (SEND_STATUS_CMD_THREE no (SEND_STATUS_CMD_TWO no (ps_wire s))),
         ps_tmp := [b1, b2, b3, b4], ps_cnt := 4\<rparr>"
  have ok: "cells_ok ?s" by (rule view_ok [OF assms(1)]) simp
  have busy: "busy_with ?s no e" using assms(2) by (simp add: busy_with_def)
  obtain t where t: "DealwithOrder dev no [b1, b2, b3, b4] ?s = Some t" "cells_ok t"
    "ps_store t = snd (Delete_Order (with_status e PRINT_STATUS_OK (ps_store s)) e)"
    "pc_status (cell t (unat (no - 1))) = PRINT_CELL_STATUS_IDLE"
    using deal_busy_ok [OF ok busy assms(5), of dev] by auto
  have "cells_ok (t\<lparr>ps_cnt := 0\<rparr>)" by (rule view_ok [OF t(2)]) simp
  then show ?thesis using receive_four [OF assms(3,4), of dev no b1 no b2 no b3 no b4] t deal_posts_done [OF ok busy t(1)] by simp
qed

lemma dispense_keeps:
  assumes "DispensePrintJob e s = Some s'"
  shows "ps_store s' = ps_store s \<and> ps_cnt s' = ps_cnt s \<and> ps_tmp s' = ps_tmp s \<and> ps_wire s' = ps_wire s
    \<and> ps_needCutPaper s' = ps_needCutPaper s"
  using assms by (auto simp: DispensePrintJob_def GetIdlePrintCell_def take_idle_def start_job_def upd_cell_def split: option.splits)

definition order_text :: "order_field list \<Rightarrow> u8 list" where
  "order_text fs = concat (map field_text fs)"

lemma order_end_to_end_aux:
  assumes "cells_ok s" "0 < idle_cells s" "order_holds (ps_store s) e fs" "list_all (\<lambda>f. kind f \<noteq> DATA_IS_IMAGE) fs"
    "ps_needCutPaper s = [False, False, False]" "ps_cnt s = 0" "length (ps_tmp s) = 4"
    "ResolveStatus [b1, b2, b3, b4] = NORMAL_STATE"
  shows "\<exists>s1 no s2 s3 s4. DispensePrintJob e s = Some s1 \<and> Transmit_Task_begin no s1 = Some s2
    \<and> ps_wire s2 = ps_wire s @ map (Pair no) (order_text fs @ [0x10, 0x04, 1])
    \<and> receive dev [(no, b1), (no, b2), (no, b3), (no, b4)] s2 = Some s3 \<and> Print_Order_done no s3 = Some s4 \<and> cells_ok s4
    \<and> pc_status (cell s4 (unat (no - 1))) = PRINT_CELL_STATUS_IDLE
    \<and> ps_store s4 = snd (Delete_Order (with_status e PRINT_STATUS_OK (ps_store s)) e)"
proof -
  obtain i s1 where d: "DispensePrintJob e s = Some s1" "i < MAX_CELL_NUM" "cells_ok s1"
    "ps_cells s1 = (ps_cells s)[i := (cell s i)\<lparr>pc_status := PRINT_CELL_STATUS_BUSY, pc_entryIndex := e,
           pc_printBeginSem := OSSemPost (pc_printBeginSem (cell s i))\<rparr>]"
    using dispense_spec [OF assms(1), of e] assms(2) by auto
  have i: "i < length (ps_cells s)" using d(2) assms(1) by (simp add: cells_ok_def)
  define no :: u8 where "no = 1 + of_nat i"
  have "i = 0 \<or> i = 1" using d(2) by auto
  then have no: "no = 1 \<or> no = 2" "unat (no - 1) = i" by (auto simp: no_def)
  note k = dispense_keeps [OF d(1)]
  define n where "n = OSSemPost (pc_printBeginSem (cell s i)) - 1"
  define t where "t = upd_cell i (\<lambda>c. c\<lparr>pc_printBeginSem := n\<rparr>) s1"
  have b: "Transmit_Task_begin no s1 = Print_Order_send no t"
    using i by (simp add: Transmit_Task_begin_def Let_def no(2) d(4) OSSemPend_def t_def n_def)
  have tk: "ps_store t = ps_store s" "ps_cnt t = 0" "length (ps_tmp t) = 4" "ps_wire t = ps_wire s"
    "ps_needCutPaper t = [False, False, False]" "cells_ok t"
    using k assms(5-7) view_ok [OF d(3)] by (simp_all add: t_def view_upd) (simp_all add: upd_cell_def)
  have c: "cut_broken no t = t" using no(1) by (auto simp: cut_broken_def tk)
  have out: "order_output (st_mem (ps_store t)) no (oi_data (order_of t e)) fs (ps_wire (cut_broken no t))
      = Some (ps_wire s @ map (Pair no) (order_text fs))"
    using assms(4) by (subst order_output_text) (simp_all add: c tk order_text_def list_all_iff)
  have st: "pc_status (cell t (unat (no - 1))) = PRINT_CELL_STATUS_BUSY" "pc_entryIndex (cell t (unat (no - 1))) = e"
    using i by (simp_all add: t_def no(2) d(4))
  obtain s2 where s2: "Print_Order_send no t = Some s2" "cells_ok s2" "busy_with s2 no e"
    "ps_store s2 = with_status e ORDER_DATA_OK (ps_store s)" "ps_cnt s2 = 0" "length (ps_tmp s2) = 4"
    "ps_wire s2 = SEND_STATUS_CMD_ONE no (ps_wire s @ map (Pair no) (order_text fs))"
    using print_order_sends [OF tk(6) no(1) st _ out] assms(3) tk by auto
  obtain s3 where s3: "receive dev [(no, b1), (no, b2), (no, b3), (no, b4)] s2 = Some s3" "cells_ok s3"
    "ps_store s3 = snd (Delete_Order (with_status e PRINT_STATUS_OK (ps_store s)) e)"
    "pc_status (cell s3 i) = PRINT_CELL_STATUS_IDLE" "0 < pc_printDoneSem (cell s3 i)"
    using answer_of_sent [OF s2(2,3,5,6) assms(8), of dev] by (auto simp: s2(4) no(2))
  have i3: "i < length (ps_cells s3)" using d(2) s3(2) by (simp add: cells_ok_def)
  let ?s4 = "upd_cell i (\<lambda>c. c\<lparr>pc_printDoneSem := pc_printDoneSem (cell s3 i) - 1\<rparr>) s3"
  have "Print_Order_done no s3 = Some ?s4" using s3(5) by (simp add: Print_Order_done_def Let_def no(2) OSSemPend_def)
  moreover have "cells_ok ?s4" by (rule view_ok [OF s3(2)]) (simp add: view_upd)
  moreover have "pc_status (cell ?s4 i) = PRINT_CELL_STATUS_IDLE" using i3 s3(4) by simp
  moreover have "ps_store ?s4 = snd (Delete_Order (with_status e PRINT_STATUS_OK (ps_store s)) e)" using s3(3) by simp
  moreover have "ps_wire s2 = ps_wire s @ map (Pair no) (order_text fs @ [0x10, 0x04, 1])"
    by (simp add: s2(7) SEND_STATUS_CMD_ONE_def SEND_STATUS_CMD_bytes)
  ultimately show ?thesis
    using d(1) b s2(1) s3(1) no(2) by (intro exI [of _ s1] exI [of _ no] exI [of _ s2] exI [of _ s3] exI [of _ ?s4]) simp
qed

text \<open>An order whose data has a field of no known type.\<close>

definition order_spoilt :: "order_store \<Rightarrow> u8 \<Rightarrow> order_field list \<Rightarrow> bool" where
  "order_spoilt st e fs \<longleftrightarrow> in_table (st_table st) e \<and> oi_data (node (st_table st) e) \<noteq> 0
     \<and> holds (st_mem st) (oi_data (node (st_table st) e)) fs \<and> order_bytes fs < unat (oi_size (node (st_table st) e))
     \<and> GetDataType (st_mem st) (oi_data (node (st_table st) e) + of_nat (order_bytes fs)) = DATA_INVALID"

lemma spoilt_checked:
  assumes "order_spoilt (ps_store s) e fs"
  shows "CheckOrderData e s = Some (ORDER_DATA_ERR, report_data_err e s)"
proof -
  have "check_fields (st_mem (ps_store s)) (oi_size (order_of s e)) (oi_data (order_of s e)) 0 = Some None"
    by (rule check_bad [of _ _ fs]) (use assms in \<open>simp_all add: order_spoilt_def\<close>)
  then show ?thesis using assms by (simp add: CheckOrderData_def order_spoilt_def Let_def)
qed

lemma report_data_err_keeps:
  assumes "in_table (st_table (ps_store s)) e"
  shows "ps_store (report_data_err e s) = with_status e PRINT_STATUS_DATA_ERR (ps_store s)"
    "ps_wire (report_data_err e s) = ps_wire s" "ps_cells (report_data_err e s) = ps_cells s"
    "ps_mesg (report_data_err e s) =
      Order_Print_Status_Send ((order_of s e)\<lparr>oi_status := PRINT_STATUS_DATA_ERR\<rparr>) PRINT_STATUS_DATA_ERR (ps_mesg s)"
  using assms by (simp_all add: report_data_err_def Let_def set_order_status_store send_mesg_def)

lemma spoilt_dropped:
  assumes "OSSemPend (ps_Print_Sem s) = Some n" "next_entry (s\<lparr>ps_Print_Sem := n\<rparr>) = (Some e, t)" "order_spoilt (ps_store t) e fs"
  shows "\<exists>s'. Print_Task_round s = Some s' \<and> ps_store s' = snd (Delete_Order (with_status e PRINT_STATUS_DATA_ERR (ps_store t)) e)
    \<and> ps_wire s' = ps_wire t \<and> ps_cells s' = ps_cells t
    \<and> ps_mesg s' = Order_Print_Status_Send ((order_of t e)\<lparr>oi_status := PRINT_STATUS_DATA_ERR\<rparr>) PRINT_STATUS_DATA_ERR (ps_mesg t)"
proof -
  have "in_table (st_table (ps_store t)) e" using assms(3) by (simp add: order_spoilt_def)
  note k = report_data_err_keeps [OF this]
  show ?thesis by (simp add: Print_Task_round_def Print_Task_fetch_def assms(1,2) spoilt_checked [OF assms(3)] k)
qed

text \<open>A system with two free cells and an order \<open>3\<close> whose data are the given bytes.\<close>

definition sample_mem :: "u8 list \<Rightarrow> memory" where
  "sample_mem bs a = (if unat (a - 0x2000) < length bs then bs ! unat (a - 0x2000) else 0)"

definition sample_print :: "u8 list \<Rightarrow> print_sys" where
  "sample_print bs = (sample_sys [sample_cell 1 PRINT_CELL_STATUS_IDLE 255, sample_cell 2 PRINT_CELL_STATUS_IDLE 255] 2)
     \<lparr>ps_store := \<lparr>st_table = Init_Order_Table\<lparr>pt_order_node := replicate ALL_BLOCK_NUM
           (blank_order\<lparr>oi_status := 100, oi_data := 0x2000, oi_size := of_nat (length bs)\<rparr>)\<rparr>, st_mem = sample_mem bs,
         st_parts = [], st_sems = [0, 0, 0, 0]\<rparr>,
      ps_RestoreOrderTable := [3, 255, 0], ps_Print_Sem := 1\<rparr>"

abbreviation "sample_text \<equiv> Field 1 [0x48, 0x69] [0, 0, 0, 0]"

lemma sample_print_facts:
  "cells_ok (sample_print bs)" "idle_cells (sample_print bs) = 2" "ps_cnt (sample_print bs) = 0"
  "length (ps_tmp (sample_print bs)) = 4" "ps_needCutPaper (sample_print bs) = [False, False, False]"
  by (simp_all add: cells_ok_def idle_cells_def sample_print_def sample_sys_def sample_cell_def)

lemma sample_holds: "order_holds (ps_store (sample_print (field_bytes sample_text))) 3 [sample_text]"
  by (simp add: order_holds_def sample_print_def in_table_def field_bytes_def field_tag_def byte_def field_ok_def
      load_block_def sample_mem_def upt_rec)

lemma sample_spoilt: "order_spoilt (ps_store (sample_print (field_bytes sample_text @ [1, 2, 3]))) 3 [sample_text]"
  by (simp add: order_spoilt_def sample_print_def in_table_def field_bytes_def field_tag_def byte_def field_ok_def
      load_block_def sample_mem_def upt_rec GetDataType_def)

section \<open>Properties\<close>

text \<open>C23. An order whose data are fields of known types that fill its size is accepted, unless it has none,
  and its fields are printed in their order: text as it is, a link between the
  commands of a QR code, a picture by the decompression.  The printed length grows by the
  offsets of the ends of the fields, not by their sizes.\<close>

theorem order_fields_printed:
  assumes "order_holds (ps_store s) e fs"
  shows "CheckOrderData e s = Some (if fs = [] then ORDER_DATA_ERR else ORDER_DATA_OK, s)
    \<and> print_fields (st_mem (ps_store s)) (oi_size (order_of s e)) no (oi_data (order_of s e)) 0 w t
      = map_option (\<lambda>w. (w, t + of_nat (odometer 0 fs))) (order_output (st_mem (ps_store s)) no (oi_data (order_of s e)) fs w)"
  using order_checked [OF assms] print_holds [of "st_mem (ps_store s)" "oi_data (order_of s e)" fs 0 "oi_size (order_of s e)" no w t] assms
  by (simp add: order_holds_def)

theorem order_fields_printed_witness:
  "print_fields (st_mem (ps_store (sample_print (field_bytes sample_text)))) 10 1 0x2000 0 [] 5 = Some ([(1, 0x48), (1, 0x69)], 15)"
  using order_fields_printed [OF sample_holds, of 1 "[]" 5]
  by (simp add: field_output_def) (simp add: sample_print_def field_bytes_def field_tag_def)

text \<open>C24. An order with a field of no known type behind any number of good ones is
  reported as wrong and deleted in the round of the printing task that takes it; nothing of it is printed and no
  cell is taken for it.\<close>

theorem bad_order_rejected:
  assumes "OSSemPend (ps_Print_Sem s) = Some n" "next_entry (s\<lparr>ps_Print_Sem := n\<rparr>) = (Some e, t)" "order_spoilt (ps_store t) e fs"
  shows "\<exists>s'. Print_Task_round s = Some s' \<and> ps_store s' = snd (Delete_Order (with_status e PRINT_STATUS_DATA_ERR (ps_store t)) e)
    \<and> ps_wire s' = ps_wire t \<and> ps_cells s' = ps_cells t
    \<and> ps_mesg s' = Order_Print_Status_Send ((order_of t e)\<lparr>oi_status := PRINT_STATUS_DATA_ERR\<rparr>) PRINT_STATUS_DATA_ERR (ps_mesg t)"
  using assms by (rule spoilt_dropped)

theorem bad_order_rejected_witness:
  "\<exists>s'. Print_Task_round (sample_print (field_bytes sample_text @ [1, 2, 3])) = Some s' \<and> ps_wire s' = []"
proof -
  let ?s = "sample_print (field_bytes sample_text @ [1, 2, 3])"
  let ?t = "?s\<lparr>ps_Print_Sem := 0, ps_RestoreOrderTable := [255, 255, 0]\<rparr>"
  have "OSSemPend (ps_Print_Sem ?s) = Some 0" by (simp add: sample_print_def OSSemPend_def)
  moreover have "next_entry (?s\<lparr>ps_Print_Sem := 0\<rparr>) = (Some 3, ?t)"
    by (simp add: next_entry_def GetRestoredOrder_def upt_rec) (simp add: sample_print_def)
  moreover have "order_spoilt (ps_store ?t) 3 [sample_text]" using sample_spoilt by simp
  moreover have "ps_wire ?t = []" by (simp add: sample_print_def sample_sys_def)
  ultimately show ?thesis using bad_order_rejected [of ?s 0 3 ?t "[sample_text]"] by metis
qed

text \<open>C25. An accepted order of texts and links, without pictures, that is dispatched while a cell is idle and
  no cut of the paper is pending is printed to the end: the task of the cell that gets it sends exactly its bytes and
  the status command to its printer, the normal answer, if no byte of the other printer falls between its four,
  deletes the order, and the task and the cell are free for the next one.\<close>

theorem order_end_to_end:
  assumes "cells_ok s" "0 < idle_cells s" "order_holds (ps_store s) e fs" "list_all (\<lambda>f. kind f \<noteq> DATA_IS_IMAGE) fs"
    "ps_needCutPaper s = [False, False, False]" "ps_cnt s = 0" "length (ps_tmp s) = 4"
    "ResolveStatus [b1, b2, b3, b4] = NORMAL_STATE"
  shows "\<exists>s1 no s2 s3 s4. DispensePrintJob e s = Some s1 \<and> Transmit_Task_begin no s1 = Some s2
    \<and> ps_wire s2 = ps_wire s @ map (Pair no) (order_text fs @ [0x10, 0x04, 1])
    \<and> receive dev [(no, b1), (no, b2), (no, b3), (no, b4)] s2 = Some s3 \<and> Print_Order_done no s3 = Some s4 \<and> cells_ok s4
    \<and> pc_status (cell s4 (unat (no - 1))) = PRINT_CELL_STATUS_IDLE
    \<and> ps_store s4 = snd (Delete_Order (with_status e PRINT_STATUS_OK (ps_store s)) e)"
  using assms by (rule order_end_to_end_aux)

theorem order_end_to_end_witness:
  "\<exists>s1 no s2. DispensePrintJob 3 (sample_print (field_bytes sample_text)) = Some s1 \<and> Transmit_Task_begin no s1 = Some s2
    \<and> ps_wire s2 = map (Pair no) [0x48, 0x69, 0x10, 0x04, 1]"
proof -
  have r: "ResolveStatus [0, 0, 0, 0x0c] = NORMAL_STATE" by (simp add: ResolveStatus_def)
  have i: "0 < idle_cells (sample_print (field_bytes sample_text))" by (simp add: sample_print_facts)
  have l: "list_all (\<lambda>f. kind f \<noteq> DATA_IS_IMAGE) [sample_text]" by simp
  have w: "ps_wire (sample_print (field_bytes sample_text)) = []" "order_text [sample_text] = [0x48, 0x69]"
    by (simp_all add: sample_print_def sample_sys_def order_text_def field_text_def)
  obtain s1 no s2 where "DispensePrintJob 3 (sample_print (field_bytes sample_text)) = Some s1" "Transmit_Task_begin no s1 = Some s2"
    "ps_wire s2 = ps_wire (sample_print (field_bytes sample_text)) @ map (Pair no) (order_text [sample_text] @ [0x10, 0x04, 1])"
    using order_end_to_end [OF sample_print_facts(1) i sample_holds l sample_print_facts(5,3,4) r, of "\<lambda>m a bs. m"] by blast
  then show ?thesis unfolding w by (intro exI [of _ s1] exI [of _ no] exI [of _ s2]) simp
qed

end
