(* ===== verification/Print_Queue.thy ===== *)
theory Print_Queue
  imports Print_Cells
begin

text \<open>
  The task that moves orders from the buffers into the print queue, \<^verbatim>\<open>Print_Queue_Fun\<close> of
  \<^verbatim>\<open>User/src/print_queue.c\<close>, with the change of the order of printing when an urgent order
  lacks a block and the removal of a wrong order from a buffer.  \<^term>\<open>None\<close> is a use of an
  array out of its range, a loop that does not end, or a wait that is not enabled yet.
\<close>

section \<open>Changing the order of printing\<close>

text \<open>The front, next and current index that the search stores through its pointers, in this order.\<close>

partial_function (option) find_loop :: "order_print_queue_info \<Rightarrow> u16 \<Rightarrow> u8 \<Rightarrow> u8 \<Rightarrow> u8 \<Rightarrow> (u8 \<times> u8 \<times> u8) option" where
  "find_loop t aim_size front next current =
     (if next = pt_tail t then Some (front, next, current)
      else if \<not> in_table t current then None
      else if oi_size (node t current) = aim_size then Some (front, next, current)
      else if \<not> in_table t next then None
      else find_loop t aim_size current (oi_next_print_node (node t next)) next)"

definition Find_Front_And_Next_Index :: "order_print_queue_info \<Rightarrow> u8 \<Rightarrow> u16 \<Rightarrow> (u8 \<times> u8 \<times> u8) option" where
  "Find_Front_And_Next_Index t start_index aim_size =
     (if in_table t start_index then find_loop t aim_size start_index (oi_next_print_node (node t start_index)) start_index
      else None)"

text \<open>The walk over the urgent orders at the head: start, the one before it, and whether one has the block size.\<close>

partial_function (option) urgent_scan :: "order_print_queue_info \<Rightarrow> u16 \<Rightarrow> u8 \<Rightarrow> u8 \<Rightarrow> (u8 \<times> u8 \<times> bool) option" where
  "urgent_scan t block_size start_index start_index_front =
     (if \<not> in_table t start_index then None
      else if oi_priority (node t start_index) = ORDER_PRIO_HIGH
      then if oi_size (node t start_index) = block_size then Some (start_index, start_index_front, True)
           else if start_index = pt_tail t then Some (start_index, start_index_front, False)
           else urgent_scan t block_size (oi_next_print_node (node t start_index)) start_index
      else Some (start_index, start_index_front, False))"

definition lack_size :: "int \<Rightarrow> u16" where
  "lack_size entry_index = (if entry_index = Lack_Of 0 then 1024 else if entry_index = Lack_Of 1 then 2048
     else if entry_index = Lack_Of 2 then 4096 else if entry_index = Lack_Of 3 then 10240 else 0)"

definition fitting_size :: "u16 \<Rightarrow> u16" where
  "fitting_size sz = (if sz \<le> 1024 then 1024 else if sz \<le> 2048 then 2048 else if sz \<le> 4096 then 4096
     else if sz \<le> 10240 then 10240 else 0)"

text \<open>The search is called with the pointers to the next and to the front index exchanged.\<close>

definition Change_Order_Seque :: "int \<Rightarrow> order_print_queue_info \<Rightarrow> order_print_queue_info option" where
  "Change_Order_Seque entry_index t =
     (if entry_index < 0
      then let block_size = lack_size entry_index;
               printing_size = fitting_size (oi_size (node t (pt_head t)))
           in if \<not> in_table t (pt_head t) then None
              else if printing_size \<noteq> block_size
              then case urgent_scan t block_size (pt_head t) (pt_head t) of None \<Rightarrow> None
                | Some (start_index, start_index_front, in_urgent_order_flag) \<Rightarrow>
                    if start_index = start_index_front \<and> oi_priority (node t start_index) \<noteq> ORDER_PRIO_HIGH
                    then case Find_Front_And_Next_Index t start_index block_size of None \<Rightarrow> None
                      | Some (next_index, front_index, current_index) \<Rightarrow>
                          let t = set_next front_index next_index t;
                              t = set_next current_index (pt_head t) t
                          in Some (t\<lparr>pt_head := current_index\<rparr>)
                    else if \<not> in_urgent_order_flag
                    then if start_index = pt_tail t then Some t
                      else case Find_Front_And_Next_Index t start_index block_size of None \<Rightarrow> None
                        | Some (next_index, front_index, current_index) \<Rightarrow>
                            if front_index = current_index then Some t
                            else let t = set_next front_index next_index t;
                                     t = set_next current_index start_index t
                                 in Some (set_next start_index_front current_index t)
                    else Some t
              else Some t
      else Some t)"

section \<open>Removing a wrong order from a buffer\<close>

text \<open>The loop up to the next head of an order, with its count.\<close>

partial_function (option) seek_head :: "SqQueue \<Rightarrow> u32 \<Rightarrow> (SqQueue \<times> u32) option" where
  "seek_head buf cnt =
     (if length (sq_base buf) \<le> unat (sq_read buf) \<or> length (sq_base buf) \<le> unat ((sq_read buf + 1) mod sq_MAX buf) then None
      else if sq_read buf \<noteq> sq_write buf \<and> (sq_base buf ! unat (sq_read buf) \<noteq> 0x3e
         \<or> sq_base buf ! unat ((sq_read buf + 1) mod sq_MAX buf) \<noteq> 0x11)
      then seek_head (buf\<lparr>sq_read := (sq_read buf + 1) mod sq_MAX buf\<rparr>) (cnt + 1)
      else Some (buf, cnt))"

definition error_order_deal :: "SqQueue \<Rightarrow> bool \<Rightarrow> buf_info \<Rightarrow> (SqQueue \<times> buf_info) option" where
  "error_order_deal buf order_prio_sigal b =
     (case seek_head buf 1 of None \<Rightarrow> None
      | Some (buf, cnt) \<Rightarrow>
          let buf = buf\<lparr>sq_read := (sq_read buf + 2) mod sq_MAX buf\<rparr>; cnt = cnt + 1
          in if order_prio_sigal
             then let b = b\<lparr>bn_urgent_buf_remain_capacity := bn_urgent_buf_remain_capacity b + cnt\<rparr>
                  in Some (if bn_urgent_buf_remain_capacity b = bn_urgent_buf_size b then buf\<lparr>sq_buf_empty := 1\<rparr> else buf, b)
             else let b = b\<lparr>bn_common_buf_remain_capacity := bn_common_buf_remain_capacity b + cnt\<rparr>
                  in Some (if bn_common_buf_remain_capacity b = bn_common_buf_size b then buf\<lparr>sq_buf_empty := 1\<rparr> else buf, b))"

section \<open>The task\<close>

record intake =
  in_sys :: print_sys
  in_urgent :: SqQueue
  in_queue :: SqQueue
  in_Print_Queue_Sem :: u16
  in_Batch_Rec_Sem :: u16
  in_requests :: nat

definition OrderEnqueue :: "SqQueue \<Rightarrow> u8 \<Rightarrow> u8 \<Rightarrow> print_sys \<Rightarrow> (print_sys \<times> SqQueue) option" where
  "OrderEnqueue buf entry_index order_prio_sigal s =
     (case Add_Order_To_Print_Queue (ps_store s) buf entry_index order_prio_sigal of None \<Rightarrow> None
      | Some (st, buf) \<Rightarrow>
          let s = s\<lparr>ps_store := st\<rparr>;
              s = send_mesg (Order_QUEUE_Status_Send (order_of s entry_index) ENQUEUE_OK) s
          in Some (s\<lparr>ps_Print_Sem := OSSemPost (ps_Print_Sem s)\<rparr>, buf))"

text \<open>One turn of the inner loop with the buffer it works on; the urgent buffer goes first.\<close>

definition put_buf :: "bool \<Rightarrow> SqQueue \<Rightarrow> intake \<Rightarrow> intake" where
  "put_buf u buf s = (if u then s\<lparr>in_urgent := buf\<rparr> else s\<lparr>in_queue := buf\<rparr>)"

definition set_table :: "order_print_queue_info \<Rightarrow> print_sys \<Rightarrow> print_sys" where
  "set_table t s = s\<lparr>ps_store := (ps_store s)\<lparr>st_table := t\<rparr>\<rparr>"

definition drop_wrong :: "bool \<Rightarrow> SqQueue \<Rightarrow> intake \<Rightarrow> intake option" where
  "drop_wrong u buf s =
     (let t = st_table (ps_store (in_sys s))
      in case error_order_deal buf u (pt_buf_node t) of None \<Rightarrow> None
         | Some (buf, b) \<Rightarrow> Some (put_buf u buf (s\<lparr>in_sys := set_table (t\<lparr>pt_buf_node := b\<rparr>) (in_sys s)\<rparr>)))"

definition check_request :: "intake \<Rightarrow> intake" where
  "check_request s =
     (case Check_Buf_Request_Signal (in_queue s) (in_Batch_Rec_Sem s) of
        (n, request) \<Rightarrow> s\<lparr>in_Batch_Rec_Sem := n, in_requests := in_requests s + (if request then 1 else 0)\<rparr>)"

definition queue_step :: "intake \<Rightarrow> intake option" where
  "queue_step s =
     (let u = (Is_Empty_Queue (in_urgent s) = 0); buf = (if u then in_urgent s else in_queue s);
          order_len = snd (Read_Order_Length_Queue buf 0)
      in case Find_Entry (ps_store (in_sys s)) order_len u of None \<Rightarrow> None
         | Some (entry_index, st) \<Rightarrow>
             let s = s\<lparr>in_sys := (in_sys s)\<lparr>ps_store := st\<rparr>\<rparr>
             in if entry_index = ORDER_TOO_LARGER then drop_wrong u buf s
                else if entry_index = ORDER_FIND_INDEX_ERR then drop_wrong u buf s
                else if entry_index < 0
                then let s = s\<lparr>in_Print_Queue_Sem := OSSemPost (in_Print_Queue_Sem s)\<rparr>
                     in case Change_Order_Seque entry_index (st_table st) of None \<Rightarrow> None
                        | Some t \<Rightarrow> Some (s\<lparr>in_sys := set_table t (in_sys s)\<rparr>)
                else case OrderEnqueue buf (of_int entry_index) (if u then 1 else 0) (in_sys s) of None \<Rightarrow> None
                     | Some (sys, buf) \<Rightarrow> Some (check_request (put_buf u buf (s\<lparr>in_sys := sys\<rparr>))))"

definition both_empty :: "intake \<Rightarrow> bool" where
  "both_empty s \<longleftrightarrow> Is_Empty_Queue (in_urgent s) \<noteq> 0 \<and> Is_Empty_Queue (in_queue s) \<noteq> 0"

partial_function (option) queue_turns :: "intake \<Rightarrow> intake option" where
  "queue_turns s = (if both_empty s then Some s else case queue_step s of None \<Rightarrow> None | Some s \<Rightarrow> queue_turns s)"

definition Print_Queue_Fun :: "intake \<Rightarrow> intake option" where
  "Print_Queue_Fun s =
     (case OSSemPend (in_Print_Queue_Sem s) of None \<Rightarrow> None
      | Some n \<Rightarrow> queue_turns (s\<lparr>in_Print_Queue_Sem := n\<rparr>))"

section \<open>What the change of the order does to the queue\<close>

lemma find_loop_spec:
  assumes "qpath (pt_order_node t) cur (ys @ c # n # zs) (pt_tail t)" "distinct (ys @ c # n # zs)"
    "\<forall>x \<in> set (ys @ c # n # zs). in_table t x" "\<forall>y \<in> set ys. oi_size (node t y) \<noteq> aim" "oi_size (node t c) = aim \<or> zs = []"
  shows "find_loop t aim front (oi_next_print_node (node t cur)) cur = Some (last (front # ys), n, c)"
  using assms
proof (induction ys arbitrary: cur front)
  case Nil
  have cur: "cur = c" "oi_next_print_node (node t c) = n" using Nil.prems(1) by (auto simp: qpath_Cons)
  show ?case
  proof (cases "zs = []")
    case True
    then have "n = pt_tail t" using Nil.prems(1) by (auto simp: qpath_Cons)
    then show ?thesis by (subst find_loop.simps) (simp add: cur)
  next
    case False
    have "pt_tail t = last zs" using Nil.prems(1) False by (auto simp: qpath_Cons dest: qpath_hd)
    then have "n \<noteq> pt_tail t" using Nil.prems(2) last_in_set [OF False] by auto
    then show ?thesis using Nil.prems(3,5) False by (subst find_loop.simps) (simp add: cur)
  qed
next
  case (Cons y ys)
  let ?next = "oi_next_print_node (node t y)"
  have cur: "cur = y" and p: "qpath (pt_order_node t) ?next (ys @ c # n # zs) (pt_tail t)"
    using Cons.prems(1) by (auto simp: qpath_Cons)
  have h: "?next = hd (ys @ [c])" using qpath_hd [OF p] by (cases ys) auto
  have "pt_tail t = last (n # zs)" using qpath_hd [OF p] by (simp split: if_splits)
  then have "pt_tail t \<in> set (n # zs)" by (metis last_in_set list.discI)
  moreover have "?next \<in> set (ys @ [c])" using h by (cases ys) auto
  ultimately have nt: "?next \<noteq> pt_tail t" using Cons.prems(2) by auto
  have "in_table t ?next" using Cons.prems(3) \<open>?next \<in> set (ys @ [c])\<close> by auto
  moreover have "find_loop t aim y (oi_next_print_node (node t ?next)) ?next = Some (last (y # ys), n, c)"
    by (rule Cons.IH [OF p]) (use Cons.prems in auto)
  ultimately show ?case using Cons.prems(3,4) nt by (subst find_loop.simps) (simp add: cur)
qed

lemma path_next:
  "qpath ns h (xs @ c # zs) l \<Longrightarrow> x \<in> set xs \<Longrightarrow> oi_next_print_node (ns ! unat x) \<in> set (xs @ [c])"
proof (induction xs arbitrary: h)
  case (Cons y ys)
  have p: "h = y" "qpath ns (oi_next_print_node (ns ! unat y)) (ys @ c # zs) l" using Cons.prems(1) by (auto simp: qpath_Cons)
  show ?case
  proof (cases "x = y")
    case True
    then show ?thesis using qpath_hd [OF p(2)] by (cases ys) auto
  next
    case False
    then show ?thesis using Cons.IH [OF p(2)] Cons.prems(2) by auto
  qed
qed simp

lemma closed_path:
  "qpath ns h qs l \<Longrightarrow> h \<in> S \<Longrightarrow> (\<And>x. x \<in> S \<Longrightarrow> oi_next_print_node (ns ! unat x) \<in> S) \<Longrightarrow> l \<in> S"
  by (induction ns h qs l rule: qpath.induct) auto

lemma set_next_other: "x \<noteq> i \<Longrightarrow> node (set_next i n t) x = node t x"
  by (simp add: set_next_def)

lemma set_next_same: "in_table t i \<Longrightarrow> oi_next_print_node (node (set_next i n t) i) = n"
  by (simp add: set_next_def in_table_def)

lemma set_next_ends [simp]: "pt_head (set_next i n t) = pt_head t" "pt_tail (set_next i n t) = pt_tail t"
  "in_table (set_next i n t) x = in_table t x"
  by (simp_all add: set_next_def in_table_def)

lemma change_cycle:
  assumes "is_queue t (ys @ c # n # zs)" "ys \<noteq> []" "\<not> urgent t (hd ys)" "code < 0"
    "fitting_size (oi_size (node t (hd ys))) \<noteq> lack_size code"
    "\<forall>y \<in> set ys. oi_size (node t y) \<noteq> lack_size code" "oi_size (node t c) = lack_size code \<or> zs = []"
  shows "\<exists>t'. Change_Order_Seque code t = Some t' \<and> pt_head t' = c \<and> pt_tail t' = pt_tail t
    \<and> (\<forall>qs. \<not> qpath (pt_order_node t') (pt_head t') qs (pt_tail t'))"
proof -
  let ?aim = "lack_size code" and ?h = "hd ys"
  have q: "qpath (pt_order_node t) (pt_head t) (ys @ c # n # zs) (pt_tail t)" "distinct (ys @ c # n # zs)"
    "\<forall>x \<in> set (ys @ c # n # zs). in_table t x"
    using assms(1) by (auto simp: is_queue_def)
  have head: "pt_head t = ?h" using qpath_hd [OF q(1)] assms(2) by (cases ys) auto
  have hin: "?h \<in> set ys" using assms(2) by (cases ys) auto
  have it: "in_table t ?h" "in_table t c" "in_table t n" using q(3) hin by auto
  have scan: "urgent_scan t ?aim ?h ?h = Some (?h, ?h, False)"
    using assms(3) it by (subst urgent_scan.simps) (simp add: urgent_def)
  have find: "Find_Front_And_Next_Index t ?h ?aim = Some (last ys, n, c)"
    using find_loop_spec [OF q(1)[unfolded head] q(2,3) assms(6,7), of ?h] it assms(2)
    by (simp add: Find_Front_And_Next_Index_def)
  define t' where "t' = (set_next c (pt_head t) (set_next n (last ys) t))\<lparr>pt_head := c\<rparr>"
  have r: "Change_Order_Seque code t = Some t'"
    using assms(3-5) it scan find by (simp add: Change_Order_Seque_def Let_def head t'_def urgent_def)
  have nc: "oi_next_print_node (node t' c) = ?h" using it by (simp add: t'_def set_next_same head)
  have ny: "node t' y = node t y" if "y \<in> set ys" for y
  proof -
    have "y \<noteq> c" "y \<noteq> n" using that q(2) by auto
    then show ?thesis by (simp add: t'_def set_next_other)
  qed
  note nx = nc ny
  have closed: "oi_next_print_node (node t' x) \<in> set (ys @ [c])" if "x \<in> set (ys @ [c])" for x
    using that nx hin path_next [of "pt_order_node t" "pt_head t" ys c "n # zs" "pt_tail t" x] q(1) by auto
  have "pt_tail t = last (n # zs)" using qpath_hd [OF q(1)] by (simp split: if_splits)
  then have "pt_tail t \<in> set (n # zs)" by (metis last_in_set list.discI)
  then have "pt_tail t \<notin> set (ys @ [c])" using q(2) by auto
  moreover have "pt_tail t' = pt_tail t" "pt_head t' = c" by (simp_all add: t'_def)
  ultimately have "\<not> qpath (pt_order_node t') (pt_head t') qs (pt_tail t')" for qs
    using closed_path [of "pt_order_node t'" c qs "pt_tail t" "set (ys @ [c])"] closed by auto
  then show ?thesis using r by (auto simp: t'_def)
qed

section \<open>A turn of the task\<close>

definition chosen :: "intake \<Rightarrow> SqQueue" where
  "chosen s = (if Is_Empty_Queue (in_urgent s) = 0 then in_urgent s else in_queue s)"

definition chosen_prio :: "intake \<Rightarrow> u8" where
  "chosen_prio s = (if Is_Empty_Queue (in_urgent s) = 0 then ORDER_PRIO_HIGH else ORDER_PRIO_LOW)"

text \<open>The whole order at the front of the buffer: head, body, end, and what follows.\<close>

definition order_front :: "SqQueue \<Rightarrow> u8 list \<Rightarrow> u8 list \<Rightarrow> bool" where
  "order_front buf bs rest \<longleftrightarrow> ring buf \<and> sq_buf_empty buf = 0 \<and> unat (sq_read buf) + 24 \<le> unat (sq_MAX buf)
     \<and> (\<exists>hd' tl'. contents buf = hd' @ bs @ tl' @ rest \<and> length hd' = 24 \<and> length tl' = 4
           \<and> unat (be16 (hd' ! 2) (hd' ! 3)) = length bs)"

lemma find_entry_free:
  assumes "store_inv s None" "2 * unat len < class_size (class_of_len (unat len))"
    "free_nodes (st_table s) (class_of_len (unat len)) \<noteq> []"
  shows "\<exists>i s'. Find_Entry s len u = Some (int (unat i), s') \<and> unat (i :: u8) \<in> set (free_nodes (st_table s) (class_of_index (unat i)))
    \<and> class_of_index (unat i) = class_of_len (unat len) \<and> store_inv s' (Some (class_of_index (unat i))) \<and> st_table s' = st_table s"
proof -
  let ?c = "class_of_len (unat len)"
  have "class_size ?c \<le> 10240" by (simp add: class_size_def class_of_len_def)
  then have "\<not> 10240 < unat len" using assms(2) by linarith
  then obtain i s' where i: "Find_Entry s len u = Some (int i, s')" "i \<in> set (free_nodes (st_table s) ?c)"
    "store_inv s' (Some ?c)" "st_table s' = st_table s"
    using find_block_spec [OF assms(1), of ?c u] assms(3) by (auto simp: Find_Entry_def)
  then have "i < 11" "class_of_index i = ?c" using idxs_class [of ?c i] by (auto simp: free_nodes_def)
  moreover from this have "unat (of_nat i :: u8) = i" by (simp add: unat_of_nat take_bit_nat_eq_self)
  ultimately show ?thesis using i by (intro exI [of _ "of_nat i :: u8"] exI [of _ s']) simp
qed

lemma queue_step_order:
  assumes "store_inv (ps_store (in_sys s)) None" "is_queue (st_table (ps_store (in_sys s))) xs" "order_front (chosen s) bs rest"
    "2 * length bs < class_size (class_of_len (length bs))"
    "free_nodes (st_table (ps_store (in_sys s))) (class_of_len (length bs)) \<noteq> []"
    "chosen_prio s = ORDER_PRIO_HIGH \<Longrightarrow> xs = [] \<or> (\<exists>x \<in> set xs. \<not> urgent (st_table (ps_store (in_sys s))) x)"
  shows "\<exists>s' e u. queue_step s = Some s' \<and> store_inv (ps_store (in_sys s')) None
    \<and> is_queue (st_table (ps_store (in_sys s'))) (prio_insert u e xs)
    \<and> u = (\<lambda>x. if x = e then chosen_prio s = ORDER_PRIO_HIGH else urgent (st_table (ps_store (in_sys s))) x)
    \<and> unat (oi_size (order_of (in_sys s') e)) = length bs
    \<and> load_block (st_mem (ps_store (in_sys s'))) (oi_data (order_of (in_sys s') e)) (length bs) = bs
    \<and> contents (if chosen_prio s = ORDER_PRIO_HIGH then in_urgent s' else in_queue s') = rest
    \<and> (if chosen_prio s = ORDER_PRIO_HIGH then in_queue s' = in_queue s else in_urgent s' = in_urgent s)
    \<and> ps_Print_Sem (in_sys s') = OSSemPost (ps_Print_Sem (in_sys s))
    \<and> ps_mesg (in_sys s') = Order_QUEUE_Status_Send (order_of (in_sys s') e) ENQUEUE_OK (ps_mesg (in_sys s))"
proof -
  let ?sys = "in_sys s" and ?u = "Is_Empty_Queue (in_urgent s) = 0"
  obtain h t where f: "ring (chosen s)" "sq_buf_empty (chosen s) = 0" "unat (sq_read (chosen s)) + 24 \<le> unat (sq_MAX (chosen s))"
    "contents (chosen s) = h @ bs @ t @ rest" "length h = 24" "length t = 4" "unat (be16 (h ! 2) (h ! 3)) = length bs"
    using assms(3) by (auto simp: order_front_def)
  have len: "snd (Read_Order_Length_Queue (chosen s) 0) = be16 (h ! 2) (h ! 3)"
  proof -
    have "length (contents (chosen s)) = used (chosen s)" by (simp add: contents_def)
    then have "28 \<le> used (chosen s)" using f(4-6) by simp
    then show ?thesis using f(4,5) order_length [OF f(1)] by (simp add: nth_append)
  qed
  let ?len = "be16 (h ! 2) (h ! 3)"
  obtain i st where i: "Find_Entry (ps_store ?sys) ?len ?u = Some (int (unat i), st)"
    "unat (i :: u8) \<in> set (free_nodes (st_table (ps_store ?sys)) (class_of_index (unat i)))"
    "class_of_index (unat i) = class_of_len (length bs)" "store_inv st (Some (class_of_index (unat i)))" "st_table st = st_table (ps_store ?sys)"
    using find_entry_free [OF assms(1), of ?len ?u] assms(4,5) f(7) by auto
  obtain st' buf' where a: "Add_Order_To_Print_Queue st (chosen s) i (chosen_prio s) = Some (st', buf')" "store_inv st' None"
    "is_queue (st_table st') (prio_insert (\<lambda>x. if x = i then chosen_prio s = ORDER_PRIO_HIGH else urgent (st_table st) x) i xs)"
    "contents buf' = rest" "unat (oi_size (node (st_table st') i)) = length bs"
    "load_block (st_mem st') (oi_data (node (st_table st') i)) (length bs) = bs"
    using add_order [OF i(4) _ _ f(1,4,5,6,7,3), of xs "chosen_prio s"] assms(2,4,6) i by auto
  define sys where "sys = (send_mesg (Order_QUEUE_Status_Send (node (st_table st') i) ENQUEUE_OK) (?sys\<lparr>ps_store := st'\<rparr>))
    \<lparr>ps_Print_Sem := OSSemPost (ps_Print_Sem ?sys)\<rparr>"
  define s' where "s' = check_request (put_buf ?u buf' (s\<lparr>in_sys := sys\<rparr>))"
  have g: "0 \<le> uint i" by simp
  have nn: "uint i \<noteq> -100" "uint i \<noteq> -101" using g by linarith+
  have n: "(uint i = -100) = False" "(uint i = -101) = False" using nn by blast+
  have r: "queue_step s = Some s'"
    using i(1) a(1) len
    by (simp add: queue_step_def Let_def chosen_def [symmetric] chosen_prio_def OrderEnqueue_def sys_def s'_def send_mesg_def n)
  have "in_sys s' = sys" "in_urgent s' = (if ?u then buf' else in_urgent s)" "in_queue s' = (if ?u then in_queue s else buf')"
    by (simp_all add: s'_def check_request_def put_buf_def split: prod.splits)
  moreover have "ps_store sys = st'" "ps_Print_Sem sys = OSSemPost (ps_Print_Sem ?sys)"
    "ps_mesg sys = Order_QUEUE_Status_Send (node (st_table st') i) ENQUEUE_OK (ps_mesg ?sys)"
    by (simp_all add: sys_def send_mesg_def)
  moreover have "?u = (chosen_prio s = ORDER_PRIO_HIGH)" by (simp add: chosen_prio_def)
  moreover note a(2,4-6) a(3)[unfolded i(5)]
  ultimately show ?thesis using r
    by (intro exI [of _ s'] exI [of _ i] exI conjI) (assumption | rule refl | simp)+
qed

section \<open>A wrong order\<close>

lemma wrong_order_two:
  assumes "ring buf" "contents buf = 0x3e # 0x11 # rest"
  shows "\<exists>buf' b'. error_order_deal buf u b = Some (buf', b') \<and> sq_read buf' = (sq_read buf + 2) mod sq_MAX buf
    \<and> sq_base buf' = sq_base buf \<and> sq_write buf' = sq_write buf
    \<and> (if u then bn_urgent_buf_remain_capacity b' = bn_urgent_buf_remain_capacity b + 2
       else bn_common_buf_remain_capacity b' = bn_common_buf_remain_capacity b + 2)"
proof -
  let ?i = "unat (sq_read buf)" and ?j = "unat ((sq_read buf + 1) mod sq_MAX buf)"
  have r: "0 < sq_MAX buf" "length (sq_base buf) = unat (sq_MAX buf)" "sq_read buf < sq_MAX buf" using assms(1) by (auto simp: ring_def)
  then have m: "sq_read buf mod sq_MAX buf = sq_read buf" by (simp add: unat_mod_distrib word_less_nat_alt word_unat_eq_iff)
  have l: "length (contents buf) = used buf" by (simp add: contents_def)
  have "2 \<le> used buf" using l assms(2) by simp
  then have "contents buf ! 0 = peek buf 0" "contents buf ! 1 = peek buf 1" by (simp_all add: contents_def)
  then have b: "sq_base buf ! ?i = 0x3e" "sq_base buf ! ?j = 0x11" using assms(2) m by (simp_all add: peek_def)
  have "?i < length (sq_base buf)" using r by (simp add: word_less_nat_alt)
  moreover have "?j < length (sq_base buf)" using r by (simp add: unat_mod_distrib word_less_nat_alt)
  ultimately have "seek_head buf 1 = Some (buf, 1)" using b by (subst seek_head.simps) simp
  then show ?thesis by (simp add: error_order_deal_def Let_def)
qed

section \<open>Properties\<close>


definition sample_intake :: intake where
  "sample_intake = \<lparr>in_sys = (sample_sys [] 0)\<lparr>ps_store := sample_store\<rparr>, in_urgent = init_SqQueue 40, in_queue = plain_order,
     in_Print_Queue_Sem = 1, in_Batch_Rec_Sem = 0, in_requests = 0\<rparr>"


text \<open>C27. When an urgent order lacks a block and no urgent order waits, \<^verbatim>\<open>Change_Order_Seque\<close> is to bring forward
  the first order of the block's size.  The search stores its results through exchanged pointers: if that order is not
  the first, the queue becomes a cycle from it through the orders before it, and neither the orders
  behind it nor the tail of the queue can be reached from its head any more.\<close>

theorem change_order_cycle:
  assumes "is_queue t (ys @ c # n # zs)" "ys \<noteq> []" "\<not> urgent t (hd ys)" "code < 0"
    "fitting_size (oi_size (node t (hd ys))) \<noteq> lack_size code"
    "\<forall>y \<in> set ys. oi_size (node t y) \<noteq> lack_size code" "oi_size (node t c) = lack_size code \<or> zs = []"
  shows "\<exists>t'. Change_Order_Seque code t = Some t' \<and> pt_head t' = c \<and> pt_tail t' = pt_tail t
    \<and> (\<forall>qs. \<not> qpath (pt_order_node t') (pt_head t') qs (pt_tail t'))"
  using assms by (rule change_cycle)

definition three_orders :: order_print_queue_info where
  "three_orders = Init_Order_Table\<lparr>pt_order_node := map (\<lambda>i. blank_order\<lparr>oi_data := 4, oi_size := 700,
     oi_next_print_node := (if i < 2 then of_nat i + 1 else 255)\<rparr>) [0 ..< ALL_BLOCK_NUM], pt_head := 0, pt_tail := 2, pt_empty := 0\<rparr>"

theorem change_order_cycle_witness:
  "\<exists>t'. Change_Order_Seque (-2) three_orders = Some t' \<and> pt_head t' = 1
    \<and> \<not> (\<exists>qs. qpath (pt_order_node t') (pt_head t') qs (pt_tail t'))"
proof -
  have q: "is_queue three_orders ([0] @ 1 # 2 # [])"
    by (simp add: is_queue_def three_orders_def in_table_def del: upt_Suc)
  have z: "pt_order_node three_orders ! 0 = blank_order\<lparr>oi_data := 4, oi_size := 700, oi_next_print_node := 1\<rparr>"
    by (simp add: three_orders_def del: upt_Suc)
  have "\<not> urgent three_orders (hd [0])" by (simp add: urgent_def z blank_order_def)
  moreover have "fitting_size (oi_size (node three_orders (hd [0]))) \<noteq> lack_size (-2)"
    "\<forall>y \<in> set [0]. oi_size (node three_orders y) \<noteq> lack_size (-2)"
    by (simp_all add: z fitting_size_def lack_size_def Lack_Of_def)
  ultimately show ?thesis using change_order_cycle [OF q, of "-2"] by auto
qed

end
