(* ===== verification/Os_Ready.thy ===== *)
theory Os_Ready
  imports Prelude
begin

text \<open>
  The priority lists of the kernel, \<^verbatim>\<open>UCOSII/Source/os_core.c\<close> for
  \<^verbatim>\<open>OS_LOWEST_PRIO\<close> 25: the ready list (\<^verbatim>\<open>OSRdyGrp\<close>, \<^verbatim>\<open>OSRdyTbl\<close>) and
  the list of the tasks that wait for an event (\<^verbatim>\<open>OSEventGrp\<close>, \<^verbatim>\<open>OSEventTbl\<close>) are
  both a byte of groups and four bytes of tasks, and the highest priority is read from a table
  of 256 entries.  The locale \<open>prio_set\<close> states what the scheduler and the services rely on:
  such a list is a set of priorities of which the least is found.
\<close>

section \<open>The table of lowest bits\<close>

definition OSUnMapTbl :: "u8 list" where
  "OSUnMapTbl =
  [0, 0, 1, 0, 2, 0, 1, 0, 3, 0, 1, 0, 2, 0, 1, 0,
   4, 0, 1, 0, 2, 0, 1, 0, 3, 0, 1, 0, 2, 0, 1, 0,
   5, 0, 1, 0, 2, 0, 1, 0, 3, 0, 1, 0, 2, 0, 1, 0,
   4, 0, 1, 0, 2, 0, 1, 0, 3, 0, 1, 0, 2, 0, 1, 0,
   6, 0, 1, 0, 2, 0, 1, 0, 3, 0, 1, 0, 2, 0, 1, 0,
   4, 0, 1, 0, 2, 0, 1, 0, 3, 0, 1, 0, 2, 0, 1, 0,
   5, 0, 1, 0, 2, 0, 1, 0, 3, 0, 1, 0, 2, 0, 1, 0,
   4, 0, 1, 0, 2, 0, 1, 0, 3, 0, 1, 0, 2, 0, 1, 0,
   7, 0, 1, 0, 2, 0, 1, 0, 3, 0, 1, 0, 2, 0, 1, 0,
   4, 0, 1, 0, 2, 0, 1, 0, 3, 0, 1, 0, 2, 0, 1, 0,
   5, 0, 1, 0, 2, 0, 1, 0, 3, 0, 1, 0, 2, 0, 1, 0,
   4, 0, 1, 0, 2, 0, 1, 0, 3, 0, 1, 0, 2, 0, 1, 0,
   6, 0, 1, 0, 2, 0, 1, 0, 3, 0, 1, 0, 2, 0, 1, 0,
   4, 0, 1, 0, 2, 0, 1, 0, 3, 0, 1, 0, 2, 0, 1, 0,
   5, 0, 1, 0, 2, 0, 1, 0, 3, 0, 1, 0, 2, 0, 1, 0,
   4, 0, 1, 0, 2, 0, 1, 0, 3, 0, 1, 0, 2, 0, 1, 0]"

text \<open>The reference: the position of the lowest bit that is set.\<close>

fun low_bit :: "nat \<Rightarrow> nat" where
  "low_bit n = (if n = 0 \<or> odd n then 0 else Suc (low_bit (n div 2)))"

declare low_bit.simps [simp del]

lemma low_bit_set: "n \<noteq> 0 \<Longrightarrow> bit n (low_bit n) \<and> (\<forall>j. bit n j \<longrightarrow> low_bit n \<le> j)"
proof (induction n rule: low_bit.induct)
  case (1 n)
  show ?case
  proof (cases "odd n")
    case True
    then show ?thesis by (simp add: low_bit.simps [of n] bit_0)
  next
    case False
    then have s: "low_bit n = Suc (low_bit (n div 2))" using "1.prems" by (simp add: low_bit.simps [of n])
    have ih: "bit (n div 2) (low_bit (n div 2)) \<and> (\<forall>j. bit (n div 2) j \<longrightarrow> low_bit (n div 2) \<le> j)"
      using "1.IH" "1.prems" False by (auto elim!: evenE)
    have "low_bit n \<le> j" if "bit n j" for j
      using that ih False s by (cases j) (auto simp: bit_0 bit_Suc)
    then show ?thesis using ih s by (simp add: bit_Suc)
  qed
qed

lemma OSUnMapTbl_low_bit: "map unat OSUnMapTbl = map low_bit [0 ..< 256]"
  unfolding OSUnMapTbl_def by code_simp


lemma OSUnMapTbl_nth:
  fixes g :: u8
  assumes "g \<noteq> 0"
  shows "bit g (unat (OSUnMapTbl ! unat g))" "bit g j \<Longrightarrow> unat (OSUnMapTbl ! unat g) \<le> j"
    "unat (OSUnMapTbl ! unat g) < 8"
proof -
  have l: "length OSUnMapTbl = 256" by (simp add: OSUnMapTbl_def)
  have "map unat OSUnMapTbl ! unat g = map low_bit [0 ..< 256] ! unat g" by (simp only: OSUnMapTbl_low_bit)
  then have e: "unat (OSUnMapTbl ! unat g) = low_bit (unat g)" using l unat_u8 [of g] by simp
  have b: "bit (unat g) i = bit g i" for i by (simp add: bit_unsigned_iff)
  have "unat g \<noteq> 0" using assms by (simp add: unat_eq_0)
  then have "bit (unat g) (low_bit (unat g)) \<and> (\<forall>j. bit (unat g) j \<longrightarrow> low_bit (unat g) \<le> j)" by (rule low_bit_set)
  then have *: "bit g (unat (OSUnMapTbl ! unat g))" "\<And>j. bit g j \<Longrightarrow> unat (OSUnMapTbl ! unat g) \<le> j"
    by (simp_all add: e b)
  show "bit g (unat (OSUnMapTbl ! unat g))" by (rule *)
  show "unat (OSUnMapTbl ! unat g) \<le> j" if "bit g j" using that by (rule *)
  show "unat (OSUnMapTbl ! unat g) < 8" using bit_imp_le_length [OF *(1)] by simp
qed

section \<open>Priority lists\<close>

type_synonym prio_list = "u8 \<times> u8 list"

definition OS_RDY_TBL_SIZE :: nat where
  "OS_RDY_TBL_SIZE = 4"

text \<open>
  The operations as the kernel writes them at every place: \<^verbatim>\<open>y\<close> is the byte of the table,
  \<^verbatim>\<open>bitx\<close> and \<^verbatim>\<open>bity\<close> are the masks that a task keeps in its control block.
\<close>

definition list_empty :: prio_list where
  "list_empty = (0, replicate OS_RDY_TBL_SIZE 0)"

definition list_or :: "u8 \<Rightarrow> u8 \<Rightarrow> u8 \<Rightarrow> prio_list \<Rightarrow> prio_list" where
  "list_or y bitx bity l = (fst l OR bity, (snd l)[unat y := snd l ! unat y OR bitx])"

definition list_clear :: "u8 \<Rightarrow> u8 \<Rightarrow> u8 \<Rightarrow> prio_list \<Rightarrow> prio_list" where
  "list_clear y bitx bity l =
     (let tbl = (snd l)[unat y := snd l ! unat y AND NOT bitx]
      in (if tbl ! unat y = 0 then fst l AND NOT bity else fst l, tbl))"

definition list_highest :: "prio_list \<Rightarrow> u8" where
  "list_highest l = (let y = OSUnMapTbl ! unat (fst l) in push_bit 3 y + OSUnMapTbl ! unat (snd l ! unat y))"

text \<open>What a list means: the priorities whose bit is set, and every group that has one.\<close>

definition list_ok :: "prio_list \<Rightarrow> bool" where
  "list_ok l \<longleftrightarrow> length (snd l) = 4 \<and> (\<forall>y < 8. bit (fst l) y = (y < 4 \<and> snd l ! y \<noteq> 0))"

definition prios :: "prio_list \<Rightarrow> nat set" where
  "prios l = {p. p < 32 \<and> bit (snd l ! (p div 8)) (p mod 8)}"

lemma word_ne_0_bit: "(w :: u8) \<noteq> 0 \<longleftrightarrow> (\<exists>i. bit w i)"
  by (metis bit_0_eq bit_word_eqI bot_apply bot_bool_def)

text \<open>The masks of a priority.\<close>

definition prio_y :: "u8 \<Rightarrow> u8" where
  "prio_y prio = drop_bit 3 prio"

definition prio_x :: "u8 \<Rightarrow> u8" where
  "prio_x prio = prio AND 7"

definition bit_of :: "u8 \<Rightarrow> u8" where
  "bit_of x = push_bit (unat x) 1"

lemma bit_bit_of: "bit (bit_of x) i \<longleftrightarrow> i = unat x \<and> i < 8"
  unfolding bit_of_def bit_push_bit_iff bit_1_iff by (auto dest: bit_imp_le_length)

lemma bit_or_mask: "bit (w OR bit_of x) i \<longleftrightarrow> bit w i \<or> i = unat x \<and> i < 8"
  by (simp add: bit_or_iff bit_bit_of)

lemma bit_clear_mask: "bit (w AND NOT (bit_of x)) i \<longleftrightarrow> bit w i \<and> i \<noteq> unat x"
  using bit_imp_le_length [of w i] by (auto simp: bit_and_iff bit_not_iff bit_bit_of)

lemma unat_prio_y: "unat (prio_y p) = unat p div 8"
  unfolding prio_y_def unat_drop_bit_eq by (simp add: drop_bit_eq_div)

lemma unat_prio_x: "unat (prio_x p) = unat p mod 8"
proof -
  have "p AND 7 = take_bit 3 p" by (simp add: take_bit_eq_mask mask_eq_exp_minus_1)
  then have "unat (p AND 7) = take_bit 3 (unat p)" by (simp only: unsigned_take_bit_eq)
  then show ?thesis by (simp add: prio_x_def take_bit_eq_mod)
qed

definition list_add :: "u8 \<Rightarrow> prio_list \<Rightarrow> prio_list" where
  "list_add p = list_or (prio_y p) (bit_of (prio_x p)) (bit_of (prio_y p))"

definition list_remove :: "u8 \<Rightarrow> prio_list \<Rightarrow> prio_list" where
  "list_remove p = list_clear (prio_y p) (bit_of (prio_x p)) (bit_of (prio_y p))"

lemma list_ok_empty: "list_ok list_empty" "prios list_empty = {}"
proof -
  have n: "replicate 4 (0 :: u8) ! y = 0" if "y < 4" for y using that by simp
  show "list_ok list_empty" using n by (auto simp: list_ok_def list_empty_def OS_RDY_TBL_SIZE_def)
  show "prios list_empty = {}" using n by (auto simp: prios_def list_empty_def OS_RDY_TBL_SIZE_def less_mult_imp_div_less)
qed

lemma list_ok_add:
  assumes "list_ok l" "unat p < 32"
  shows "list_ok (list_add p l)" "prios (list_add p l) = insert (unat p) (prios l)"
proof -
  have y: "unat p div 8 < 4" using assms(2) by linarith
  have len: "length (snd l) = 4" using assms(1) by (simp add: list_ok_def)
  have nz: "(snd l ! (unat p div 8) OR bit_of (prio_x p)) \<noteq> 0"
    unfolding word_ne_0_bit bit_or_mask unat_prio_x by auto
  show "list_ok (list_add p l)"
    unfolding list_ok_def list_add_def list_or_def fst_conv snd_conv unat_prio_y
  proof (intro conjI allI impI)
    fix y :: nat assume y8: "y < 8"
    show "bit (fst l OR bit_of (prio_y p)) y \<longleftrightarrow> y < 4 \<and>
        (snd l)[unat p div 8 := snd l ! (unat p div 8) OR bit_of (prio_x p)] ! y \<noteq> 0"
      using assms(1) y y8 nz len by (auto simp: list_ok_def bit_or_mask unat_prio_y nth_list_update)
  qed (simp add: len)
  show "prios (list_add p l) = insert (unat p) (prios l)"
  proof (rule set_eqI)
    fix q
    have "q = unat p \<longleftrightarrow> q div 8 = unat p div 8 \<and> q mod 8 = unat p mod 8" by (metis div_mult_mod_eq)
    then show "q \<in> prios (list_add p l) \<longleftrightarrow> q \<in> insert (unat p) (prios l)"
      using y len assms(2)
      by (auto simp: prios_def list_add_def list_or_def bit_or_mask unat_prio_y unat_prio_x nth_list_update)
  qed
qed

lemma list_ok_remove:
  assumes "list_ok l" "unat p < 32"
  shows "list_ok (list_remove p l)" "prios (list_remove p l) = prios l - {unat p}"
proof -
  have y: "unat p div 8 < 4" using assms(2) by linarith
  have len: "length (snd l) = 4" using assms(1) by (simp add: list_ok_def)
  show "list_ok (list_remove p l)"
    unfolding list_ok_def
  proof (intro conjI allI impI)
    fix y :: nat assume y8: "y < 8"
    show "bit (fst (list_remove p l)) y \<longleftrightarrow> y < 4 \<and> snd (list_remove p l) ! y \<noteq> 0"
      using assms(1) y y8 len
      by (auto simp: list_ok_def list_remove_def list_clear_def Let_def bit_clear_mask unat_prio_y nth_list_update)
  qed (simp add: len list_remove_def list_clear_def Let_def)
  show "prios (list_remove p l) = prios l - {unat p}"
  proof (rule set_eqI)
    fix q
    have "q = unat p \<longleftrightarrow> q div 8 = unat p div 8 \<and> q mod 8 = unat p mod 8" by (metis div_mult_mod_eq)
    then show "q \<in> prios (list_remove p l) \<longleftrightarrow> q \<in> prios l - {unat p}"
      using y len
      by (auto simp: prios_def list_remove_def list_clear_def Let_def bit_clear_mask unat_prio_y unat_prio_x nth_list_update)
  qed
qed

lemma list_group: "list_ok l \<Longrightarrow> fst l = 0 \<longleftrightarrow> prios l = {}"
proof
  assume l: "list_ok l"
  show "prios l = {}" if "fst l = 0"
  proof -
    have "snd l ! y = 0" if "y < 4" for y using l that \<open>fst l = 0\<close> by (auto simp: list_ok_def dest!: spec [of _ y])
    then show ?thesis by (auto simp: prios_def)
  qed
  show "fst l = 0" if "prios l = {}"
  proof (rule ccontr)
    assume "fst l \<noteq> 0"
    then obtain y where y: "bit (fst l) y" using word_ne_0_bit by blast
    then have y8: "y < 8" using bit_imp_le_length by fastforce
    then have y4: "y < 4" "snd l ! y \<noteq> 0" using l y by (auto simp: list_ok_def)
    then obtain x where x: "bit (snd l ! y) x" using word_ne_0_bit by blast
    then have "x < 8" using bit_imp_le_length by fastforce
    then have "8 * y + x \<in> prios l" using x y4 by (simp add: prios_def)
    then show False using that by simp
  qed
qed

lemma list_highest_parts:
  assumes "list_ok l" "prios l \<noteq> {}"
  defines "y \<equiv> unat (OSUnMapTbl ! unat (fst l))"
  defines "x \<equiv> unat (OSUnMapTbl ! unat (snd l ! y))"
  shows "unat (list_highest l) = 8 * y + x" "y < 4" "x < 8" "bit (fst l) y" "bit (snd l ! y) x"
    "bit (fst l) j \<Longrightarrow> y \<le> j" "bit (snd l ! y) j \<Longrightarrow> x \<le> j"
proof -
  have g: "fst l \<noteq> 0" using list_group assms by blast
  have by8: "bit (fst l) y" "y < 8" and ymin: "\<And>j. bit (fst l) j \<Longrightarrow> y \<le> j"
    using OSUnMapTbl_nth [OF g] by (simp_all add: y_def)
  then have y4: "y < 4" and t: "snd l ! y \<noteq> 0" using assms(1) by (auto simp: list_ok_def)
  have bx8: "bit (snd l ! y) x" "x < 8" and xmin: "\<And>j. bit (snd l ! y) j \<Longrightarrow> x \<le> j"
    using OSUnMapTbl_nth [OF t] by (simp_all add: x_def)
  have "unat (push_bit 3 (OSUnMapTbl ! unat (fst l))) = 8 * y"
    using y4 unfolding unsigned_push_bit_eq y_def [symmetric] by (simp add: push_bit_eq_mult take_bit_eq_mod)
  then show "unat (list_highest l) = 8 * y + x"
    using y4 bx8(2) unfolding list_highest_def Let_def y_def [symmetric]
    by (subst unat_add_lem [THEN iffD1]) (simp_all add: x_def [symmetric])
  show "y < 4" "x < 8" "bit (fst l) y" "bit (snd l ! y) x" "bit (fst l) j \<Longrightarrow> y \<le> j" "bit (snd l ! y) j \<Longrightarrow> x \<le> j"
    by (rule y4 bx8(2) by8(1) bx8(1) ymin xmin; assumption?)+
qed

lemma list_highest_y:
  assumes "list_ok l" "prios l \<noteq> {}"
  shows "OSUnMapTbl ! unat (fst l) = prio_y (list_highest l)"
proof (rule unsigned_word_eqI [where ?'a = nat])
  show "unat (OSUnMapTbl ! unat (fst l)) = unat (prio_y (list_highest l))"
    unfolding unat_prio_y list_highest_parts(1) [OF assms] using list_highest_parts(3) [OF assms] by simp
qed

lemma list_highest_least:
  assumes "list_ok l" "prios l \<noteq> {}"
  shows "unat (list_highest l) = Min (prios l)"
proof -
  define y where "y = unat (OSUnMapTbl ! unat (fst l))"
  define x where "x = unat (OSUnMapTbl ! unat (snd l ! y))"
  note parts = list_highest_parts [OF assms, folded y_def, folded x_def]
  note e = parts(1) and y4 = parts(2) and bx8 = parts(5,3) and ymin = parts(6) and xmin = parts(7)
  have m: "8 * y + x \<in> prios l" using bx8 y4 by (simp add: prios_def)
  have least: "8 * y + x \<le> q" if q: "q \<in> prios l" for q
  proof -
    have b: "q < 32" "bit (snd l ! (q div 8)) (q mod 8)" using q by (simp_all add: prios_def)
    then have "q div 8 < 4" "snd l ! (q div 8) \<noteq> 0" using word_ne_0_bit by auto
    then have "bit (fst l) (q div 8)" using assms(1) by (simp add: list_ok_def)
    then have le: "y \<le> q div 8" by (rule ymin)
    show ?thesis
    proof (cases "y = q div 8")
      case True
      then have "x \<le> q mod 8" using xmin b(2) by simp
      moreover have "8 * (q div 8) + q mod 8 = q" by simp
      ultimately show ?thesis using True by linarith
    next
      case False
      moreover have "8 * (q div 8) \<le> q" by simp
      ultimately show ?thesis using le bx8(2) by linarith
    qed
  qed
  have fin: "finite (prios l)" by (rule finite_subset [of _ "{..<32}"]) (auto simp: prios_def)
  show ?thesis unfolding e by (rule Min_eqI [symmetric]) (use fin m least in auto)
qed

section \<open>The interface\<close>

text \<open>What the scheduler and the services use: a finite set of priorities, the least of which is found.\<close>

locale prio_set =
  fixes ok :: "'l \<Rightarrow> bool"
    and elems :: "'l \<Rightarrow> nat set"
    and valid :: "u8 \<Rightarrow> bool"
    and none :: "'l \<Rightarrow> bool"
    and add :: "u8 \<Rightarrow> 'l \<Rightarrow> 'l"
    and remove :: "u8 \<Rightarrow> 'l \<Rightarrow> 'l"
    and highest :: "'l \<Rightarrow> u8"
  assumes finite_elems: "ok l \<Longrightarrow> finite (elems l)"
    and none_elems: "ok l \<Longrightarrow> none l \<longleftrightarrow> elems l = {}"
    and add_elem: "ok l \<Longrightarrow> valid p \<Longrightarrow> ok (add p l) \<and> elems (add p l) = insert (unat p) (elems l)"
    and remove_elem: "ok l \<Longrightarrow> valid p \<Longrightarrow> ok (remove p l) \<and> elems (remove p l) = elems l - {unat p}"
    and highest_elem: "ok l \<Longrightarrow> elems l \<noteq> {} \<Longrightarrow> unat (highest l) = Min (elems l) \<and> valid (highest l)"
begin

lemma highest_in: "ok l \<Longrightarrow> elems l \<noteq> {} \<Longrightarrow> unat (highest l) \<in> elems l"
  using highest_elem finite_elems by simp

lemma highest_le: "ok l \<Longrightarrow> q \<in> elems l \<Longrightarrow> unat (highest l) \<le> q"
  using highest_elem [of l] finite_elems [of l] Min_le [of "elems l" q] by force

text \<open>Taking the highest priority until none is left.\<close>

fun drain :: "nat \<Rightarrow> 'l \<Rightarrow> u8 list" where
  "drain 0 l = []"
| "drain (Suc n) l = (if none l then [] else highest l # drain n (remove (highest l) l))"

text \<open>Each priority of the list is taken once, the highest (least) first.\<close>

lemma drain_sorted: "ok l \<Longrightarrow> card (elems l) \<le> n \<Longrightarrow> map unat (drain n l) = sorted_list_of_set (elems l)"
proof (induction n arbitrary: l)
  case 0
  then show ?case using finite_elems by simp
next
  case (Suc n)
  show ?case
  proof (cases "elems l = {}")
    case True
    then show ?thesis using none_elems Suc.prems by simp
  next
    case False
    let ?r = "remove (highest l) l"
    have m: "unat (highest l) = Min (elems l)" "valid (highest l)" using highest_elem Suc.prems False by blast+
    have r: "ok ?r" "elems ?r = elems l - {Min (elems l)}" using remove_elem [OF Suc.prems(1) m(2)] m(1) by simp_all
    have fin: "finite (elems l)" using finite_elems Suc.prems by blast
    have "card (elems ?r) \<le> n" using r(2) fin False Suc.prems by simp
    then have "map unat (drain n ?r) = sorted_list_of_set (elems l - {Min (elems l)})" using Suc.IH r by metis
    then show ?thesis using none_elems Suc.prems False m(1) sorted_list_of_set_nonempty [OF fin False] by simp
  qed
qed

end

interpretation plist: prio_set list_ok prios "\<lambda>p. unat p < 32" "\<lambda>l. fst l = 0" list_add list_remove list_highest
proof
  show "finite (prios l)" if "list_ok l" for l
    by (rule finite_subset [of _ "{..<32}"]) (auto simp: prios_def)
  show "unat (list_highest l) = Min (prios l) \<and> unat (list_highest l) < 32" if "list_ok l" "prios l \<noteq> {}" for l
  proof -
    have fin: "finite (prios l)" by (rule finite_subset [of _ "{..<32}"]) (auto simp: prios_def)
    have "Min (prios l) \<in> prios l" using fin that(2) by (rule Min_in)
    then have "Min (prios l) < 32" by (simp add: prios_def)
    then show ?thesis using list_highest_least [OF that] by simp
  qed
qed (simp_all add: list_group list_ok_add list_ok_remove)

end
