(* ===== verification/Os_Kernel.thy ===== *)
theory Os_Kernel
  imports Os_Ready Os_Queue
begin

text \<open>
  The kernel, \<^verbatim>\<open>UCOSII/Source/os_core.c\<close>, \<^verbatim>\<open>os_time.c\<close> and \<^verbatim>\<open>os_task.c\<close> as
  \<^verbatim>\<open>os_cfg.h\<close> configures them: task control blocks, events, the scheduler, the tick and
  the services that delay, suspend and resume a task.  A task control block or an event is named
  by its index in \<^verbatim>\<open>OSTCBTbl\<close> or \<^verbatim>\<open>OSEventTbl\<close>; the chain of the task control blocks is
  the list of its elements in order.  A service runs in a critical section, so it is one
  function of the state; the context switch that it asks for is taken when the section is left.
  The stacks, the names and the hooks of the port are not part of the state.
\<close>

section \<open>Configuration and codes\<close>

abbreviation OS_LOWEST_PRIO :: u8 where "OS_LOWEST_PRIO \<equiv> 25"
abbreviation OS_TASK_IDLE_PRIO :: u8 where "OS_TASK_IDLE_PRIO \<equiv> OS_LOWEST_PRIO"
abbreviation OS_TASK_STAT_PRIO :: u8 where "OS_TASK_STAT_PRIO \<equiv> 24"
abbreviation OS_PRIO_SELF :: u8 where "OS_PRIO_SELF \<equiv> 0xFF"
abbreviation OS_TICKS_PER_SEC :: u32 where "OS_TICKS_PER_SEC \<equiv> 50"
abbreviation OS_MAX_EVENTS :: nat where "OS_MAX_EVENTS \<equiv> 63"
abbreviation OS_MAX_QS :: nat where "OS_MAX_QS \<equiv> 10"
abbreviation OS_MAX_TCBS :: nat where "OS_MAX_TCBS \<equiv> 22"

abbreviation OS_STAT_RDY :: u8 where "OS_STAT_RDY \<equiv> 0"
abbreviation OS_STAT_Q :: u8 where "OS_STAT_Q \<equiv> 4"
abbreviation OS_STAT_SEM :: u8 where "OS_STAT_SEM \<equiv> 1"
abbreviation OS_STAT_SUSPEND :: u8 where "OS_STAT_SUSPEND \<equiv> 8"
abbreviation OS_STAT_MUTEX :: u8 where "OS_STAT_MUTEX \<equiv> 0x10"
abbreviation OS_STAT_PEND_ANY :: u8 where "OS_STAT_PEND_ANY \<equiv> 0x37"
abbreviation OS_STAT_PEND_OK :: u8 where "OS_STAT_PEND_OK \<equiv> 0"
abbreviation OS_STAT_PEND_TO :: u8 where "OS_STAT_PEND_TO \<equiv> 1"
abbreviation OS_STAT_PEND_ABORT :: u8 where "OS_STAT_PEND_ABORT \<equiv> 2"

abbreviation OS_EVENT_TYPE_UNUSED :: u8 where "OS_EVENT_TYPE_UNUSED \<equiv> 0"
abbreviation OS_EVENT_TYPE_Q :: u8 where "OS_EVENT_TYPE_Q \<equiv> 2"
abbreviation OS_EVENT_TYPE_SEM :: u8 where "OS_EVENT_TYPE_SEM \<equiv> 3"
abbreviation OS_EVENT_TYPE_MUTEX :: u8 where "OS_EVENT_TYPE_MUTEX \<equiv> 4"

abbreviation OS_TICK_STEP_DIS :: u8 where "OS_TICK_STEP_DIS \<equiv> 0"
abbreviation OS_TICK_STEP_WAIT :: u8 where "OS_TICK_STEP_WAIT \<equiv> 1"
abbreviation OS_TICK_STEP_ONCE :: u8 where "OS_TICK_STEP_ONCE \<equiv> 2"

abbreviation OS_ERR_NONE :: u8 where "OS_ERR_NONE \<equiv> 0"
abbreviation OS_ERR_EVENT_TYPE :: u8 where "OS_ERR_EVENT_TYPE \<equiv> 1"
abbreviation OS_ERR_PEND_ISR :: u8 where "OS_ERR_PEND_ISR \<equiv> 2"
abbreviation OS_ERR_PEVENT_NULL :: u8 where "OS_ERR_PEVENT_NULL \<equiv> 4"
abbreviation OS_ERR_POST_ISR :: u8 where "OS_ERR_POST_ISR \<equiv> 5"
abbreviation OS_ERR_TIMEOUT :: u8 where "OS_ERR_TIMEOUT \<equiv> 10"
abbreviation OS_ERR_PEND_LOCKED :: u8 where "OS_ERR_PEND_LOCKED \<equiv> 13"
abbreviation OS_ERR_PEND_ABORT :: u8 where "OS_ERR_PEND_ABORT \<equiv> 14"
abbreviation OS_ERR_CREATE_ISR :: u8 where "OS_ERR_CREATE_ISR \<equiv> 16"
abbreviation OS_ERR_Q_FULL :: u8 where "OS_ERR_Q_FULL \<equiv> 30"
abbreviation OS_ERR_PRIO_EXIST :: u8 where "OS_ERR_PRIO_EXIST \<equiv> 40"
abbreviation OS_ERR_PRIO_INVALID :: u8 where "OS_ERR_PRIO_INVALID \<equiv> 42"
abbreviation OS_ERR_SEM_OVF :: u8 where "OS_ERR_SEM_OVF \<equiv> 50"
abbreviation OS_ERR_TASK_CREATE_ISR :: u8 where "OS_ERR_TASK_CREATE_ISR \<equiv> 60"
abbreviation OS_ERR_TASK_NO_MORE_TCB :: u8 where "OS_ERR_TASK_NO_MORE_TCB \<equiv> 66"
abbreviation OS_ERR_TASK_NOT_EXIST :: u8 where "OS_ERR_TASK_NOT_EXIST \<equiv> 67"
abbreviation OS_ERR_TASK_NOT_SUSPENDED :: u8 where "OS_ERR_TASK_NOT_SUSPENDED \<equiv> 68"
abbreviation OS_ERR_TASK_RESUME_PRIO :: u8 where "OS_ERR_TASK_RESUME_PRIO \<equiv> 70"
abbreviation OS_ERR_TASK_SUSPEND_IDLE :: u8 where "OS_ERR_TASK_SUSPEND_IDLE \<equiv> 71"
abbreviation OS_ERR_TASK_SUSPEND_PRIO :: u8 where "OS_ERR_TASK_SUSPEND_PRIO \<equiv> 72"
abbreviation OS_ERR_TASK_WAITING :: u8 where "OS_ERR_TASK_WAITING \<equiv> 73"
abbreviation OS_ERR_TIME_NOT_DLY :: u8 where "OS_ERR_TIME_NOT_DLY \<equiv> 80"
abbreviation OS_ERR_TIME_INVALID_MINUTES :: u8 where "OS_ERR_TIME_INVALID_MINUTES \<equiv> 81"
abbreviation OS_ERR_TIME_INVALID_SECONDS :: u8 where "OS_ERR_TIME_INVALID_SECONDS \<equiv> 82"
abbreviation OS_ERR_TIME_INVALID_MS :: u8 where "OS_ERR_TIME_INVALID_MS \<equiv> 83"
abbreviation OS_ERR_TIME_ZERO_DLY :: u8 where "OS_ERR_TIME_ZERO_DLY \<equiv> 84"
abbreviation OS_ERR_TIME_DLY_ISR :: u8 where "OS_ERR_TIME_DLY_ISR \<equiv> 85"
abbreviation OS_ERR_NOT_MUTEX_OWNER :: u8 where "OS_ERR_NOT_MUTEX_OWNER \<equiv> 100"
abbreviation OS_ERR_PIP_LOWER :: u8 where "OS_ERR_PIP_LOWER \<equiv> 120"

section \<open>State\<close>

text \<open>An entry of \<^verbatim>\<open>OSTCBPrioTbl\<close>: null, \<^verbatim>\<open>OS_TCB_RESERVED\<close> or a task control block.\<close>

datatype tcb_ptr = NoTcb | Reserved | Tcb nat

text \<open>
  \<^verbatim>\<open>OSEventPtr\<close>: null, the next free event, the owner of a mutex, or the control block of a
  queue, which belongs to the event that took it off \<^verbatim>\<open>OSQFreeList\<close>.
\<close>

datatype event_ptr = NullPtr | EventPtr nat | OwnerPtr nat | QueuePtr "u32 OS_Q"

record OS_TCB =
  OSTCBEventPtr :: "nat option"
  OSTCBMsg :: u32
  OSTCBDly :: u32
  OSTCBStat :: u8
  OSTCBStatPend :: u8
  OSTCBPrio :: u8
  OSTCBX :: u8
  OSTCBY :: u8
  OSTCBBitX :: u8
  OSTCBBitY :: u8
  OSTCBCtxSwCtr :: u32

text \<open>\<open>OSEventList\<close> is \<^verbatim>\<open>OSEventGrp\<close> with \<^verbatim>\<open>OSEventTbl\<close>.\<close>

record OS_EVENT =
  OSEventType :: u8
  OSEventPtr :: event_ptr
  OSEventCnt :: u16
  OSEventList :: prio_list

text \<open>
  The globals.  \<open>OSRdy\<close> is \<^verbatim>\<open>OSRdyGrp\<close> with \<^verbatim>\<open>OSRdyTbl\<close>; \<open>OSTCBs\<close> and \<open>OSEvents\<close> are
  the arrays \<^verbatim>\<open>OSTCBTbl\<close> and \<^verbatim>\<open>OSEventTbl\<close>; \<open>OSQFree\<close> counts the blocks on \<^verbatim>\<open>OSQFreeList\<close>.
\<close>

record kernel =
  OSTime :: u32
  OSIntNesting :: u8
  OSLockNesting :: u8
  OSTaskCtr :: u8
  OSRunning :: bool
  OSTickStepState :: u8
  OSCtxSwCtr :: u32
  OSRdy :: prio_list
  OSPrioCur :: u8
  OSPrioHighRdy :: u8
  OSTCBCur :: tcb_ptr
  OSTCBHighRdy :: tcb_ptr
  OSTCBPrioTbl :: "u8 \<Rightarrow> tcb_ptr"
  OSTCBs :: "nat \<Rightarrow> OS_TCB"
  OSTCBList :: "nat list"
  OSTCBFreeList :: "nat list"
  OSEvents :: "nat \<Rightarrow> OS_EVENT"
  OSEventFreeList :: event_ptr
  OSQFree :: nat

text \<open>
  Following a pointer.  The kernel follows only pointers that it has compared with null and
  \<^verbatim>\<open>OS_TCB_RESERVED\<close>, or that its tables keep valid; index 0 stands for the others.
\<close>

fun tcb_index :: "tcb_ptr \<Rightarrow> nat" where
  "tcb_index (Tcb i) = i"
| "tcb_index _ = 0"

fun owner_index :: "event_ptr \<Rightarrow> nat" where
  "owner_index (OwnerPtr i) = i"
| "owner_index _ = 0"

fun owner_tcb :: "event_ptr \<Rightarrow> tcb_ptr" where
  "owner_tcb (OwnerPtr i) = Tcb i"
| "owner_tcb _ = NoTcb"

fun tcb_owner :: "tcb_ptr \<Rightarrow> event_ptr" where
  "tcb_owner (Tcb i) = OwnerPtr i"
| "tcb_owner _ = NullPtr"

abbreviation cur :: "kernel \<Rightarrow> nat" where
  "cur k \<equiv> tcb_index (OSTCBCur k)"

abbreviation tcb :: "kernel \<Rightarrow> nat \<Rightarrow> OS_TCB" where
  "tcb k i \<equiv> OSTCBs k i"

definition set_tcb :: "nat \<Rightarrow> OS_TCB \<Rightarrow> kernel \<Rightarrow> kernel" where
  "set_tcb i t k = k\<lparr>OSTCBs := (OSTCBs k)(i := t)\<rparr>"

definition set_event :: "nat \<Rightarrow> OS_EVENT \<Rightarrow> kernel \<Rightarrow> kernel" where
  "set_event e v k = k\<lparr>OSEvents := (OSEvents k)(e := v)\<rparr>"

section \<open>Ready list and scheduler\<close>

text \<open>A task enters the ready list or leaves it with the masks of its control block.\<close>

definition make_ready :: "nat \<Rightarrow> kernel \<Rightarrow> kernel" where
  "make_ready i k = k\<lparr>OSRdy := list_or (OSTCBY (tcb k i)) (OSTCBBitX (tcb k i)) (OSTCBBitY (tcb k i)) (OSRdy k)\<rparr>"

definition make_unready :: "nat \<Rightarrow> kernel \<Rightarrow> kernel" where
  "make_unready i k = k\<lparr>OSRdy := list_clear (OSTCBY (tcb k i)) (OSTCBBitX (tcb k i)) (OSTCBBitY (tcb k i)) (OSRdy k)\<rparr>"

definition OS_SchedNew :: "kernel \<Rightarrow> kernel" where
  "OS_SchedNew k =
     (let y = OSUnMapTbl ! unat (fst (OSRdy k))
      in k\<lparr>OSPrioHighRdy := push_bit 3 y + OSUnMapTbl ! unat (snd (OSRdy k) ! unat y)\<rparr>)"

text \<open>The exception that the port raises for a switch: the task that was found becomes the current one.\<close>

definition OS_CPU_PendSVHandler :: "kernel \<Rightarrow> kernel" where
  "OS_CPU_PendSVHandler k = k\<lparr>OSPrioCur := OSPrioHighRdy k, OSTCBCur := OSTCBHighRdy k\<rparr>"

definition switch_to_highest :: "kernel \<Rightarrow> kernel" where
  "switch_to_highest k =
     (let k = OS_SchedNew k;
          k = k\<lparr>OSTCBHighRdy := OSTCBPrioTbl k (OSPrioHighRdy k)\<rparr>
      in if OSPrioHighRdy k \<noteq> OSPrioCur k
         then let i = tcb_index (OSTCBHighRdy k);
                  k = set_tcb i ((tcb k i)\<lparr>OSTCBCtxSwCtr := OSTCBCtxSwCtr (tcb k i) + 1\<rparr>) k
              in OS_CPU_PendSVHandler (k\<lparr>OSCtxSwCtr := OSCtxSwCtr k + 1\<rparr>)
         else k)"

definition OS_Sched :: "kernel \<Rightarrow> kernel" where
  "OS_Sched k = (if OSIntNesting k = 0 then if OSLockNesting k = 0 then switch_to_highest k else k else k)"

definition OSIntEnter :: "kernel \<Rightarrow> kernel" where
  "OSIntEnter k = (if OSRunning k then if OSIntNesting k < 255 then k\<lparr>OSIntNesting := OSIntNesting k + 1\<rparr> else k else k)"

definition OSIntExit :: "kernel \<Rightarrow> kernel" where
  "OSIntExit k =
     (if OSRunning k
      then let k = (if 0 < OSIntNesting k then k\<lparr>OSIntNesting := OSIntNesting k - 1\<rparr> else k)
           in if OSIntNesting k = 0 then if OSLockNesting k = 0 then switch_to_highest k else k else k
      else k)"

definition OSSchedLock :: "kernel \<Rightarrow> kernel" where
  "OSSchedLock k =
     (if OSRunning k
      then if OSIntNesting k = 0
           then if OSLockNesting k < 255 then k\<lparr>OSLockNesting := OSLockNesting k + 1\<rparr> else k
           else k
      else k)"

definition OSSchedUnlock :: "kernel \<Rightarrow> kernel" where
  "OSSchedUnlock k =
     (if OSRunning k
      then if 0 < OSLockNesting k
           then let k = k\<lparr>OSLockNesting := OSLockNesting k - 1\<rparr>
                in if OSLockNesting k = 0 then if OSIntNesting k = 0 then OS_Sched k else k else k
           else k
      else k)"

text \<open>\<^verbatim>\<open>OSStartHighRdy\<close> of the port sets \<^verbatim>\<open>OSRunning\<close> and raises the exception.\<close>

definition OSStartHighRdy :: "kernel \<Rightarrow> kernel" where
  "OSStartHighRdy k = OS_CPU_PendSVHandler (k\<lparr>OSRunning := True\<rparr>)"

definition OSStart :: "kernel \<Rightarrow> kernel" where
  "OSStart k =
     (if \<not> OSRunning k
      then let k = OS_SchedNew k;
               k = k\<lparr>OSPrioCur := OSPrioHighRdy k\<rparr>;
               k = k\<lparr>OSTCBHighRdy := OSTCBPrioTbl k (OSPrioHighRdy k)\<rparr>;
               k = k\<lparr>OSTCBCur := OSTCBHighRdy k\<rparr>
           in OSStartHighRdy k
      else k)"

section \<open>Time\<close>

text \<open>The end of a delay or of a time-out, the same in \<^verbatim>\<open>OSTimeTick\<close> and \<^verbatim>\<open>OSTimeDlyResume\<close>.\<close>

definition end_delay :: "OS_TCB \<Rightarrow> OS_TCB" where
  "end_delay t =
     (if OSTCBStat t AND OS_STAT_PEND_ANY \<noteq> OS_STAT_RDY
      then t\<lparr>OSTCBStat := OSTCBStat t AND NOT OS_STAT_PEND_ANY, OSTCBStatPend := OS_STAT_PEND_TO\<rparr>
      else t\<lparr>OSTCBStatPend := OS_STAT_PEND_OK\<rparr>)"

text \<open>The body of the loop of \<^verbatim>\<open>OSTimeTick\<close> for one task, and the loop up to the idle task.\<close>

definition tick_task :: "nat \<Rightarrow> kernel \<Rightarrow> kernel" where
  "tick_task i k =
     (let t = tcb k i
      in if OSTCBDly t \<noteq> 0
         then let t = t\<lparr>OSTCBDly := OSTCBDly t - 1\<rparr>
              in if OSTCBDly t = 0
                 then let t = end_delay t;
                          k = set_tcb i t k
                      in if OSTCBStat t AND OS_STAT_SUSPEND = OS_STAT_RDY then make_ready i k else k
                 else set_tcb i t k
         else k)"

fun tick_tasks :: "nat list \<Rightarrow> kernel \<Rightarrow> kernel" where
  "tick_tasks [] k = k"
| "tick_tasks (i # is) k = (if OSTCBPrio (tcb k i) \<noteq> OS_TASK_IDLE_PRIO then tick_tasks is (tick_task i k) else k)"

definition OSTimeTick :: "kernel \<Rightarrow> kernel" where
  "OSTimeTick k =
     (let k = k\<lparr>OSTime := OSTime k + 1\<rparr>
      in if OSRunning k
         then let (step, state) =
                    (if OSTickStepState k = OS_TICK_STEP_DIS then (True, OSTickStepState k)
                     else if OSTickStepState k = OS_TICK_STEP_WAIT then (False, OSTickStepState k)
                     else if OSTickStepState k = OS_TICK_STEP_ONCE then (True, OS_TICK_STEP_WAIT)
                     else (True, OS_TICK_STEP_DIS));
                  k = k\<lparr>OSTickStepState := state\<rparr>
              in if \<not> step then k else tick_tasks (OSTCBList k) k
         else k)"

definition OSTimeDly :: "u32 \<Rightarrow> kernel \<Rightarrow> kernel" where
  "OSTimeDly ticks k =
     (if 0 < OSIntNesting k then k
      else if 0 < ticks
           then let i = cur k;
                    k = make_unready i k;
                    k = set_tcb i ((tcb k i)\<lparr>OSTCBDly := ticks\<rparr>) k
                in OS_Sched k
           else k)"

definition dly_ticks :: "u8 \<Rightarrow> u8 \<Rightarrow> u8 \<Rightarrow> u16 \<Rightarrow> u32" where
  "dly_ticks hours minutes seconds ms =
     (ucast hours * 3600 + ucast minutes * 60 + ucast seconds) * OS_TICKS_PER_SEC
       + OS_TICKS_PER_SEC * (ucast ms + 500 div OS_TICKS_PER_SEC) div 1000"

definition OSTimeDlyHMSM :: "u8 \<Rightarrow> u8 \<Rightarrow> u8 \<Rightarrow> u16 \<Rightarrow> kernel \<Rightarrow> u8 \<times> kernel" where
  "OSTimeDlyHMSM hours minutes seconds ms k =
     (if 0 < OSIntNesting k then (OS_ERR_TIME_DLY_ISR, k)
      else if hours = 0 \<and> minutes = 0 \<and> seconds = 0 \<and> ms = 0 then (OS_ERR_TIME_ZERO_DLY, k)
      else if 59 < minutes then (OS_ERR_TIME_INVALID_MINUTES, k)
      else if 59 < seconds then (OS_ERR_TIME_INVALID_SECONDS, k)
      else if 999 < ms then (OS_ERR_TIME_INVALID_MS, k)
      else (OS_ERR_NONE, OSTimeDly (dly_ticks hours minutes seconds ms) k))"

definition OSTimeDlyResume :: "u8 \<Rightarrow> kernel \<Rightarrow> u8 \<times> kernel" where
  "OSTimeDlyResume prio k =
     (if OS_LOWEST_PRIO \<le> prio then (OS_ERR_PRIO_INVALID, k)
      else if OSTCBPrioTbl k prio = NoTcb then (OS_ERR_TASK_NOT_EXIST, k)
      else if OSTCBPrioTbl k prio = Reserved then (OS_ERR_TASK_NOT_EXIST, k)
      else let i = tcb_index (OSTCBPrioTbl k prio); t = tcb k i
           in if OSTCBDly t = 0 then (OS_ERR_TIME_NOT_DLY, k)
              else let t = end_delay (t\<lparr>OSTCBDly := 0\<rparr>);
                       k = set_tcb i t k
                   in (OS_ERR_NONE, if OSTCBStat t AND OS_STAT_SUSPEND = OS_STAT_RDY then OS_Sched (make_ready i k) else k))"

definition OSTimeGet :: "kernel \<Rightarrow> u32" where
  "OSTimeGet k = OSTime k"

definition OSTimeSet :: "u32 \<Rightarrow> kernel \<Rightarrow> kernel" where
  "OSTimeSet ticks k = k\<lparr>OSTime := ticks\<rparr>"

section \<open>Tasks\<close>

definition OSTaskSuspend :: "u8 \<Rightarrow> kernel \<Rightarrow> u8 \<times> kernel" where
  "OSTaskSuspend prio k =
     (if prio = OS_TASK_IDLE_PRIO then (OS_ERR_TASK_SUSPEND_IDLE, k)
      else if OS_LOWEST_PRIO \<le> prio \<and> prio \<noteq> OS_PRIO_SELF then (OS_ERR_PRIO_INVALID, k)
      else let self = (prio = OS_PRIO_SELF \<or> prio = OSTCBPrio (tcb k (cur k)));
               prio = (if prio = OS_PRIO_SELF then OSTCBPrio (tcb k (cur k)) else prio)
           in if OSTCBPrioTbl k prio = NoTcb then (OS_ERR_TASK_SUSPEND_PRIO, k)
              else if OSTCBPrioTbl k prio = Reserved then (OS_ERR_TASK_NOT_EXIST, k)
              else let i = tcb_index (OSTCBPrioTbl k prio);
                       k = make_unready i k;
                       k = set_tcb i ((tcb k i)\<lparr>OSTCBStat := OSTCBStat (tcb k i) OR OS_STAT_SUSPEND\<rparr>) k
                   in (OS_ERR_NONE, if self then OS_Sched k else k))"

definition OSTaskResume :: "u8 \<Rightarrow> kernel \<Rightarrow> u8 \<times> kernel" where
  "OSTaskResume prio k =
     (if OS_LOWEST_PRIO \<le> prio then (OS_ERR_PRIO_INVALID, k)
      else if OSTCBPrioTbl k prio = NoTcb then (OS_ERR_TASK_RESUME_PRIO, k)
      else if OSTCBPrioTbl k prio = Reserved then (OS_ERR_TASK_NOT_EXIST, k)
      else let i = tcb_index (OSTCBPrioTbl k prio); t = tcb k i
           in if OSTCBStat t AND OS_STAT_SUSPEND \<noteq> OS_STAT_RDY
              then let t = t\<lparr>OSTCBStat := OSTCBStat t AND NOT OS_STAT_SUSPEND\<rparr>;
                       k = set_tcb i t k
                   in (OS_ERR_NONE,
                       if OSTCBStat t = OS_STAT_RDY
                       then if OSTCBDly t = 0
                            then let k = make_ready i k in if OSRunning k then OS_Sched k else k
                            else k
                       else k)
              else (OS_ERR_TASK_NOT_SUSPENDED, k))"

definition OS_TCBInit :: "u8 \<Rightarrow> kernel \<Rightarrow> u8 \<times> kernel" where
  "OS_TCBInit prio k =
     (case OSTCBFreeList k of
        [] \<Rightarrow> (OS_ERR_TASK_NO_MORE_TCB, k)
      | i # free \<Rightarrow>
          (let y = drop_bit 3 prio; x = prio AND 7;
               t = \<lparr>OSTCBEventPtr = None, OSTCBMsg = 0, OSTCBDly = 0, OSTCBStat = OS_STAT_RDY,
                    OSTCBStatPend = OS_STAT_PEND_OK, OSTCBPrio = prio, OSTCBX = x, OSTCBY = y,
                    OSTCBBitX = push_bit (unat x) 1, OSTCBBitY = push_bit (unat y) 1, OSTCBCtxSwCtr = 0\<rparr>;
               k = set_tcb i t (k\<lparr>OSTCBFreeList := free\<rparr>);
               k = k\<lparr>OSTCBPrioTbl := (OSTCBPrioTbl k)(prio := Tcb i), OSTCBList := i # OSTCBList k\<rparr>;
               k = make_ready i k
           in (OS_ERR_NONE, k\<lparr>OSTaskCtr := OSTaskCtr k + 1\<rparr>)))"

definition OSTaskCreate :: "u8 \<Rightarrow> kernel \<Rightarrow> u8 \<times> kernel" where
  "OSTaskCreate prio k =
     (if OS_LOWEST_PRIO < prio then (OS_ERR_PRIO_INVALID, k)
      else if 0 < OSIntNesting k then (OS_ERR_TASK_CREATE_ISR, k)
      else if OSTCBPrioTbl k prio = NoTcb
           then let (err, k) = OS_TCBInit prio (k\<lparr>OSTCBPrioTbl := (OSTCBPrioTbl k)(prio := Reserved)\<rparr>)
                in if err = OS_ERR_NONE then (err, if OSRunning k then OS_Sched k else k)
                   else (err, k\<lparr>OSTCBPrioTbl := (OSTCBPrioTbl k)(prio := NoTcb)\<rparr>)
           else (OS_ERR_PRIO_EXIST, k))"

section \<open>Waiting for an event\<close>

definition OS_EventWaitListInit :: "OS_EVENT \<Rightarrow> OS_EVENT" where
  "OS_EventWaitListInit v = v\<lparr>OSEventList := list_empty\<rparr>"

definition OS_EventTaskRemove :: "nat \<Rightarrow> nat \<Rightarrow> kernel \<Rightarrow> kernel" where
  "OS_EventTaskRemove i e k =
     (let t = tcb k i; v = OSEvents k e
      in set_event e (v\<lparr>OSEventList := list_clear (OSTCBY t) (OSTCBBitX t) (OSTCBBitY t) (OSEventList v)\<rparr>) k)"

definition OS_EventTaskWait :: "nat \<Rightarrow> kernel \<Rightarrow> kernel" where
  "OS_EventTaskWait e k =
     (let i = cur k;
          k = set_tcb i ((tcb k i)\<lparr>OSTCBEventPtr := Some e\<rparr>) k;
          t = tcb k i; v = OSEvents k e;
          k = set_event e (v\<lparr>OSEventList := list_or (OSTCBY t) (OSTCBBitX t) (OSTCBBitY t) (OSEventList v)\<rparr>) k
      in make_unready i k)"

definition OS_EventTaskRdy :: "nat \<Rightarrow> u32 \<Rightarrow> u8 \<Rightarrow> u8 \<Rightarrow> kernel \<Rightarrow> u8 \<times> kernel" where
  "OS_EventTaskRdy e pmsg msk pend_stat k =
     (let l = OSEventList (OSEvents k e);
          y = OSUnMapTbl ! unat (fst l);
          x = OSUnMapTbl ! unat (snd l ! unat y);
          prio = push_bit 3 y + x;
          i = tcb_index (OSTCBPrioTbl k prio);
          t = tcb k i;
          t = t\<lparr>OSTCBDly := 0, OSTCBMsg := pmsg, OSTCBStat := OSTCBStat t AND NOT msk, OSTCBStatPend := pend_stat\<rparr>;
          k = set_tcb i t k;
          k = (if OSTCBStat t AND OS_STAT_SUSPEND = OS_STAT_RDY
               then k\<lparr>OSRdy := list_or y (OSTCBBitX t) (OSTCBBitY t) (OSRdy k)\<rparr> else k)
      in (prio, OS_EventTaskRemove i e k))"

section \<open>Initialisation\<close>

definition clear_tcb :: OS_TCB where
  "clear_tcb = \<lparr>OSTCBEventPtr = None, OSTCBMsg = 0, OSTCBDly = 0, OSTCBStat = 0, OSTCBStatPend = 0, OSTCBPrio = 0,
     OSTCBX = 0, OSTCBY = 0, OSTCBBitX = 0, OSTCBBitY = 0, OSTCBCtxSwCtr = 0\<rparr>"

text \<open>The chain of \<^verbatim>\<open>OS_InitEventList\<close> and that of \<^verbatim>\<open>OS_InitTCBList\<close>.\<close>

definition OS_InitEventList :: "nat \<Rightarrow> OS_EVENT" where
  "OS_InitEventList e =
     \<lparr>OSEventType = OS_EVENT_TYPE_UNUSED, OSEventPtr = (if e < OS_MAX_EVENTS - 1 then EventPtr (e + 1) else NullPtr),
      OSEventCnt = 0, OSEventList = list_empty\<rparr>"

definition OS_InitTCBList :: "nat list" where
  "OS_InitTCBList = [0 ..< OS_MAX_TCBS]"

definition OS_InitMisc :: kernel where
  "OS_InitMisc =
     \<lparr>OSTime = 0, OSIntNesting = 0, OSLockNesting = 0, OSTaskCtr = 0, OSRunning = False,
      OSTickStepState = OS_TICK_STEP_DIS, OSCtxSwCtr = 0, OSRdy = list_empty, OSPrioCur = 0, OSPrioHighRdy = 0,
      OSTCBCur = NoTcb, OSTCBHighRdy = NoTcb, OSTCBPrioTbl = (\<lambda>_. NoTcb), OSTCBs = (\<lambda>_. clear_tcb),
      OSTCBList = [], OSTCBFreeList = OS_InitTCBList, OSEvents = OS_InitEventList, OSEventFreeList = EventPtr 0,
      OSQFree = OS_MAX_QS\<rparr>"

text \<open>\<^verbatim>\<open>OSInit\<close> ends with the idle task and the statistics task.\<close>

definition OSInit :: kernel where
  "OSInit = snd (OSTaskCreate OS_TASK_STAT_PRIO (snd (OSTaskCreate OS_TASK_IDLE_PRIO OS_InitMisc)))"

end
