(* ===== verification/Os_Services.thy ===== *)
theory Os_Services
  imports Os_Kernel
begin

text \<open>
  Semaphores, queues and mutexes with the tasks that wait for them, \<^verbatim>\<open>UCOSII/Source/os_sem.c\<close>,
  \<^verbatim>\<open>os_q.c\<close> and \<^verbatim>\<open>os_mutex.c\<close>.  A call that may wait is two functions: the first part ends with
  \<^verbatim>\<open>OS_Sched\<close>, its result \<open>None\<close> says that the caller waits; the second part is what the caller
  runs when it is the current task again.  A null event is \<open>None\<close>; the place for the error code
  (\<^verbatim>\<open>perr\<close>) is always given.
\<close>

section \<open>Semaphores and queues\<close>

definition set_cnt :: "nat \<Rightarrow> u16 \<Rightarrow> kernel \<Rightarrow> kernel" where
  "set_cnt e c k = set_event e ((OSEvents k e)\<lparr>OSEventCnt := c\<rparr>) k"

definition sem_create :: "u16 \<Rightarrow> kernel \<Rightarrow> nat option \<times> kernel" where
  "sem_create cnt k =
     (if 0 < OSIntNesting k then (None, k)
      else case OSEventFreeList k of
        EventPtr e \<Rightarrow>
          (let k = k\<lparr>OSEventFreeList := OSEventPtr (OSEvents k e)\<rparr>;
               v = (OSEvents k e)\<lparr>OSEventType := OS_EVENT_TYPE_SEM, OSEventCnt := cnt, OSEventPtr := NullPtr\<rparr>
           in (Some e, set_event e (OS_EventWaitListInit v) k))
      | _ \<Rightarrow> (None, k))"

definition sem_accept :: "nat option \<Rightarrow> kernel \<Rightarrow> u16 \<times> kernel" where
  "sem_accept pevent k =
     (case pevent of
        None \<Rightarrow> (0, k)
      | Some e \<Rightarrow>
          (if OSEventType (OSEvents k e) \<noteq> OS_EVENT_TYPE_SEM then (0, k)
           else let cnt = OSEventCnt (OSEvents k e)
                in (cnt, if 0 < cnt then set_cnt e (cnt - 1) k else k)))"

text \<open>The current task starts to wait: its status, its time-out and the lists.\<close>

definition wait_for :: "nat \<Rightarrow> u8 \<Rightarrow> u32 \<Rightarrow> kernel \<Rightarrow> kernel" where
  "wait_for e stat timeout k =
     (let i = cur k; t = tcb k i
      in OS_EventTaskWait e
           (set_tcb i (t\<lparr>OSTCBStat := OSTCBStat t OR stat, OSTCBStatPend := OS_STAT_PEND_OK, OSTCBDly := timeout\<rparr>) k))"

definition sem_pend :: "nat option \<Rightarrow> u32 \<Rightarrow> kernel \<Rightarrow> u8 option \<times> kernel" where
  "sem_pend pevent timeout k =
     (case pevent of
        None \<Rightarrow> (Some OS_ERR_PEVENT_NULL, k)
      | Some e \<Rightarrow>
          (if OSEventType (OSEvents k e) \<noteq> OS_EVENT_TYPE_SEM then (Some OS_ERR_EVENT_TYPE, k)
           else if 0 < OSIntNesting k then (Some OS_ERR_PEND_ISR, k)
           else if 0 < OSLockNesting k then (Some OS_ERR_PEND_LOCKED, k)
           else if 0 < OSEventCnt (OSEvents k e)
                then (Some OS_ERR_NONE, set_cnt e (OSEventCnt (OSEvents k e) - 1) k)
                else (None, OS_Sched (wait_for e OS_STAT_SEM timeout k))))"

text \<open>
  \<^verbatim>\<open>OSQCreate\<close>, \<^verbatim>\<open>OSQPost\<close> and \<^verbatim>\<open>OSQPend\<close> of \<^verbatim>\<open>UCOSII/Source/os_q.c\<close> with the waiting tasks;
  the array is that of \<open>Os_Queue\<close>.
\<close>

fun queue_block :: "event_ptr \<Rightarrow> u32 OS_Q" where
  "queue_block (QueuePtr pq) = pq"
| "queue_block _ = OSQCreate []"

definition q_create :: "u32 list \<Rightarrow> kernel \<Rightarrow> nat option \<times> kernel" where
  "q_create start k =
     (if 0 < OSIntNesting k then (None, k)
      else case OSEventFreeList k of
        EventPtr e \<Rightarrow>
          (let k = k\<lparr>OSEventFreeList := OSEventPtr (OSEvents k e)\<rparr>; v = OSEvents k e
           in if 0 < OSQFree k
              then (Some e, set_event e (OS_EventWaitListInit
                      (v\<lparr>OSEventType := OS_EVENT_TYPE_Q, OSEventCnt := 0, OSEventPtr := QueuePtr (OSQCreate start)\<rparr>))
                      (k\<lparr>OSQFree := OSQFree k - 1\<rparr>))
              else (None, (set_event e (v\<lparr>OSEventPtr := OSEventFreeList k\<rparr>) k)\<lparr>OSEventFreeList := EventPtr e\<rparr>))
      | _ \<Rightarrow> (None, k))"

definition q_post :: "nat option \<Rightarrow> u32 \<Rightarrow> kernel \<Rightarrow> u8 \<times> kernel" where
  "q_post pevent pmsg k =
     (case pevent of
        None \<Rightarrow> (OS_ERR_PEVENT_NULL, k)
      | Some e \<Rightarrow>
          (let v = OSEvents k e
           in if OSEventType v \<noteq> OS_EVENT_TYPE_Q then (OS_ERR_EVENT_TYPE, k)
              else if fst (OSEventList v) \<noteq> 0
                   then (OS_ERR_NONE, OS_Sched (snd (OS_EventTaskRdy e pmsg OS_STAT_Q OS_STAT_PEND_OK k)))
                   else case OSQPost (queue_block (OSEventPtr v)) pmsg of
                          (True, pq) \<Rightarrow> (OS_ERR_NONE, set_event e (v\<lparr>OSEventPtr := QueuePtr pq\<rparr>) k)
                        | (False, pq) \<Rightarrow> (OS_ERR_Q_FULL, k)))"

definition q_pend :: "nat option \<Rightarrow> u32 \<Rightarrow> kernel \<Rightarrow> (u32 \<times> u8) option \<times> kernel" where
  "q_pend pevent timeout k =
     (case pevent of
        None \<Rightarrow> (Some (0, OS_ERR_PEVENT_NULL), k)
      | Some e \<Rightarrow>
          (let v = OSEvents k e
           in if OSEventType v \<noteq> OS_EVENT_TYPE_Q then (Some (0, OS_ERR_EVENT_TYPE), k)
              else if 0 < OSIntNesting k then (Some (0, OS_ERR_PEND_ISR), k)
              else if 0 < OSLockNesting k then (Some (0, OS_ERR_PEND_LOCKED), k)
              else case OSQPend (queue_block (OSEventPtr v)) of
                     Some (pmsg, pq) \<Rightarrow> (Some (pmsg, OS_ERR_NONE), set_event e (v\<lparr>OSEventPtr := QueuePtr pq\<rparr>) k)
                   | None \<Rightarrow> (None, OS_Sched (wait_for e OS_STAT_Q timeout k))))"

text \<open>The end of a call that waited, the same in \<^verbatim>\<open>OSSemPend\<close> and \<^verbatim>\<open>OSMutexPend\<close>.\<close>

definition pend_end :: "nat \<Rightarrow> kernel \<Rightarrow> u8 \<times> kernel" where
  "pend_end e k =
     (let i = cur k;
          (err, k) = (if OSTCBStatPend (tcb k i) = OS_STAT_PEND_OK then (OS_ERR_NONE, k)
                      else if OSTCBStatPend (tcb k i) = OS_STAT_PEND_ABORT then (OS_ERR_PEND_ABORT, k)
                      else (OS_ERR_TIMEOUT, OS_EventTaskRemove i e k))
      in (err, set_tcb i ((tcb k i)\<lparr>OSTCBStat := OS_STAT_RDY, OSTCBStatPend := OS_STAT_PEND_OK, OSTCBEventPtr := None\<rparr>) k))"

definition q_pend_end :: "nat \<Rightarrow> kernel \<Rightarrow> (u32 \<times> u8) \<times> kernel" where
  "q_pend_end e k =
     (let i = cur k;
          (pmsg, err, k) = (if OSTCBStatPend (tcb k i) = OS_STAT_PEND_OK then (OSTCBMsg (tcb k i), OS_ERR_NONE, k)
                            else if OSTCBStatPend (tcb k i) = OS_STAT_PEND_ABORT then (0, OS_ERR_PEND_ABORT, k)
                            else (0, OS_ERR_TIMEOUT, OS_EventTaskRemove i e k))
      in ((pmsg, err), set_tcb i ((tcb k i)\<lparr>OSTCBStat := OS_STAT_RDY, OSTCBStatPend := OS_STAT_PEND_OK,
                                    OSTCBEventPtr := None, OSTCBMsg := 0\<rparr>) k))"

text \<open>
  The loop of \<^verbatim>\<open>OS_PEND_OPT_BROADCAST\<close>.  Each round takes a task off a list of at most 26, so 32
  rounds are enough.
\<close>

fun wake_all :: "nat \<Rightarrow> nat \<Rightarrow> u8 \<Rightarrow> u8 \<Rightarrow> kernel \<Rightarrow> u8 list \<times> kernel" where
  "wake_all 0 e msk st k = ([], k)"
| "wake_all (Suc n) e msk st k =
     (if fst (OSEventList (OSEvents k e)) \<noteq> 0
      then let (prio, k) = OS_EventTaskRdy e 0 msk st k; (ps, k) = wake_all n e msk st k in (prio # ps, k)
      else ([], k))"

text \<open>The result also lists the tasks that were readied, of which the code returns the number.\<close>

definition sem_pend_abort :: "nat option \<Rightarrow> bool \<Rightarrow> kernel \<Rightarrow> u8 \<times> u8 list \<times> kernel" where
  "sem_pend_abort pevent broadcast k =
     (case pevent of
        None \<Rightarrow> (OS_ERR_PEVENT_NULL, [], k)
      | Some e \<Rightarrow>
          (if OSEventType (OSEvents k e) \<noteq> OS_EVENT_TYPE_SEM then (OS_ERR_EVENT_TYPE, [], k)
           else if fst (OSEventList (OSEvents k e)) \<noteq> 0
           then let (ps, k) = (if broadcast then wake_all 32 e OS_STAT_SEM OS_STAT_PEND_ABORT k
                               else let (prio, k) = OS_EventTaskRdy e 0 OS_STAT_SEM OS_STAT_PEND_ABORT k in ([prio], k))
                in (OS_ERR_PEND_ABORT, ps, OS_Sched k)
           else (OS_ERR_NONE, [], k)))"

definition sem_post :: "nat option \<Rightarrow> kernel \<Rightarrow> u8 \<times> kernel" where
  "sem_post pevent k =
     (case pevent of
        None \<Rightarrow> (OS_ERR_PEVENT_NULL, k)
      | Some e \<Rightarrow>
          (if OSEventType (OSEvents k e) \<noteq> OS_EVENT_TYPE_SEM then (OS_ERR_EVENT_TYPE, k)
           else if fst (OSEventList (OSEvents k e)) \<noteq> 0
           then (OS_ERR_NONE, OS_Sched (snd (OS_EventTaskRdy e 0 OS_STAT_SEM OS_STAT_PEND_OK k)))
           else if OSEventCnt (OSEvents k e) < 65535
           then (OS_ERR_NONE, set_cnt e (OSEventCnt (OSEvents k e) + 1) k)
           else (OS_ERR_SEM_OVF, k)))"

definition sem_set :: "nat option \<Rightarrow> u16 \<Rightarrow> kernel \<Rightarrow> u8 \<times> kernel" where
  "sem_set pevent cnt k =
     (case pevent of
        None \<Rightarrow> (OS_ERR_PEVENT_NULL, k)
      | Some e \<Rightarrow>
          (if OSEventType (OSEvents k e) \<noteq> OS_EVENT_TYPE_SEM then (OS_ERR_EVENT_TYPE, k)
           else if 0 < OSEventCnt (OSEvents k e) then (OS_ERR_NONE, set_cnt e cnt k)
           else if fst (OSEventList (OSEvents k e)) = 0 then (OS_ERR_NONE, set_cnt e cnt k)
           else (OS_ERR_TASK_WAITING, k)))"

section \<open>Mutexes\<close>

text \<open>
  The count of a mutex holds the inheritance priority in the upper byte and the owner's priority,
  or 255 when it is free, in the lower byte.
\<close>

abbreviation OS_MUTEX_KEEP_LOWER_8 :: u16 where "OS_MUTEX_KEEP_LOWER_8 \<equiv> 0x00FF"
abbreviation OS_MUTEX_KEEP_UPPER_8 :: u16 where "OS_MUTEX_KEEP_UPPER_8 \<equiv> 0xFF00"
abbreviation OS_MUTEX_AVAILABLE :: u16 where "OS_MUTEX_AVAILABLE \<equiv> 0x00FF"

definition mutex_pip :: "OS_EVENT \<Rightarrow> u8" where
  "mutex_pip v = ucast (drop_bit 8 (OSEventCnt v))"

definition mutex_create :: "u8 \<Rightarrow> kernel \<Rightarrow> (u8 \<times> nat option) \<times> kernel" where
  "mutex_create prio k =
     (if OS_LOWEST_PRIO \<le> prio then ((OS_ERR_PRIO_INVALID, None), k)
      else if 0 < OSIntNesting k then ((OS_ERR_CREATE_ISR, None), k)
      else if OSTCBPrioTbl k prio \<noteq> NoTcb then ((OS_ERR_PRIO_EXIST, None), k)
      else let k = k\<lparr>OSTCBPrioTbl := (OSTCBPrioTbl k)(prio := Reserved)\<rparr>
           in case OSEventFreeList k of
                EventPtr e \<Rightarrow>
                  (let k = k\<lparr>OSEventFreeList := OSEventPtr (OSEvents k e)\<rparr>;
                       v = (OSEvents k e)\<lparr>OSEventType := OS_EVENT_TYPE_MUTEX,
                             OSEventCnt := push_bit 8 (ucast prio) OR OS_MUTEX_AVAILABLE, OSEventPtr := NullPtr\<rparr>
                   in ((OS_ERR_NONE, Some e), set_event e (OS_EventWaitListInit v) k))
              | _ \<Rightarrow> ((OS_ERR_PEVENT_NULL, None), k\<lparr>OSTCBPrioTbl := (OSTCBPrioTbl k)(prio := NoTcb)\<rparr>))"

text \<open>The current task takes a free mutex; the code reports a priority that is not below the inheritance priority.\<close>

definition mutex_take :: "nat \<Rightarrow> kernel \<Rightarrow> u8 \<times> kernel" where
  "mutex_take e k =
     (let t = tcb k (cur k); v = OSEvents k e
      in (if OSTCBPrio t \<le> mutex_pip v then OS_ERR_PIP_LOWER else OS_ERR_NONE,
          set_event e (v\<lparr>OSEventCnt := (OSEventCnt v AND OS_MUTEX_KEEP_UPPER_8) OR ucast (OSTCBPrio t),
                         OSEventPtr := tcb_owner (OSTCBCur k)\<rparr>) k))"

definition mutex_accept :: "nat option \<Rightarrow> kernel \<Rightarrow> (bool \<times> u8) \<times> kernel" where
  "mutex_accept pevent k =
     (case pevent of
        None \<Rightarrow> ((False, OS_ERR_PEVENT_NULL), k)
      | Some e \<Rightarrow>
          (if OSEventType (OSEvents k e) \<noteq> OS_EVENT_TYPE_MUTEX then ((False, OS_ERR_EVENT_TYPE), k)
           else if 0 < OSIntNesting k then ((False, OS_ERR_PEND_ISR), k)
           else if OSEventCnt (OSEvents k e) AND OS_MUTEX_KEEP_LOWER_8 = OS_MUTEX_AVAILABLE
           then let (err, k) = mutex_take e k in ((True, err), k)
           else ((False, OS_ERR_NONE), k)))"

text \<open>The owner of a mutex is raised to the inheritance priority, in the ready list or in the list it waits in.\<close>

definition set_prio :: "u8 \<Rightarrow> u8 \<Rightarrow> OS_TCB \<Rightarrow> OS_TCB" where
  "set_prio y prio t =
     t\<lparr>OSTCBPrio := prio, OSTCBY := y, OSTCBX := prio_x prio, OSTCBBitY := bit_of y, OSTCBBitX := bit_of (prio_x prio)\<rparr>"

definition mutex_promote :: "nat \<Rightarrow> u8 \<Rightarrow> kernel \<Rightarrow> kernel" where
  "mutex_promote i pip k =
     (let t = tcb k i;
          rdy = (snd (OSRdy k) ! unat (OSTCBY t) AND OSTCBBitX t \<noteq> 0);
          k = (if rdy then make_unready i k
               else case OSTCBEventPtr t of None \<Rightarrow> k | Some e2 \<Rightarrow> OS_EventTaskRemove i e2 k);
          k = set_tcb i (set_prio (prio_y pip) pip t) k;
          k = (if rdy then make_ready i k
               else case OSTCBEventPtr t of
                      None \<Rightarrow> k
                    | Some e2 \<Rightarrow>
                        (let t = tcb k i; v = OSEvents k e2
                         in set_event e2 (v\<lparr>OSEventList := list_or (OSTCBY t) (OSTCBBitX t) (OSTCBBitY t) (OSEventList v)\<rparr>) k))
      in k\<lparr>OSTCBPrioTbl := (OSTCBPrioTbl k)(pip := Tcb i)\<rparr>)"

definition mutex_pend :: "nat option \<Rightarrow> u32 \<Rightarrow> kernel \<Rightarrow> u8 option \<times> kernel" where
  "mutex_pend pevent timeout k =
     (case pevent of
        None \<Rightarrow> (Some OS_ERR_PEVENT_NULL, k)
      | Some e \<Rightarrow>
          (if OSEventType (OSEvents k e) \<noteq> OS_EVENT_TYPE_MUTEX then (Some OS_ERR_EVENT_TYPE, k)
           else if 0 < OSIntNesting k then (Some OS_ERR_PEND_ISR, k)
           else if 0 < OSLockNesting k then (Some OS_ERR_PEND_LOCKED, k)
           else if OSEventCnt (OSEvents k e) AND OS_MUTEX_KEEP_LOWER_8 = OS_MUTEX_AVAILABLE
           then let (err, k) = mutex_take e k in (Some err, k)
           else let pip = mutex_pip (OSEvents k e);
                    mprio = ucast (OSEventCnt (OSEvents k e) AND OS_MUTEX_KEEP_LOWER_8) :: u8;
                    i = owner_index (OSEventPtr (OSEvents k e));
                    k = (if pip < OSTCBPrio (tcb k i) \<and> OSTCBPrio (tcb k (cur k)) < mprio then mutex_promote i pip k else k)
                in (None, OS_Sched (wait_for e OS_STAT_MUTEX timeout k))))"

definition OSMutex_RdyAtPrio :: "nat \<Rightarrow> u8 \<Rightarrow> kernel \<Rightarrow> kernel" where
  "OSMutex_RdyAtPrio i prio k =
     (let k = make_unready i k;
          k = set_tcb i (set_prio (prio_y prio AND 7) prio (tcb k i)) k;
          k = make_ready i (k\<lparr>OSPrioCur := prio\<rparr>)
      in k\<lparr>OSTCBPrioTbl := (OSTCBPrioTbl k)(prio := Tcb i)\<rparr>)"

definition mutex_post :: "nat option \<Rightarrow> kernel \<Rightarrow> u8 \<times> kernel" where
  "mutex_post pevent k =
     (if 0 < OSIntNesting k then (OS_ERR_POST_ISR, k)
      else case pevent of
        None \<Rightarrow> (OS_ERR_PEVENT_NULL, k)
      | Some e \<Rightarrow>
          (if OSEventType (OSEvents k e) \<noteq> OS_EVENT_TYPE_MUTEX then (OS_ERR_EVENT_TYPE, k)
           else let pip = mutex_pip (OSEvents k e);
                    prio = ucast (OSEventCnt (OSEvents k e) AND OS_MUTEX_KEEP_LOWER_8) :: u8
                in if OSTCBCur k \<noteq> owner_tcb (OSEventPtr (OSEvents k e)) then (OS_ERR_NOT_MUTEX_OWNER, k)
                   else let k = (if OSTCBPrio (tcb k (cur k)) = pip then OSMutex_RdyAtPrio (cur k) prio k else k);
                            k = k\<lparr>OSTCBPrioTbl := (OSTCBPrioTbl k)(pip := Reserved)\<rparr>
                        in if fst (OSEventList (OSEvents k e)) \<noteq> 0
                           then let (prio, k) = OS_EventTaskRdy e 0 OS_STAT_MUTEX OS_STAT_PEND_OK k;
                                    v = OSEvents k e;
                                    k = set_event e (v\<lparr>OSEventCnt := (OSEventCnt v AND OS_MUTEX_KEEP_UPPER_8) OR ucast prio,
                                                       OSEventPtr := tcb_owner (OSTCBPrioTbl k prio)\<rparr>) k
                                in (if prio \<le> pip then OS_ERR_PIP_LOWER else OS_ERR_NONE, OS_Sched k)
                           else let v = OSEvents k e
                                in (OS_ERR_NONE,
                                    set_event e (v\<lparr>OSEventCnt := OSEventCnt v OR OS_MUTEX_AVAILABLE, OSEventPtr := NullPtr\<rparr>) k)))"

end
