(* ===== verification/Os_Invariant.thy ===== *)
theory Os_Invariant
  imports Os_Services
begin

text \<open>
  What the kernel keeps true: the ready list holds exactly the tasks that can run, every waiting
  task is in the list of its event, a semaphore with a count has no waiting task, and a mutex has
  at most one owner.
\<close>

section \<open>The invariant\<close>

abbreviation live :: "kernel \<Rightarrow> nat \<Rightarrow> bool" where
  "live k i \<equiv> i \<in> set (OSTCBList k)"

definition prio_of :: "kernel \<Rightarrow> nat \<Rightarrow> nat" where
  "prio_of k i = unat (OSTCBPrio (tcb k i))"

definition ready :: "kernel \<Rightarrow> nat set" where
  "ready k = prios (OSRdy k)"

definition waiters :: "kernel \<Rightarrow> nat \<Rightarrow> nat set" where
  "waiters k e = prios (OSEventList (OSEvents k e))"

definition ev_type :: "kernel \<Rightarrow> nat \<Rightarrow> u8" where
  "ev_type k e = OSEventType (OSEvents k e)"

definition ev_pip :: "kernel \<Rightarrow> nat \<Rightarrow> u8" where
  "ev_pip k e = mutex_pip (OSEvents k e)"

definition ev_owner :: "kernel \<Rightarrow> nat \<Rightarrow> event_ptr" where
  "ev_owner k e = OSEventPtr (OSEvents k e)"

definition pending :: "OS_TCB \<Rightarrow> bool" where
  "pending t \<longleftrightarrow> OSTCBStat t AND OS_STAT_PEND_ANY \<noteq> 0"

definition runnable :: "OS_TCB \<Rightarrow> bool" where
  "runnable t \<longleftrightarrow> OSTCBStat t = 0 \<and> OSTCBDly t = 0"

text \<open>The masks that a control block keeps belong to its priority; its status is one of eight.\<close>

definition tcb_ok :: "OS_TCB \<Rightarrow> bool" where
  "tcb_ok t \<longleftrightarrow> unat (OSTCBPrio t) \<le> 25 \<and> OSTCBY t = prio_y (OSTCBPrio t)
     \<and> OSTCBBitX t = bit_of (prio_x (OSTCBPrio t)) \<and> OSTCBBitY t = bit_of (prio_y (OSTCBPrio t))
     \<and> OSTCBStat t \<in> {0, OS_STAT_SEM, OS_STAT_Q, OS_STAT_MUTEX, OS_STAT_SUSPEND, OS_STAT_SUSPEND OR OS_STAT_SEM,
          OS_STAT_SUSPEND OR OS_STAT_Q, OS_STAT_SUSPEND OR OS_STAT_MUTEX}"

definition type_mask :: "u8 \<Rightarrow> u8" where
  "type_mask type = (if type = OS_EVENT_TYPE_SEM then OS_STAT_SEM else if type = OS_EVENT_TYPE_Q then OS_STAT_Q else OS_STAT_MUTEX)"

text \<open>A task that was posted to is no longer in the list; one that timed out still is, until it runs.\<close>

definition task_ok :: "kernel \<Rightarrow> nat \<Rightarrow> bool" where
  "task_ok k i \<longleftrightarrow>
     (let t = tcb k i; p = prio_of k i
      in tcb_ok t
         \<and> OSTCBPrioTbl k (OSTCBPrio t) = Tcb i
         \<and> (p \<in> ready k \<longleftrightarrow> runnable t)
         \<and> (\<forall>e. p \<in> waiters k e \<longrightarrow> OSTCBEventPtr t = Some e \<and> (pending t \<or> OSTCBStatPend t = OS_STAT_PEND_TO)
                  \<and> (ev_type k e = OS_EVENT_TYPE_MUTEX \<longrightarrow> OSTCBPrio t < ev_pip k e))
         \<and> (\<forall>e. OSTCBEventPtr t = Some e \<longrightarrow> ev_type k e \<in> {OS_EVENT_TYPE_SEM, OS_EVENT_TYPE_Q, OS_EVENT_TYPE_MUTEX})
         \<and> (pending t \<longrightarrow> (\<exists>e. OSTCBEventPtr t = Some e \<and> p \<in> waiters k e
                              \<and> OSTCBStat t AND OS_STAT_PEND_ANY = type_mask (ev_type k e)))
         \<and> (OSTCBEventPtr t \<noteq> None \<and> \<not> pending t \<longrightarrow> OSTCBDly t = 0)
         \<and> (\<forall>e. OSTCBEventPtr t = Some e \<and> ev_type k e = OS_EVENT_TYPE_MUTEX \<and> \<not> pending t
                  \<and> OSTCBStatPend t = OS_STAT_PEND_OK \<longrightarrow> ev_owner k e = OwnerPtr i))"

definition task_at :: "kernel \<Rightarrow> nat \<Rightarrow> bool" where
  "task_at k p \<longleftrightarrow> (\<exists>i. live k i \<and> prio_of k i = p)"

definition lower8 :: "OS_EVENT \<Rightarrow> u8" where
  "lower8 v = ucast (OSEventCnt v AND OS_MUTEX_KEEP_LOWER_8)"

text \<open>A mutex is free and nobody waits, or its owner is a task of a priority above the inheritance priority.\<close>

definition mutex_ok :: "kernel \<Rightarrow> nat \<Rightarrow> bool" where
  "mutex_ok k e \<longleftrightarrow>
     unat (ev_pip k e) < 25 \<and> OSTCBPrioTbl k (ev_pip k e) = Reserved
     \<and> (lower8 (OSEvents k e) = 0xFF \<and> ev_owner k e = NullPtr \<and> waiters k e = {}
        \<or> (\<exists>i. ev_owner k e = OwnerPtr i \<and> live k i \<and> lower8 (OSEvents k e) = OSTCBPrio (tcb k i)
                \<and> OSTCBPrio (tcb k i) < ev_pip k e))"

text \<open>A queue that keeps messages has no waiting task.\<close>

definition queue_ok :: "kernel \<Rightarrow> nat \<Rightarrow> bool" where
  "queue_ok k e \<longleftrightarrow> (\<exists>q. ev_owner k e = QueuePtr q \<and> q_ok q \<and> (OSQEntries q \<noteq> 0 \<longrightarrow> waiters k e = {}))"

definition event_ok :: "kernel \<Rightarrow> nat \<Rightarrow> bool" where
  "event_ok k e \<longleftrightarrow>
     list_ok (OSEventList (OSEvents k e)) \<and> (\<forall>p \<in> waiters k e. task_at k p)
     \<and> (ev_type k e = OS_EVENT_TYPE_SEM \<and> OSEventCnt (OSEvents k e) \<noteq> 0 \<longrightarrow> waiters k e = {})
     \<and> (ev_type k e = OS_EVENT_TYPE_Q \<longrightarrow> queue_ok k e)
     \<and> (ev_type k e = OS_EVENT_TYPE_MUTEX \<longrightarrow> mutex_ok k e)"

fun event_chain :: "(nat \<Rightarrow> OS_EVENT) \<Rightarrow> event_ptr \<Rightarrow> nat list \<Rightarrow> bool" where
  "event_chain ev p [] \<longleftrightarrow> p = NullPtr"
| "event_chain ev p (e # es) \<longleftrightarrow> p = EventPtr e \<and> event_chain ev (OSEventPtr (ev e)) es"

definition free_ok :: "kernel \<Rightarrow> bool" where
  "free_ok k \<longleftrightarrow> (\<exists>es. event_chain (OSEvents k) (OSEventFreeList k) es \<and> distinct es
      \<and> (\<forall>e \<in> set es. ev_type k e = OS_EVENT_TYPE_UNUSED \<and> waiters k e = {}))"

definition tables_ok :: "kernel \<Rightarrow> bool" where
  "tables_ok k \<longleftrightarrow> distinct (OSTCBList k @ OSTCBFreeList k)
     \<and> (\<forall>p i. OSTCBPrioTbl k p = Tcb i \<longrightarrow> live k i \<and> OSTCBPrio (tcb k i) = p)"

text \<open>The idle task was created first, so it ends the chain; it can always run.\<close>

definition idle_ok :: "kernel \<Rightarrow> bool" where
  "idle_ok k \<longleftrightarrow> OSTCBList k \<noteq> []
     \<and> OSTCBPrio (tcb k (last (OSTCBList k))) = OS_TASK_IDLE_PRIO
     \<and> runnable (tcb k (last (OSTCBList k))) \<and> OSTCBEventPtr (tcb k (last (OSTCBList k))) = None"

definition kernel_ok :: "kernel \<Rightarrow> bool" where
  "kernel_ok k \<longleftrightarrow> tables_ok k \<and> list_ok (OSRdy k) \<and> (\<forall>p \<in> ready k. task_at k p)
     \<and> (\<forall>i. live k i \<longrightarrow> task_ok k i) \<and> (\<forall>e. event_ok k e) \<and> free_ok k \<and> idle_ok k"

lemma kernel_okD:
  assumes "kernel_ok k"
  shows "tables_ok k" "list_ok (OSRdy k)" "p \<in> ready k \<Longrightarrow> task_at k p" "live k i \<Longrightarrow> task_ok k i"
    "event_ok k e" "free_ok k" "idle_ok k" "live k i \<Longrightarrow> tcb_ok (tcb k i)"
  using assms unfolding kernel_ok_def task_ok_def Let_def by blast+

lemma task_okD:
  assumes "task_ok k i"
  shows "tcb_ok (tcb k i)" "OSTCBPrioTbl k (OSTCBPrio (tcb k i)) = Tcb i"
    "prio_of k i \<in> ready k \<longleftrightarrow> runnable (tcb k i)"
    "prio_of k i \<in> waiters k e \<Longrightarrow> OSTCBEventPtr (tcb k i) = Some e"
    "prio_of k i \<in> waiters k e \<Longrightarrow> \<not> pending (tcb k i) \<Longrightarrow> OSTCBStatPend (tcb k i) = OS_STAT_PEND_TO"
    "prio_of k i \<in> waiters k e \<Longrightarrow> ev_type k e = OS_EVENT_TYPE_MUTEX \<Longrightarrow> OSTCBPrio (tcb k i) < ev_pip k e"
    "OSTCBEventPtr (tcb k i) = Some e \<Longrightarrow> ev_type k e = OS_EVENT_TYPE_SEM \<or> ev_type k e = OS_EVENT_TYPE_Q \<or> ev_type k e = OS_EVENT_TYPE_MUTEX"
    "pending (tcb k i) \<Longrightarrow> OSTCBEventPtr (tcb k i) = Some e \<Longrightarrow>
       prio_of k i \<in> waiters k e \<and> OSTCBStat (tcb k i) AND OS_STAT_PEND_ANY = type_mask (ev_type k e)"
    "pending (tcb k i) \<Longrightarrow> OSTCBEventPtr (tcb k i) \<noteq> None"
    "OSTCBEventPtr (tcb k i) \<noteq> None \<Longrightarrow> \<not> pending (tcb k i) \<Longrightarrow> OSTCBDly (tcb k i) = 0"
    "OSTCBEventPtr (tcb k i) = Some e \<Longrightarrow> ev_type k e = OS_EVENT_TYPE_MUTEX \<Longrightarrow> \<not> pending (tcb k i) \<Longrightarrow>
       OSTCBStatPend (tcb k i) = OS_STAT_PEND_OK \<Longrightarrow> ev_owner k e = OwnerPtr i"
  using assms unfolding task_ok_def Let_def by auto

lemma task_ok_dly: "task_ok k i \<Longrightarrow> OSTCBEventPtr (tcb k i) = None \<or> pending (tcb k i) \<or> OSTCBDly (tcb k i) = 0"
  unfolding task_ok_def Let_def by blast

lemma task_okI:
  assumes "tcb_ok (tcb k i)" "OSTCBPrioTbl k (OSTCBPrio (tcb k i)) = Tcb i"
    "prio_of k i \<in> ready k \<longleftrightarrow> runnable (tcb k i)"
    "\<And>e. prio_of k i \<in> waiters k e \<Longrightarrow> OSTCBEventPtr (tcb k i) = Some e
      \<and> (pending (tcb k i) \<or> OSTCBStatPend (tcb k i) = OS_STAT_PEND_TO)
      \<and> (ev_type k e = OS_EVENT_TYPE_MUTEX \<longrightarrow> OSTCBPrio (tcb k i) < ev_pip k e)"
    "\<And>e. OSTCBEventPtr (tcb k i) = Some e \<Longrightarrow> ev_type k e = OS_EVENT_TYPE_SEM \<or> ev_type k e = OS_EVENT_TYPE_Q \<or> ev_type k e = OS_EVENT_TYPE_MUTEX"
    "pending (tcb k i) \<Longrightarrow> \<exists>e. OSTCBEventPtr (tcb k i) = Some e \<and> prio_of k i \<in> waiters k e
      \<and> OSTCBStat (tcb k i) AND OS_STAT_PEND_ANY = type_mask (ev_type k e)"
    "OSTCBEventPtr (tcb k i) \<noteq> None \<Longrightarrow> \<not> pending (tcb k i) \<Longrightarrow> OSTCBDly (tcb k i) = 0"
    "\<And>e. OSTCBEventPtr (tcb k i) = Some e \<Longrightarrow> ev_type k e = OS_EVENT_TYPE_MUTEX \<Longrightarrow> \<not> pending (tcb k i) \<Longrightarrow>
       OSTCBStatPend (tcb k i) = OS_STAT_PEND_OK \<Longrightarrow> ev_owner k e = OwnerPtr i"
  shows "task_ok k i"
  using assms unfolding task_ok_def Let_def by auto

lemma idle_task:
  assumes "kernel_ok k"
  shows "live k (last (OSTCBList k))" "OSTCBPrio (tcb k (last (OSTCBList k))) = OS_TASK_IDLE_PRIO"
    "OSTCBEventPtr (tcb k (last (OSTCBList k))) = None" "runnable (tcb k (last (OSTCBList k)))"
    "OSTCBPrioTbl k OS_TASK_IDLE_PRIO = Tcb (last (OSTCBList k))"
proof -
  show *: "live k (last (OSTCBList k))" "OSTCBPrio (tcb k (last (OSTCBList k))) = OS_TASK_IDLE_PRIO"
    "OSTCBEventPtr (tcb k (last (OSTCBList k))) = None" "runnable (tcb k (last (OSTCBList k)))"
    using kernel_okD(7) [OF assms] by (auto simp: idle_ok_def)
  show "OSTCBPrioTbl k OS_TASK_IDLE_PRIO = Tcb (last (OSTCBList k))"
    using task_okD(2) [OF kernel_okD(4) [OF assms *(1)]] *(2) by simp
qed

text \<open>One task has one priority.\<close>

lemma same_prio:
  assumes "kernel_ok k" "live k i" "live k j" "prio_of k i = prio_of k j"
  shows "i = j"
proof -
  have "OSTCBPrioTbl k (OSTCBPrio (tcb k i)) = Tcb i" "OSTCBPrioTbl k (OSTCBPrio (tcb k j)) = Tcb j"
    using task_okD(2) kernel_okD(4) assms(1-3) by blast+
  moreover have "OSTCBPrio (tcb k i) = OSTCBPrio (tcb k j)"
    using assms(4) unfolding prio_of_def by (rule unsigned_word_eqI)
  ultimately show ?thesis by (metis tcb_ptr.inject)
qed

section \<open>A step that changes one task\<close>

text \<open>
  Most services change one task: its control block, its place in the ready list and its place in
  the lists of the events.
\<close>

definition changes_task :: "nat \<Rightarrow> kernel \<Rightarrow> kernel \<Rightarrow> bool" where
  "changes_task i k k' \<longleftrightarrow>
     OSTCBPrioTbl k' = OSTCBPrioTbl k \<and> OSTCBList k' = OSTCBList k \<and> OSTCBFreeList k' = OSTCBFreeList k
     \<and> OSEventFreeList k' = OSEventFreeList k
     \<and> (\<forall>j. j \<noteq> i \<longrightarrow> tcb k' j = tcb k j) \<and> OSTCBPrio (tcb k' i) = OSTCBPrio (tcb k i)
     \<and> list_ok (OSRdy k') \<and> ready k' - {prio_of k i} = ready k - {prio_of k i}
     \<and> (\<forall>e. ev_type k' e = ev_type k e \<and> (ev_type k e = OS_EVENT_TYPE_MUTEX \<longrightarrow> ev_pip k' e = ev_pip k e)
            \<and> (ev_type k e \<notin> {OS_EVENT_TYPE_Q, OS_EVENT_TYPE_MUTEX} \<longrightarrow> ev_owner k' e = ev_owner k e)
            \<and> list_ok (OSEventList (OSEvents k' e)) \<and> waiters k' e - {prio_of k i} = waiters k e - {prio_of k i})"

lemma changes_taskD:
  assumes "changes_task i k k'"
  shows "OSTCBPrioTbl k' = OSTCBPrioTbl k" "OSTCBList k' = OSTCBList k" "OSTCBFreeList k' = OSTCBFreeList k"
    "OSEventFreeList k' = OSEventFreeList k" "j \<noteq> i \<Longrightarrow> tcb k' j = tcb k j" "list_ok (OSRdy k')"
    "ev_type k' e = ev_type k e" "ev_type k e = OS_EVENT_TYPE_MUTEX \<Longrightarrow> ev_pip k' e = ev_pip k e"
    "ev_type k e \<notin> {OS_EVENT_TYPE_Q, OS_EVENT_TYPE_MUTEX} \<Longrightarrow> ev_owner k' e = ev_owner k e" "list_ok (OSEventList (OSEvents k' e))"
    "OSTCBPrio (tcb k' j) = OSTCBPrio (tcb k j)" "prio_of k' j = prio_of k j"
    "q \<noteq> prio_of k i \<Longrightarrow> q \<in> ready k' \<longleftrightarrow> q \<in> ready k"
    "q \<noteq> prio_of k i \<Longrightarrow> q \<in> waiters k' e \<longleftrightarrow> q \<in> waiters k e"
    "task_at k' q \<longleftrightarrow> task_at k q"
proof -
  note c = assms [unfolded changes_task_def]
  show pr: "OSTCBPrio (tcb k' j) = OSTCBPrio (tcb k j)" for j using c by (cases "j = i") (blast, metis)
  show p: "prio_of k' j = prio_of k j" for j by (simp add: prio_of_def pr)
  show l: "OSTCBList k' = OSTCBList k" using c by blast
  show "task_at k' q \<longleftrightarrow> task_at k q" by (simp add: task_at_def l p)
qed (use assms in \<open>unfold changes_task_def, blast+\<close>)

lemma changes_trans:
  assumes "changes_task i k k1" "changes_task i k1 k2"
  shows "changes_task i k k2"
  using assms changes_taskD(12) [OF assms(1), of i] unfolding changes_task_def by simp

text \<open>The others are as they were, when no mutex is taken from a task that was told that it has it.\<close>

lemma other_task_ok:
  assumes k: "kernel_ok k" and c: "changes_task i k k'" and i: "live k i" and j: "live k j" "j \<noteq> i"
    and own: "\<And>e. OSTCBEventPtr (tcb k j) = Some e \<Longrightarrow> ev_type k e = OS_EVENT_TYPE_MUTEX \<Longrightarrow> \<not> pending (tcb k j) \<Longrightarrow>
        OSTCBStatPend (tcb k j) = OS_STAT_PEND_OK \<Longrightarrow> ev_owner k' e = ev_owner k e"
  shows "task_ok k' j"
proof -
  have ne: "prio_of k j \<noteq> prio_of k i" using same_prio k i j by metis
  have t: "tcb k' j = tcb k j" using changes_taskD(5) [OF c j(2)] .
  note r = changes_taskD(13) [OF c ne] changes_taskD(14) [OF c ne]
  note ty = changes_taskD(7,8) [OF c] changes_taskD(1,12) [OF c]
  note o = task_okD [OF kernel_okD(4) [OF k j(1)]]
  show ?thesis
  proof (rule task_okI, unfold t r ty)
    show "OSTCBEventPtr (tcb k j) = Some e
      \<and> (pending (tcb k j) \<or> OSTCBStatPend (tcb k j) = OS_STAT_PEND_TO)
      \<and> (ev_type k e = OS_EVENT_TYPE_MUTEX \<longrightarrow> OSTCBPrio (tcb k j) < ev_pip k' e)" if "prio_of k j \<in> waiters k e" for e
      using o(4-6) [OF that] ty(2) by auto
    show "\<exists>e. OSTCBEventPtr (tcb k j) = Some e \<and> prio_of k j \<in> waiters k e
      \<and> OSTCBStat (tcb k j) AND OS_STAT_PEND_ANY = type_mask (ev_type k e)" if "pending (tcb k j)"
      using o(8,9) [OF that] by blast
    show "ev_owner k' e = OwnerPtr j"
      if "OSTCBEventPtr (tcb k j) = Some e" "ev_type k e = OS_EVENT_TYPE_MUTEX" "\<not> pending (tcb k j)"
        "OSTCBStatPend (tcb k j) = OS_STAT_PEND_OK" for e
      using own [OF that] o(11) [OF that] by simp
  qed (use o in blast)+
qed

lemma kernel_ok_change:
  assumes k: "kernel_ok k" and c: "changes_task i k k'" and i: "live k i"
    and t: "task_ok k' i"
    and e: "\<And>e. event_ok k' e"
    and own: "\<And>j e. live k j \<Longrightarrow> j \<noteq> i \<Longrightarrow> OSTCBEventPtr (tcb k j) = Some e \<Longrightarrow> ev_type k e = OS_EVENT_TYPE_MUTEX \<Longrightarrow>
        \<not> pending (tcb k j) \<Longrightarrow> OSTCBStatPend (tcb k j) = OS_STAT_PEND_OK \<Longrightarrow> ev_owner k' e = ev_owner k e"
    and idle: "OSTCBPrio (tcb k i) = OS_TASK_IDLE_PRIO \<Longrightarrow> runnable (tcb k' i) \<and> OSTCBEventPtr (tcb k' i) = None"
  shows "kernel_ok k'"
proof -
  note tab = changes_taskD(1-4,6) [OF c]
  note pr = changes_taskD(11) [OF c]
  have "tables_ok k'" using kernel_okD(1) [OF k] by (simp add: tables_ok_def tab pr)
  moreover have "\<forall>p \<in> ready k'. task_at k' p"
  proof
    fix p assume p: "p \<in> ready k'"
    show "task_at k' p"
    proof (cases "p = prio_of k i")
      case True
      then show ?thesis using i changes_taskD(15) [OF c] by (auto simp: task_at_def)
    next
      case False
      then have "p \<in> ready k" using p changes_taskD(13) [OF c] by blast
      then show ?thesis using kernel_okD(3) [OF k] changes_taskD(15) [OF c] by blast
    qed
  qed
  moreover have "\<forall>j. live k' j \<longrightarrow> task_ok k' j"
  proof (intro allI impI)
    fix j assume j: "live k' j"
    show "task_ok k' j"
    proof (cases "j = i")
      case False
      have l: "live k j" using j tab(2) by simp
      show ?thesis by (rule other_task_ok [OF k c i l False]) (use own [OF l False] in blast)
    qed (use t in simp)
  qed
  moreover have "free_ok k'"
  proof -
    obtain es where es: "event_chain (OSEvents k) (OSEventFreeList k) es" "distinct es"
      "\<forall>e \<in> set es. ev_type k e = OS_EVENT_TYPE_UNUSED \<and> waiters k e = {}"
      using kernel_okD(6) [OF k] unfolding free_ok_def by blast
    have ty: "ev_type k' e = ev_type k e" "ev_type k e = OS_EVENT_TYPE_UNUSED \<Longrightarrow> ev_owner k' e = ev_owner k e" for e
      using changes_taskD(7,9) [OF c] by simp_all
    have "event_chain (OSEvents k') p es" if "event_chain (OSEvents k) p es"
        "\<forall>e \<in> set es. ev_type k e = OS_EVENT_TYPE_UNUSED" for p es
      using that
    proof (induction es arbitrary: p)
      case (Cons e es)
      then show ?case using ty(2) [of e] by (auto simp: ev_owner_def)
    qed simp
    then have ch: "event_chain (OSEvents k') (OSEventFreeList k') es" using es by (simp add: tab)
    have "waiters k' e = {}" if "e \<in> set es" for e
    proof -
      have "waiters k e = {}" "ev_type k e = OS_EVENT_TYPE_UNUSED" using es that by auto
      then have "waiters k' e \<subseteq> {prio_of k i}" using changes_taskD(14) [OF c] by blast
      moreover have "prio_of k i \<notin> waiters k' e"
      proof
        assume "prio_of k i \<in> waiters k' e"
        then have "OSTCBEventPtr (tcb k' i) = Some e" using task_okD(4) [OF t] changes_taskD(12) [OF c] by simp
        then have "ev_type k' e = OS_EVENT_TYPE_SEM \<or> ev_type k' e = OS_EVENT_TYPE_Q \<or> ev_type k' e = OS_EVENT_TYPE_MUTEX" using task_okD(7) [OF t] by blast
        then show False using ty(1) [of e] \<open>ev_type k e = OS_EVENT_TYPE_UNUSED\<close> by simp
      qed
      ultimately show ?thesis by auto
    qed
    then show ?thesis using es ch ty(1) unfolding free_ok_def by auto
  qed
  moreover have "idle_ok k'"
  proof -
    let ?l = "last (OSTCBList k)"
    have l: "OSTCBPrio (tcb k ?l) = OS_TASK_IDLE_PRIO" "runnable (tcb k ?l)" "OSTCBEventPtr (tcb k ?l) = None" "OSTCBList k \<noteq> []"
      using kernel_okD(7) [OF k] unfolding idle_ok_def by blast+
    show ?thesis
    proof (cases "?l = i")
      case True
      then show ?thesis using l idle pr by (simp add: idle_ok_def tab)
    next
      case False
      then have "tcb k' ?l = tcb k ?l" by (rule changes_taskD(5) [OF c])
      then show ?thesis using l by (simp add: idle_ok_def tab)
    qed
  qed
  ultimately show ?thesis using e tab(5) unfolding kernel_ok_def by blast
qed

section \<open>Fields that the invariant does not read\<close>

lemmas kernel_ok_defs = kernel_ok_def tables_ok_def task_ok_def event_ok_def free_ok_def idle_ok_def mutex_ok_def queue_ok_def
  task_at_def prio_of_def ready_def waiters_def ev_type_def ev_pip_def ev_owner_def

lemma kernel_ok_fields [simp]:
  "kernel_ok (k\<lparr>OSTime := a\<rparr>) = kernel_ok k" "kernel_ok (k\<lparr>OSIntNesting := n\<rparr>) = kernel_ok k"
  "kernel_ok (k\<lparr>OSLockNesting := n\<rparr>) = kernel_ok k" "kernel_ok (k\<lparr>OSTaskCtr := n\<rparr>) = kernel_ok k"
  "kernel_ok (k\<lparr>OSRunning := b\<rparr>) = kernel_ok k" "kernel_ok (k\<lparr>OSTickStepState := n\<rparr>) = kernel_ok k"
  "kernel_ok (k\<lparr>OSCtxSwCtr := a\<rparr>) = kernel_ok k" "kernel_ok (k\<lparr>OSPrioCur := n\<rparr>) = kernel_ok k"
  "kernel_ok (k\<lparr>OSPrioHighRdy := n\<rparr>) = kernel_ok k" "kernel_ok (k\<lparr>OSTCBCur := p\<rparr>) = kernel_ok k"
  "kernel_ok (k\<lparr>OSTCBHighRdy := p\<rparr>) = kernel_ok k" "kernel_ok (k\<lparr>OSQFree := m\<rparr>) = kernel_ok k"
  unfolding kernel_ok_defs by (cases k, simp only: kernel.simps)+

lemma kernel_ok_unread:
  assumes "OSTCBPrio t = OSTCBPrio (tcb k i)" "OSTCBEventPtr t = OSTCBEventPtr (tcb k i)" "OSTCBDly t = OSTCBDly (tcb k i)"
    "OSTCBStat t = OSTCBStat (tcb k i)" "OSTCBStatPend t = OSTCBStatPend (tcb k i)" "tcb_ok t = tcb_ok (tcb k i)"
  shows "kernel_ok (set_tcb i t k) = kernel_ok k"
proof -
  have f: "OSTCBPrio (((OSTCBs k)(i := t)) j) = OSTCBPrio (tcb k j)"
    "OSTCBEventPtr (((OSTCBs k)(i := t)) j) = OSTCBEventPtr (tcb k j)"
    "OSTCBDly (((OSTCBs k)(i := t)) j) = OSTCBDly (tcb k j)"
    "OSTCBStat (((OSTCBs k)(i := t)) j) = OSTCBStat (tcb k j)"
    "OSTCBStatPend (((OSTCBs k)(i := t)) j) = OSTCBStatPend (tcb k j)"
    "tcb_ok (((OSTCBs k)(i := t)) j) = tcb_ok (tcb k j)"
    "pending (((OSTCBs k)(i := t)) j) = pending (tcb k j)"
    "runnable (((OSTCBs k)(i := t)) j) = runnable (tcb k j)" for j
    using assms by (simp_all add: pending_def runnable_def)
  let ?k = "k\<lparr>OSTCBs := (OSTCBs k)(i := t)\<rparr>"
  have sel: "OSTCBs ?k = (OSTCBs k)(i := t)" "OSTCBPrioTbl ?k = OSTCBPrioTbl k" "OSTCBList ?k = OSTCBList k"
    "OSTCBFreeList ?k = OSTCBFreeList k" "OSRdy ?k = OSRdy k" "OSEvents ?k = OSEvents k"
    "OSEventFreeList ?k = OSEventFreeList k" by simp_all
  show ?thesis unfolding set_tcb_def kernel_ok_defs Let_def by (simp only: sel f)
qed

lemma kernel_ok_count_switch [simp]:
  "t = tcb k i \<Longrightarrow> kernel_ok (set_tcb i (t\<lparr>OSTCBCtxSwCtr := c\<rparr>) k) = kernel_ok k"
  by (rule kernel_ok_unread) (simp_all add: tcb_ok_def)

lemma kernel_ok_switch [simp]: "kernel_ok (switch_to_highest k) = kernel_ok k"
  by (simp add: switch_to_highest_def OS_SchedNew_def OS_CPU_PendSVHandler_def Let_def)

lemma kernel_ok_sched [simp]: "kernel_ok (OS_Sched k) = kernel_ok k"
  by (simp add: OS_Sched_def)

section \<open>The status of one task\<close>

lemma live_prio: "kernel_ok k \<Longrightarrow> live k i \<Longrightarrow> prio_of k i < 32"
  using kernel_okD(8) [of k i] by (simp add: tcb_ok_def prio_of_def)

lemma event_ok_change:
  assumes k: "kernel_ok k" and c: "changes_task i k k'" and i: "live k i"
    and e: "OSEventCnt (OSEvents k' e) = OSEventCnt (OSEvents k e)" "ev_owner k' e = ev_owner k e"
    and w: "prio_of k i \<in> waiters k' e \<Longrightarrow> prio_of k i \<in> waiters k e"
  shows "event_ok k' e"
proof -
  have sub: "waiters k' e \<subseteq> waiters k e"
  proof
    fix q assume "q \<in> waiters k' e"
    then show "q \<in> waiters k e" using w changes_taskD(14) [OF c, of q] by (cases "q = prio_of k i") auto
  qed
  note ok = kernel_okD(5) [OF k, of e, unfolded event_ok_def]
  have l: "lower8 (OSEvents k' e) = lower8 (OSEvents k e)" by (simp add: lower8_def e)
  have pr: "\<And>j. OSTCBPrio (tcb k' j) = OSTCBPrio (tcb k j)" by (rule changes_taskD(11) [OF c])
  have "mutex_ok k' e" if "ev_type k e = OS_EVENT_TYPE_MUTEX"
    using ok that sub changes_taskD(8) [OF c that] e(2)
    unfolding mutex_ok_def l pr changes_taskD(1,2) [OF c] by auto
  moreover have "queue_ok k' e" if "ev_type k e = OS_EVENT_TYPE_Q"
    using ok that sub e(2) by (auto simp: queue_ok_def)
  ultimately show ?thesis
    using ok sub e changes_taskD(7,10,15) [OF c] unfolding event_ok_def by auto
qed

lemma kernel_ok_status:
  assumes k: "kernel_ok k" and i: "live k i"
    and t: "OSTCBPrio t' = OSTCBPrio (tcb k i)" "OSTCBEventPtr t' = OSTCBEventPtr (tcb k i)" "tcb_ok t'"
    and r: "list_ok r'" "prios r' = (if runnable t' then insert (prio_of k i) (ready k) else ready k - {prio_of k i})"
    and s: "OSTCBEventPtr t' = None \<and> \<not> pending t'
      \<or> OSTCBStat t' AND OS_STAT_PEND_ANY = OSTCBStat (tcb k i) AND OS_STAT_PEND_ANY
         \<and> OSTCBStatPend t' = OSTCBStatPend (tcb k i) \<and> (\<not> pending t' \<longrightarrow> OSTCBDly t' = 0)
      \<or> \<not> pending t' \<and> OSTCBStatPend t' = OS_STAT_PEND_TO \<and> OSTCBDly t' = 0"
    and idle: "OSTCBPrio (tcb k i) \<noteq> OS_TASK_IDLE_PRIO"
  shows "kernel_ok (k\<lparr>OSTCBs := (OSTCBs k)(i := t'), OSRdy := r'\<rparr>)" (is "kernel_ok ?k")
proof -
  have ev: "ev_type ?k e = ev_type k e" "ev_pip ?k e = ev_pip k e" "ev_owner ?k e = ev_owner k e"
    "waiters ?k e = waiters k e" "OSEvents ?k e = OSEvents k e" for e
    by (simp_all add: ev_type_def ev_pip_def ev_owner_def waiters_def)
  have ti: "tcb ?k i = t'" by simp
  have pi: "prio_of ?k i = prio_of k i" by (simp add: prio_of_def t)
  have rd: "ready ?k = (if runnable t' then insert (prio_of k i) (ready k) else ready k - {prio_of k i})"
    by (simp add: ready_def r [unfolded ready_def])
  have le: "list_ok (OSEventList (OSEvents k e))" for e using kernel_okD(5) [OF k, of e] by (simp add: event_ok_def)
  have c: "changes_task i k ?k"
    unfolding changes_task_def ev using le r(1) rd t(1) by auto
  note o = task_okD [OF kernel_okD(4) [OF k i]]
  have pt: "pending t' \<Longrightarrow> OSTCBStat t' AND OS_STAT_PEND_ANY = OSTCBStat (tcb k i) AND OS_STAT_PEND_ANY \<and> pending (tcb k i)
      \<and> OSTCBStatPend t' = OSTCBStatPend (tcb k i)"
    using s by (auto simp: pending_def)
  have np: "\<not> pending t' \<Longrightarrow> OSTCBEventPtr (tcb k i) = None \<or> OSTCBStatPend t' = OS_STAT_PEND_TO \<and> OSTCBDly t' = 0
      \<or> \<not> pending (tcb k i) \<and> OSTCBStatPend t' = OSTCBStatPend (tcb k i) \<and> OSTCBDly t' = 0"
    using s t(2) by (auto simp: pending_def)
  show ?thesis
  proof (rule kernel_ok_change [OF k c i])
    show "task_ok ?k i"
    proof (rule task_okI, unfold ti ev pi rd)
      show "OSTCBPrioTbl ?k (OSTCBPrio t') = Tcb i" using o(2) t(1) by simp
      show "prio_of k i \<in> (if runnable t' then insert (prio_of k i) (ready k) else ready k - {prio_of k i}) \<longleftrightarrow> runnable t'"
        by simp
      show "OSTCBEventPtr t' = Some e \<and> (pending t' \<or> OSTCBStatPend t' = OS_STAT_PEND_TO)
          \<and> (ev_type k e = OS_EVENT_TYPE_MUTEX \<longrightarrow> OSTCBPrio t' < ev_pip k e)" if "prio_of k i \<in> waiters k e" for e
        using o(4) [OF that] o(5) [OF that] o(6) [OF that] np t(1,2) by (cases "pending t'") auto
      show "\<exists>e. OSTCBEventPtr t' = Some e \<and> prio_of k i \<in> waiters k e
          \<and> OSTCBStat t' AND OS_STAT_PEND_ANY = type_mask (ev_type k e)" if "pending t'"
        using o(8,9) pt [OF that] t(2) by auto
      show "OSTCBDly t' = 0" if "OSTCBEventPtr t' \<noteq> None" "\<not> pending t'"
        using np [OF that(2)] that(1) t(2) by auto
      show "ev_owner k e = OwnerPtr i" if "OSTCBEventPtr t' = Some e" "ev_type k e = OS_EVENT_TYPE_MUTEX"
          "\<not> pending t'" "OSTCBStatPend t' = OS_STAT_PEND_OK" for e
        using np [OF that(3)] o(11) that t(2) by auto
      show "ev_type k e = OS_EVENT_TYPE_SEM \<or> ev_type k e = OS_EVENT_TYPE_Q \<or> ev_type k e = OS_EVENT_TYPE_MUTEX" if "OSTCBEventPtr t' = Some e" for e
        using o(7) that t(2) by simp
    qed (rule t(3))
    show "event_ok ?k e" for e by (rule event_ok_change [OF k c i]) (simp_all add: ev)
  qed (simp_all add: ev idle)
qed

section \<open>The lists with the masks of a task\<close>

lemma list_or_task: "tcb_ok t \<Longrightarrow> list_or (OSTCBY t) (OSTCBBitX t) (OSTCBBitY t) l = list_add (OSTCBPrio t) l"
  by (simp add: tcb_ok_def list_add_def)

lemma list_clear_task: "tcb_ok t \<Longrightarrow> list_clear (OSTCBY t) (OSTCBBitX t) (OSTCBBitY t) l = list_remove (OSTCBPrio t) l"
  by (simp add: tcb_ok_def list_remove_def)

lemma tcb_ok_prio: "tcb_ok t \<Longrightarrow> unat (OSTCBPrio t) < 32"
  by (simp add: tcb_ok_def)

lemma tcb_ok_fields [simp]:
  "tcb_ok (t\<lparr>OSTCBDly := d\<rparr>) = tcb_ok t" "tcb_ok (t\<lparr>OSTCBStatPend := s\<rparr>) = tcb_ok t"
  "tcb_ok (t\<lparr>OSTCBEventPtr := e\<rparr>) = tcb_ok t" "tcb_ok (t\<lparr>OSTCBMsg := m\<rparr>) = tcb_ok t"
  by (simp_all add: tcb_ok_def)

lemma tcb_stat_cases:
  assumes "tcb_ok t"
  obtains "OSTCBStat t = 0" | "OSTCBStat t = 1" | "OSTCBStat t = 0x10" | "OSTCBStat t = 8" | "OSTCBStat t = 9" | "OSTCBStat t = 0x18"
    | "OSTCBStat t = 4" | "OSTCBStat t = 0xC"
proof -
  have "OSTCBStat t \<in> {0, 1, 4, 0x10, 8, 9, 0xC, 0x18}" using assms by (simp add: tcb_ok_def)
  then show thesis using that by blast
qed

lemma tcb_ok_stat: "tcb_ok (t\<lparr>OSTCBStat := s\<rparr>)" if "tcb_ok t" "s \<in> {0, 1, 4, 0x10, 8, 9, 0xC, 0x18}"
  using that by (simp add: tcb_ok_def)

section \<open>Delay, tick, suspension\<close>

lemma ready_list: "kernel_ok k \<Longrightarrow> live k i \<Longrightarrow> list_ok (list_add (OSTCBPrio (tcb k i)) (OSRdy k))
    \<and> prios (list_add (OSTCBPrio (tcb k i)) (OSRdy k)) = insert (prio_of k i) (ready k)
    \<and> list_ok (list_remove (OSTCBPrio (tcb k i)) (OSRdy k))
    \<and> prios (list_remove (OSTCBPrio (tcb k i)) (OSRdy k)) = ready k - {prio_of k i}"
  using plist.add_elem plist.remove_elem kernel_okD(2) tcb_ok_prio [OF kernel_okD(8)]
  by (simp add: prio_of_def ready_def)

lemma set_unready:
  assumes k: "kernel_ok k" and i: "live k i" and d: "OSTCBDly t' \<noteq> 0 \<or> OSTCBStat t' \<noteq> 0"
    and t: "OSTCBPrio t' = OSTCBPrio (tcb k i)" "OSTCBEventPtr t' = OSTCBEventPtr (tcb k i)" "tcb_ok t'"
    and s: "OSTCBEventPtr t' = None \<and> \<not> pending t'
      \<or> OSTCBStat t' AND OS_STAT_PEND_ANY = OSTCBStat (tcb k i) AND OS_STAT_PEND_ANY
         \<and> OSTCBStatPend t' = OSTCBStatPend (tcb k i) \<and> (\<not> pending t' \<longrightarrow> OSTCBDly t' = 0)"
    and idle: "OSTCBPrio (tcb k i) \<noteq> OS_TASK_IDLE_PRIO"
  shows "kernel_ok (set_tcb i t' (make_unready i k))"
proof -
  have "set_tcb i t' (make_unready i k) = k\<lparr>OSTCBs := (OSTCBs k)(i := t'), OSRdy := list_remove (OSTCBPrio (tcb k i)) (OSRdy k)\<rparr>"
    using list_clear_task [OF kernel_okD(8) [OF k i]] by (simp add: set_tcb_def make_unready_def)
  moreover have "\<not> runnable t'" using d by (auto simp: runnable_def)
  ultimately show ?thesis
    using kernel_ok_status [OF k i t, of "list_remove (OSTCBPrio (tcb k i)) (OSRdy k)"] ready_list [OF k i] s idle by auto
qed

lemma time_out_ok:
  assumes k: "kernel_ok k" and i: "live k i" and d: "OSTCBDly (tcb k i) \<noteq> 0"
    and idle: "OSTCBPrio (tcb k i) \<noteq> OS_TASK_IDLE_PRIO"
    and t': "t' = end_delay ((tcb k i)\<lparr>OSTCBDly := 0\<rparr>)"
  shows "kernel_ok (if OSTCBStat t' AND OS_STAT_SUSPEND = OS_STAT_RDY then make_ready i (set_tcb i t' k) else set_tcb i t' k)"
proof -
  let ?t = "tcb k i"
  have ok: "tcb_ok ?t" using kernel_okD(8) [OF k i] .
  note o = task_okD [OF kernel_okD(4) [OF k i]]
  have f: "OSTCBPrio t' = OSTCBPrio ?t" "OSTCBEventPtr t' = OSTCBEventPtr ?t" "OSTCBDly t' = 0"
    by (simp_all add: t' end_delay_def)
  have t: "OSTCBStat t' = OSTCBStat ?t AND NOT OS_STAT_PEND_ANY" "\<not> pending t'" "tcb_ok t'"
    "runnable t' \<longleftrightarrow> OSTCBStat t' AND OS_STAT_SUSPEND = OS_STAT_RDY"
    by (rule tcb_stat_cases [OF ok]; simp add: t' end_delay_def ok pending_def runnable_def tcb_ok_stat)+
  have s: "OSTCBEventPtr t' = None \<and> \<not> pending t' \<or> \<not> pending t' \<and> OSTCBStatPend t' = OS_STAT_PEND_TO \<and> OSTCBDly t' = 0"
  proof (cases "pending ?t")
    case True
    then show ?thesis using t(2) by (simp add: t' end_delay_def pending_def)
  next
    case False
    then have "OSTCBEventPtr ?t = None" using o(10) d by blast
    then show ?thesis using f(2) t(2) by simp
  qed
  have nr: "prio_of k i \<notin> ready k" using o(3) d by (simp add: runnable_def)
  show ?thesis
  proof (cases "runnable t'")
    case True
    have "make_ready i (set_tcb i t' k) = k\<lparr>OSTCBs := (OSTCBs k)(i := t'), OSRdy := list_add (OSTCBPrio ?t) (OSRdy k)\<rparr>"
      using list_or_task [OF t(3)] f(1) by (simp add: set_tcb_def make_ready_def)
    then show ?thesis
      using kernel_ok_status [OF k i f(1,2) t(3), of "list_add (OSTCBPrio ?t) (OSRdy k)"] ready_list [OF k i] s True t(4) idle
      by auto
  next
    case False
    have "set_tcb i t' k = k\<lparr>OSTCBs := (OSTCBs k)(i := t'), OSRdy := OSRdy k\<rparr>" by (simp add: set_tcb_def)
    then show ?thesis
      using kernel_ok_status [OF k i f(1,2) t(3), of "OSRdy k"] kernel_okD(2) [OF k] nr s False t(4) idle by (auto simp: ready_def)
  qed
qed

lemma tick_task_ok:
  assumes k: "kernel_ok k" and i: "live k i" and idle: "OSTCBPrio (tcb k i) \<noteq> OS_TASK_IDLE_PRIO"
  shows "kernel_ok (tick_task i k)"
proof (cases "OSTCBDly (tcb k i) = 0")
  case False
  let ?t = "tcb k i" and ?d = "OSTCBDly (tcb k i) - 1"
  show ?thesis
  proof (cases "?d = 0")
    case True
    have "tick_task i k = (let t' = end_delay (?t\<lparr>OSTCBDly := 0\<rparr>)
        in if OSTCBStat t' AND OS_STAT_SUSPEND = OS_STAT_RDY then make_ready i (set_tcb i t' k) else set_tcb i t' k)"
      using False True by (simp add: tick_task_def Let_def)
    then show ?thesis using time_out_ok [OF k i False idle refl] by (simp add: Let_def)
  next
    case d: False
    let ?t' = "?t\<lparr>OSTCBDly := ?d\<rparr>"
    have ok: "tcb_ok ?t'" using kernel_okD(8) [OF k i] by simp
    note o = task_okD [OF kernel_okD(4) [OF k i]]
    have nr: "prio_of k i \<notin> ready k" using o(3) False by (simp add: runnable_def)
    have "tick_task i k = k\<lparr>OSTCBs := (OSTCBs k)(i := ?t'), OSRdy := OSRdy k\<rparr>"
      using False d by (simp add: tick_task_def Let_def set_tcb_def)
    moreover have "pending ?t' = pending ?t" by (simp add: pending_def)
    then have "OSTCBEventPtr ?t' = None \<and> \<not> pending ?t' \<or> pending ?t'"
      using o(10) False by fastforce
    ultimately show ?thesis
      using kernel_ok_status [OF k i _ _ ok, of "OSRdy k"] kernel_okD(2) [OF k] nr d idle
      by (auto simp: ready_def runnable_def)
  qed
qed (simp add: tick_task_def k)

section \<open>The running task\<close>

text \<open>The current task is a task, at its priority; between interrupts it is the highest that is ready.\<close>

definition cur_ok :: "kernel \<Rightarrow> bool" where
  "cur_ok k \<longleftrightarrow> (OSRunning k \<longrightarrow> (\<exists>i. OSTCBCur k = Tcb i \<and> live k i \<and> OSPrioCur k = OSTCBPrio (tcb k i))
      \<and> OSPrioHighRdy k = OSPrioCur k)"

definition sched_ok :: "kernel \<Rightarrow> bool" where
  "sched_ok k \<longleftrightarrow> (OSRunning k \<and> OSIntNesting k = 0 \<and> OSLockNesting k = 0 \<longrightarrow> unat (OSPrioCur k) = Min (ready k))"

definition sys_ok :: "kernel \<Rightarrow> bool" where
  "sys_ok k \<longleftrightarrow> kernel_ok k \<and> cur_ok k \<and> sched_ok k"

text \<open>A step that leaves the processor to the current task.\<close>

definition same_cpu :: "kernel \<Rightarrow> kernel \<Rightarrow> bool" where
  "same_cpu k k' \<longleftrightarrow> OSTCBCur k' = OSTCBCur k \<and> OSPrioCur k' = OSPrioCur k \<and> OSPrioHighRdy k' = OSPrioHighRdy k
     \<and> OSRunning k' = OSRunning k \<and> OSIntNesting k' = OSIntNesting k \<and> OSLockNesting k' = OSLockNesting k
     \<and> OSTCBList k' = OSTCBList k \<and> (\<forall>j. OSTCBPrio (tcb k' j) = OSTCBPrio (tcb k j))"

lemma same_cpu_refl [simp]: "same_cpu k k"
  by (simp add: same_cpu_def)

lemma same_cpu_trans: "same_cpu k k1 \<Longrightarrow> same_cpu k1 k2 \<Longrightarrow> same_cpu k k2"
  by (simp add: same_cpu_def)

lemma same_cpu_cur: "same_cpu k k' \<Longrightarrow> cur_ok k \<Longrightarrow> cur_ok k'"
  by (simp add: same_cpu_def cur_ok_def)

lemma make_ready_tcb [simp]: "OSTCBs (make_ready i k) = OSTCBs k" "OSTCBs (make_unready i k) = OSTCBs k"
  by (simp_all add: make_ready_def make_unready_def)

lemma same_cpu_parts [simp]:
  "same_cpu k (make_ready i k)" "same_cpu k (make_unready i k)" "same_cpu k (set_event e v k)"
  "OSTCBPrio t = OSTCBPrio (tcb k i) \<Longrightarrow> same_cpu k (set_tcb i t k)"
  by (simp_all add: same_cpu_def make_ready_def make_unready_def set_event_def set_tcb_def)

lemma ready_not_empty: "kernel_ok k \<Longrightarrow> ready k \<noteq> {}"
proof -
  assume k: "kernel_ok k"
  let ?l = "last (OSTCBList k)"
  have "live k ?l" "runnable (tcb k ?l)" using kernel_okD(7) [OF k] by (auto simp: idle_ok_def)
  then have "prio_of k ?l \<in> ready k" using task_okD(3) kernel_okD(4) [OF k] by blast
  then show ?thesis by blast
qed

lemma finite_ready: "finite (ready k)"
  by (rule finite_subset [of _ "{..<32}"]) (auto simp: ready_def prios_def)

text \<open>The scheduler finds the task of the least priority that is ready.\<close>

lemma sched_new_highest:
  "kernel_ok k \<Longrightarrow> OS_SchedNew k = k\<lparr>OSPrioHighRdy := list_highest (OSRdy k)\<rparr>"
  "kernel_ok k \<Longrightarrow> unat (list_highest (OSRdy k)) = Min (ready k)"
  using plist.highest_elem [OF kernel_okD(2)] ready_not_empty
  by (simp_all add: OS_SchedNew_def list_highest_def ready_def Let_def)

lemma task_of_ready:
  assumes k: "kernel_ok k" and p: "unat p \<in> ready k"
  obtains i where "OSTCBPrioTbl k p = Tcb i" "live k i" "OSTCBPrio (tcb k i) = p" "runnable (tcb k i)"
proof -
  obtain i where i: "live k i" "prio_of k i = unat p" using kernel_okD(3) [OF k p] by (auto simp: task_at_def)
  then have e: "OSTCBPrio (tcb k i) = p" unfolding prio_of_def by (intro unsigned_word_eqI)
  note o = task_okD [OF kernel_okD(4) [OF k i(1)]]
  show thesis by (rule that [OF _ i(1) e]) (use o(2,3) e i(2) p in simp_all)
qed

lemma switch_ok:
  assumes k: "kernel_ok k" and c: "cur_ok k" and r: "OSRunning k"
  shows "cur_ok (switch_to_highest k)" "unat (OSPrioCur (switch_to_highest k)) = Min (ready k)"
    "ready (switch_to_highest k) = ready k"
proof -
  let ?h = "list_highest (OSRdy k)"
  have h: "unat ?h = Min (ready k)" "unat ?h \<in> ready k"
    using sched_new_highest(2) [OF k] Min_in [OF finite_ready ready_not_empty [OF k]] by simp_all
  obtain i where i: "OSTCBPrioTbl k ?h = Tcb i" "live k i" "OSTCBPrio (tcb k i) = ?h"
    using task_of_ready [OF k h(2)] by blast
  obtain j where j: "OSTCBCur k = Tcb j" "live k j" "OSPrioCur k = OSTCBPrio (tcb k j)" "OSPrioHighRdy k = OSPrioCur k"
    using c r by (auto simp: cur_ok_def)
  have e: "switch_to_highest k =
    (if ?h \<noteq> OSPrioCur k
     then k\<lparr>OSPrioHighRdy := ?h, OSTCBHighRdy := Tcb i, OSTCBs := (OSTCBs k)(i := (tcb k i)\<lparr>OSTCBCtxSwCtr := OSTCBCtxSwCtr (tcb k i) + 1\<rparr>),
            OSCtxSwCtr := OSCtxSwCtr k + 1, OSPrioCur := ?h, OSTCBCur := Tcb i\<rparr>
     else k\<lparr>OSPrioHighRdy := ?h, OSTCBHighRdy := Tcb i\<rparr>)"
    using i(1) by (auto simp: switch_to_highest_def Let_def sched_new_highest(1) [OF k] OS_CPU_PendSVHandler_def set_tcb_def)
  show "cur_ok (switch_to_highest k)" unfolding e cur_ok_def using i j by auto
  show "unat (OSPrioCur (switch_to_highest k)) = Min (ready k)" unfolding e using h(1) by auto
  show "ready (switch_to_highest k) = ready k" unfolding e by (simp add: ready_def)
qed

lemma switch_fields:
  "OSRunning (switch_to_highest k) = OSRunning k" "OSIntNesting (switch_to_highest k) = OSIntNesting k"
  "OSLockNesting (switch_to_highest k) = OSLockNesting k" "OSTCBList (switch_to_highest k) = OSTCBList k"
  "OSEvents (switch_to_highest k) = OSEvents k" "OSRdy (switch_to_highest k) = OSRdy k"
  by (simp_all add: switch_to_highest_def OS_SchedNew_def OS_CPU_PendSVHandler_def set_tcb_def Let_def)

text \<open>After the scheduler has run, all is in order.\<close>

lemma switch_sys_ok:
  assumes "kernel_ok k" "cur_ok k" "OSRunning k"
  shows "sys_ok (switch_to_highest k)"
  using switch_ok [OF assms] assms by (simp add: sys_ok_def sched_ok_def)

lemma sched_sys_ok:
  assumes "kernel_ok k" "cur_ok k" "OSRunning k"
  shows "sys_ok (OS_Sched k)"
  using switch_sys_ok [OF assms] assms by (simp add: OS_Sched_def sys_ok_def sched_ok_def)

lemma sys_ok_min:
  assumes "sys_ok k" "OSRunning k" "OSIntNesting k = 0" "OSLockNesting k = 0"
  shows "OSPrioCur k = OSTCBPrio (tcb k (cur k))" "live k (cur k)" "prio_of k (cur k) \<in> ready k"
    "p \<in> ready k \<Longrightarrow> prio_of k (cur k) \<le> p"
proof -
  obtain i where i: "OSTCBCur k = Tcb i" "live k i" "OSPrioCur k = OSTCBPrio (tcb k i)"
    using assms by (auto simp: sys_ok_def cur_ok_def)
  have m: "prio_of k (cur k) = Min (ready k)" using assms i by (simp add: sys_ok_def sched_ok_def prio_of_def)
  show "OSPrioCur k = OSTCBPrio (tcb k (cur k))" "live k (cur k)" using i by simp_all
  show "prio_of k (cur k) \<in> ready k"
    unfolding m using Min_in [OF finite_ready ready_not_empty] assms(1) by (simp add: sys_ok_def)
  show "prio_of k (cur k) \<le> p" if "p \<in> ready k" unfolding m using Min_le [OF finite_ready that] .
qed

section \<open>Time and suspension keep the order\<close>

lemma same_ready_sched: "same_cpu k k' \<Longrightarrow> ready k' = ready k \<Longrightarrow> sched_ok k \<Longrightarrow> sched_ok k'"
  by (simp add: same_cpu_def sched_ok_def)

lemma tick_task_fields: "same_cpu k (tick_task i k)" "OSTCBPrioTbl (tick_task i k) = OSTCBPrioTbl k"
  by (simp_all add: tick_task_def end_delay_def Let_def same_cpu_def make_ready_def set_tcb_def)

lemma tick_tasks_ok:
  "kernel_ok k \<Longrightarrow> \<forall>i \<in> set is. live k i \<Longrightarrow> kernel_ok (tick_tasks is k) \<and> same_cpu k (tick_tasks is k)"
proof (induction "is" arbitrary: k)
  case (Cons i "is")
  have f: "same_cpu k (tick_task i k)" by (rule tick_task_fields)
  then have l: "\<forall>j \<in> set is. live (tick_task i k) j" using Cons.prems by (simp add: same_cpu_def)
  show ?case
  proof (cases "OSTCBPrio (tcb k i) = OS_TASK_IDLE_PRIO")
    case False
    have "kernel_ok (tick_task i k)" by (rule tick_task_ok) (use Cons.prems False in auto)
    then show ?thesis using Cons.IH [OF _ l] False same_cpu_trans [OF f] by simp
  qed (simp add: Cons.prems)
qed simp

lemma OSTimeTick_ok:
  assumes "kernel_ok k"
  shows "kernel_ok (OSTimeTick k) \<and> same_cpu k (OSTimeTick k)"
proof -
  have *: "same_cpu k (k\<lparr>OSTime := a, OSTickStepState := s\<rparr>)" "same_cpu k (k\<lparr>OSTime := a\<rparr>)" for a s
    by (simp_all add: same_cpu_def)
  have "kernel_ok (tick_tasks (OSTCBList k) (k\<lparr>OSTime := a, OSTickStepState := s\<rparr>))
      \<and> same_cpu k (tick_tasks (OSTCBList k) (k\<lparr>OSTime := a, OSTickStepState := s\<rparr>))" for a s
    using assms tick_tasks_ok [of "k\<lparr>OSTime := a, OSTickStepState := s\<rparr>" "OSTCBList k"] same_cpu_trans [OF *(1)] by auto
  then show ?thesis using assms * by (simp add: OSTimeTick_def Let_def)
qed

text \<open>The current task is not in the middle of a call: it does not wait for an event and is not the idle task.\<close>

definition calling :: "kernel \<Rightarrow> bool" where
  "calling k \<longleftrightarrow> OSRunning k \<and> OSTCBEventPtr (tcb k (cur k)) = None \<and> OSTCBPrio (tcb k (cur k)) \<noteq> OS_TASK_IDLE_PRIO"

lemma cur_live: "cur_ok k \<Longrightarrow> OSRunning k \<Longrightarrow> live k (cur k) \<and> OSTCBCur k = Tcb (cur k) \<and> OSPrioCur k = OSTCBPrio (tcb k (cur k))"
  by (auto simp: cur_ok_def)

lemma sys_okD: "sys_ok k \<Longrightarrow> kernel_ok k" "sys_ok k \<Longrightarrow> cur_ok k" "sys_ok k \<Longrightarrow> sched_ok k"
  by (simp_all add: sys_ok_def)

lemma OSTimeDly_ok:
  assumes s: "sys_ok k" and c: "calling k"
  shows "sys_ok (OSTimeDly ticks k)"
proof (cases "0 < OSIntNesting k \<or> ticks = 0")
  case False
  let ?i = "cur k" and ?t = "tcb k (cur k)"
  let ?k = "set_tcb ?i (?t\<lparr>OSTCBDly := ticks\<rparr>) (make_unready ?i k)"
  have l: "live k ?i" "OSRunning k" using cur_live sys_okD(2) [OF s] c by (auto simp: calling_def)
  note o = task_okD [OF kernel_okD(4) [OF sys_okD(1) [OF s] l(1)]]
  have "\<not> pending ?t" using o(9) c by (auto simp: calling_def)
  then have "kernel_ok ?k"
    using set_unready [OF sys_okD(1) [OF s] l(1), of "?t\<lparr>OSTCBDly := ticks\<rparr>"] False c o(1)
    by (simp add: calling_def pending_def)
  moreover have same: "same_cpu k ?k" by (rule same_cpu_trans [of _ "make_unready ?i k"]) simp_all
  moreover have "OSRunning ?k" using l(2) same by (simp add: same_cpu_def)
  moreover have "OSTimeDly ticks k = OS_Sched ?k"
    using False by (simp add: OSTimeDly_def Let_def make_unready_def word_neq_0_conv)
  ultimately show ?thesis using sched_sys_ok same_cpu_cur [OF same sys_okD(2) [OF s]] by simp
qed (use s in \<open>auto simp: OSTimeDly_def word_neq_0_conv\<close>)

lemma OSTimeDlyHMSM_ok:
  assumes "sys_ok k" "calling k"
  shows "sys_ok (snd (OSTimeDlyHMSM h m s ms k))"
  using assms OSTimeDly_ok by (simp add: OSTimeDlyHMSM_def)

lemma prio_tbl_task:
  assumes "kernel_ok k" "OSTCBPrioTbl k p \<noteq> NoTcb" "OSTCBPrioTbl k p \<noteq> Reserved"
  shows "OSTCBPrioTbl k p = Tcb (tcb_index (OSTCBPrioTbl k p))" "live k (tcb_index (OSTCBPrioTbl k p))"
    "OSTCBPrio (tcb k (tcb_index (OSTCBPrioTbl k p))) = p"
proof -
  obtain i where i: "OSTCBPrioTbl k p = Tcb i" using assms(2,3) by (cases "OSTCBPrioTbl k p") auto
  then have "live k i" "OSTCBPrio (tcb k i) = p" using kernel_okD(1) [OF assms(1)] unfolding tables_ok_def by blast+
  then show "OSTCBPrioTbl k p = Tcb (tcb_index (OSTCBPrioTbl k p))" "live k (tcb_index (OSTCBPrioTbl k p))"
    "OSTCBPrio (tcb k (tcb_index (OSTCBPrioTbl k p))) = p"
    using i by simp_all
qed

lemma run_or_keep:
  assumes s: "sys_ok k" "OSRunning k" and k: "kernel_ok k'" and c: "same_cpu k k'" "ready k' = ready k"
  shows "sys_ok k'"
  using k same_cpu_cur [OF c(1)] same_ready_sched [OF c] s by (simp add: sys_ok_def)

lemma OSTimeDlyResume_ok:
  assumes s: "sys_ok k" "OSRunning k"
  shows "sys_ok (snd (OSTimeDlyResume p k))"
proof -
  let ?i = "tcb_index (OSTCBPrioTbl k p)"
  let ?t = "end_delay ((tcb k ?i)\<lparr>OSTCBDly := 0\<rparr>)"
  note k = sys_okD(1) [OF s(1)]
  show ?thesis
  proof (cases "p < OS_LOWEST_PRIO \<and> OSTCBPrioTbl k p \<noteq> NoTcb \<and> OSTCBPrioTbl k p \<noteq> Reserved \<and> OSTCBDly (tcb k ?i) \<noteq> 0")
    case True
    then have p: "live k ?i" "OSTCBPrio (tcb k ?i) = p" using prio_tbl_task [OF k] by blast+
    have ok: "kernel_ok (if OSTCBStat ?t AND OS_STAT_SUSPEND = OS_STAT_RDY then make_ready ?i (set_tcb ?i ?t k) else set_tcb ?i ?t k)"
      by (rule time_out_ok [OF k p(1) _ _ refl]) (use True p in auto)
    have c: "same_cpu k (set_tcb ?i ?t k)" by (simp add: end_delay_def)
    show ?thesis
    proof (cases "OSTCBStat ?t AND OS_STAT_SUSPEND = OS_STAT_RDY")
      case sus: True
      let ?k = "make_ready ?i (set_tcb ?i ?t k)"
      have c2: "same_cpu k ?k" using c same_cpu_trans same_cpu_parts(1) by blast
      then have "OSRunning ?k" using s(2) by (simp add: same_cpu_def)
      then have "sys_ok (OS_Sched ?k)" using sched_sys_ok ok sus same_cpu_cur [OF c2 sys_okD(2) [OF s(1)]] by simp
      then show ?thesis using True sus by (auto simp: OSTimeDlyResume_def Let_def)
    next
      case False
      have "ready (set_tcb ?i ?t k) = ready k" by (simp add: ready_def set_tcb_def)
      then have "sys_ok (set_tcb ?i ?t k)" using run_or_keep [OF s _ c] ok False by simp
      then show ?thesis using True False by (auto simp: OSTimeDlyResume_def Let_def)
    qed
  qed (use s in \<open>auto simp: OSTimeDlyResume_def Let_def\<close>)
qed

lemma OSTaskSuspend_ok:
  assumes s: "sys_ok k" "OSRunning k"
    and self: "p = OS_PRIO_SELF \<Longrightarrow> OSTCBPrio (tcb k (cur k)) \<noteq> OS_TASK_IDLE_PRIO"
  shows "sys_ok (snd (OSTaskSuspend p k))"
proof -
  define q where "q = (if p = OS_PRIO_SELF then OSTCBPrio (tcb k (cur k)) else p)"
  let ?i = "tcb_index (OSTCBPrioTbl k q)"
  let ?t = "(tcb k ?i)\<lparr>OSTCBStat := OSTCBStat (tcb k ?i) OR OS_STAT_SUSPEND\<rparr>"
  let ?k = "set_tcb ?i ?t (make_unready ?i k)"
  note k = sys_okD(1) [OF s(1)]
  define ok where "ok \<longleftrightarrow> p \<noteq> OS_TASK_IDLE_PRIO \<and> \<not> (OS_LOWEST_PRIO \<le> p \<and> p \<noteq> OS_PRIO_SELF)
      \<and> OSTCBPrioTbl k q \<noteq> NoTcb \<and> OSTCBPrioTbl k q \<noteq> Reserved"
  have tk: "tcb (make_unready ?i k) ?i = tcb k ?i" by simp
  have def: "OSTaskSuspend p k =
      (if p = OS_TASK_IDLE_PRIO then (OS_ERR_TASK_SUSPEND_IDLE, k)
       else if OS_LOWEST_PRIO \<le> p \<and> p \<noteq> OS_PRIO_SELF then (OS_ERR_PRIO_INVALID, k)
       else if OSTCBPrioTbl k q = NoTcb then (OS_ERR_TASK_SUSPEND_PRIO, k)
       else if OSTCBPrioTbl k q = Reserved then (OS_ERR_TASK_NOT_EXIST, k)
       else (OS_ERR_NONE, if p = OS_PRIO_SELF \<or> p = OSTCBPrio (tcb k (cur k)) then OS_Sched ?k else ?k))"
    unfolding OSTaskSuspend_def Let_def q_def [symmetric] tk ..
  show ?thesis
  proof (cases ok)
    case True
    then have n: "p \<noteq> OS_TASK_IDLE_PRIO" "\<not> (OS_LOWEST_PRIO \<le> p \<and> p \<noteq> OS_PRIO_SELF)"
      "OSTCBPrioTbl k q \<noteq> NoTcb" "OSTCBPrioTbl k q \<noteq> Reserved" unfolding ok_def by blast+
    then have i: "live k ?i" "OSTCBPrio (tcb k ?i) = q" using prio_tbl_task [OF k] by blast+
    have nidle: "q \<noteq> OS_TASK_IDLE_PRIO"
      using True self unfolding ok_def q_def by (cases "p = OS_PRIO_SELF") simp_all
    note o = task_okD [OF kernel_okD(4) [OF k i(1)]]
    have t: "tcb_ok ?t" "OSTCBStat ?t AND OS_STAT_PEND_ANY = OSTCBStat (tcb k ?i) AND OS_STAT_PEND_ANY" "OSTCBStat ?t \<noteq> 0"
      by (rule tcb_stat_cases [OF o(1)]; simp add: tcb_ok_stat o(1))+
    have pd: "pending ?t = pending (tcb k ?i)" using t(2) by (simp only: pending_def)
    have "OSTCBEventPtr ?t = None \<and> \<not> pending ?t
      \<or> OSTCBStatPend ?t = OSTCBStatPend (tcb k ?i) \<and> (\<not> pending ?t \<longrightarrow> OSTCBDly ?t = 0)"
      using task_ok_dly [OF kernel_okD(4) [OF k i(1)]] pd by auto
    then have ko: "kernel_ok ?k" using set_unready [OF k i(1), of ?t] t i nidle by simp
    have c: "same_cpu k ?k" by (rule same_cpu_trans [of _ "make_unready ?i k"]) simp_all
    then have run: "OSRunning ?k" using s(2) by (simp add: same_cpu_def)
    have cok: "cur_ok ?k" using same_cpu_cur [OF c sys_okD(2) [OF s(1)]] .
    have e: "snd (OSTaskSuspend p k) = (if p = OS_PRIO_SELF \<or> p = OSTCBPrio (tcb k (cur k)) then OS_Sched ?k else ?k)"
      unfolding def if_not_P [OF n(1)] if_not_P [OF n(2)] if_not_P [OF n(3)] if_not_P [OF n(4)] snd_conv ..
    show ?thesis
    proof (cases "p = OS_PRIO_SELF \<or> p = OSTCBPrio (tcb k (cur k))")
      case False
      have "sched_ok ?k"
        unfolding sched_ok_def
      proof
        assume "OSRunning ?k \<and> OSIntNesting ?k = 0 \<and> OSLockNesting ?k = 0"
        then have n: "OSIntNesting k = 0" "OSLockNesting k = 0" using c by (simp_all add: same_cpu_def)
        note m = sys_ok_min [OF s n]
        have r: "ready ?k = ready k - {prio_of k ?i}"
          using ready_list [OF k i(1)] list_clear_task [OF o(1)] by (simp add: ready_def set_tcb_def make_unready_def)
        have "prio_of k (cur k) \<noteq> prio_of k ?i" using False i(2) q_def unfolding prio_of_def by (metis unsigned_word_eqI)
        then have "Min (ready ?k) = prio_of k (cur k)"
          unfolding r using finite_ready m(3,4) by (intro Min_eqI) auto
        then show "unat (OSPrioCur ?k) = Min (ready ?k)" using m(1) c by (simp add: same_cpu_def prio_of_def)
      qed
      then show ?thesis using e False ko cok by (simp add: sys_ok_def)
    qed (use e sched_sys_ok [OF ko cok run] in simp)
  next
    case False
    then have "snd (OSTaskSuspend p k) = k" unfolding ok_def def by auto
    then show ?thesis using s by simp
  qed
qed

lemma OSTaskResume_ok:
  assumes s: "sys_ok k" "OSRunning k"
  shows "sys_ok (snd (OSTaskResume p k))"
proof -
  let ?i = "tcb_index (OSTCBPrioTbl k p)"
  let ?t = "(tcb k ?i)\<lparr>OSTCBStat := OSTCBStat (tcb k ?i) AND NOT OS_STAT_SUSPEND\<rparr>"
  let ?k = "set_tcb ?i ?t k"
  note k = sys_okD(1) [OF s(1)]
  show ?thesis
  proof (cases "p < OS_LOWEST_PRIO \<and> OSTCBPrioTbl k p \<noteq> NoTcb \<and> OSTCBPrioTbl k p \<noteq> Reserved
      \<and> OSTCBStat (tcb k ?i) AND OS_STAT_SUSPEND \<noteq> OS_STAT_RDY")
    case True
    then have i: "live k ?i" "OSTCBPrio (tcb k ?i) = p" using prio_tbl_task [OF k] by blast+
    note o = task_okD [OF kernel_okD(4) [OF k i(1)]]
    have t: "tcb_ok ?t" "OSTCBStat ?t AND OS_STAT_PEND_ANY = OSTCBStat (tcb k ?i) AND OS_STAT_PEND_ANY"
      by (rule tcb_stat_cases [OF o(1)]; simp add: tcb_ok_stat o(1))+
    have pd: "pending ?t = pending (tcb k ?i)" using t(2) by (simp only: pending_def)
    have sp: "OSTCBEventPtr ?t = None \<and> \<not> pending ?t
      \<or> OSTCBStatPend ?t = OSTCBStatPend (tcb k ?i) \<and> (\<not> pending ?t \<longrightarrow> OSTCBDly ?t = 0)"
      using task_ok_dly [OF kernel_okD(4) [OF k i(1)]] pd by auto
    have nr: "prio_of k ?i \<notin> ready k" using o(3) True by (auto simp: runnable_def)
    have c: "same_cpu k ?k" by simp
    show ?thesis
    proof (cases "runnable ?t")
      case r: True
      let ?k2 = "make_ready ?i ?k"
      have "?k2 = k\<lparr>OSTCBs := (OSTCBs k)(?i := ?t), OSRdy := list_add (OSTCBPrio (tcb k ?i)) (OSRdy k)\<rparr>"
        using list_or_task [OF t(1)] by (simp add: set_tcb_def make_ready_def)
      then have ko: "kernel_ok ?k2"
        using kernel_ok_status [OF k i(1) _ _ t(1), of "list_add (OSTCBPrio (tcb k ?i)) (OSRdy k)"] ready_list [OF k i(1)]
          r True i sp t(2) by auto
      have c2: "same_cpu k ?k2" using c same_cpu_trans same_cpu_parts(1) by blast
      then have "OSRunning ?k2" using s(2) by (simp add: same_cpu_def)
      then have "sys_ok (OS_Sched ?k2)" using sched_sys_ok ko same_cpu_cur [OF c2 sys_okD(2) [OF s(1)]] by simp
      moreover have "OSRunning ?k2" using c2 s(2) by (simp add: same_cpu_def)
      ultimately show ?thesis using True r by (auto simp: OSTaskResume_def Let_def runnable_def)
    next
      case nrn: False
      have "?k = k\<lparr>OSTCBs := (OSTCBs k)(?i := ?t), OSRdy := OSRdy k\<rparr>" by (simp add: set_tcb_def)
      then have ko: "kernel_ok ?k"
        using kernel_ok_status [OF k i(1) _ _ t(1), of "OSRdy k"] kernel_okD(2) [OF k] nr nrn True i sp t(2)
        by (auto simp: ready_def)
      have "ready ?k = ready k" by (simp add: ready_def set_tcb_def)
      then have "sys_ok ?k" using run_or_keep [OF s ko c] by simp
      then show ?thesis using True nrn by (auto simp: OSTaskResume_def Let_def runnable_def)
    qed
  qed (use s in \<open>auto simp: OSTaskResume_def Let_def\<close>)
qed

end
