(* ===== verification/Os_Calls.thy ===== *)
theory Os_Calls
  imports Os_Invariant
begin

text \<open>
  The services of semaphores and mutexes and the creation of tasks and events keep the invariant
  of the kernel.
\<close>

section \<open>Counting and owning\<close>

lemma set_event_view:
  "OSEvents (set_event e v k) x = (if x = e then v else OSEvents k x)" "OSTCBs (set_event e v k) = OSTCBs k"
  "OSTCBPrioTbl (set_event e v k) = OSTCBPrioTbl k" "OSTCBList (set_event e v k) = OSTCBList k"
  "OSTCBFreeList (set_event e v k) = OSTCBFreeList k" "OSEventFreeList (set_event e v k) = OSEventFreeList k"
  "OSRdy (set_event e v k) = OSRdy k"
  by (simp_all add: set_event_def)

text \<open>An event whose list of tasks stays: the count, or the owner of a mutex, changes.\<close>

lemma kernel_ok_set_event:
  assumes k: "kernel_ok k"
    and v: "OSEventType v = ev_type k e" "OSEventList v = OSEventList (OSEvents k e)"
      "ev_type k e = OS_EVENT_TYPE_MUTEX \<Longrightarrow> mutex_pip v = ev_pip k e"
      "ev_type k e \<notin> {OS_EVENT_TYPE_Q, OS_EVENT_TYPE_MUTEX} \<Longrightarrow> OSEventPtr v = ev_owner k e"
    and e: "event_ok (set_event e v k) e"
    and own: "\<And>j. live k j \<Longrightarrow> OSTCBEventPtr (tcb k j) = Some e \<Longrightarrow> ev_type k e = OS_EVENT_TYPE_MUTEX \<Longrightarrow>
        \<not> pending (tcb k j) \<Longrightarrow> OSTCBStatPend (tcb k j) = OS_STAT_PEND_OK \<Longrightarrow> OSEventPtr v = ev_owner k e"
  shows "kernel_ok (set_event e v k)"
proof -
  let ?l = "last (OSTCBList k)" and ?k = "set_event e v k"
  have idle: "live k ?l" "OSTCBEventPtr (tcb k ?l) = None" "runnable (tcb k ?l)"
    using kernel_okD(7) [OF k] by (auto simp: idle_ok_def)
  have w: "waiters ?k x = waiters k x" "ready ?k = ready k" "prio_of ?k x = prio_of k x" for x
    by (simp_all add: waiters_def ready_def prio_of_def set_event_view v(2))
  have ty: "ev_type ?k x = ev_type k x" for x by (simp add: ev_type_def set_event_view v(1) [unfolded ev_type_def])
  have lo: "list_ok (OSEventList (OSEvents k x))" for x using kernel_okD(5) [OF k, of x] by (simp add: event_ok_def)
  have pip: "ev_pip ?k x = ev_pip k x" if "ev_type k x = OS_EVENT_TYPE_MUTEX" for x
    using v(3) that by (cases "x = e") (simp_all add: ev_pip_def set_event_view)
  have ptr: "ev_owner ?k x = ev_owner k x" if "ev_type k x \<notin> {OS_EVENT_TYPE_Q, OS_EVENT_TYPE_MUTEX} \<or> x \<noteq> e" for x
    using v(4) that by (cases "x = e") (simp_all add: ev_owner_def set_event_view)
  have c: "changes_task ?l k ?k"
    unfolding changes_task_def w ty set_event_view using kernel_okD(2) [OF k] lo pip ptr v(2) by auto
  note o = task_okD [OF kernel_okD(4) [OF k idle(1)]]
  have np: "\<not> pending (tcb k ?l)" using o(9) idle(2) by blast
  show ?thesis
  proof (rule kernel_ok_change [OF k c idle(1)])
    show "task_ok ?k ?l"
      by (rule task_okI, unfold w ty set_event_view)
        (use o idle np in \<open>auto simp: runnable_def\<close>)
    show "event_ok ?k x" for x
    proof (cases "x = e")
      case False
      show ?thesis by (rule event_ok_change [OF k c idle(1)]) (simp_all add: w ptr False set_event_view)
    qed (use e in simp)
    show "ev_owner ?k x = ev_owner k x"
      if "live k j" "OSTCBEventPtr (tcb k j) = Some x" "ev_type k x = OS_EVENT_TYPE_MUTEX"
        "\<not> pending (tcb k j)" "OSTCBStatPend (tcb k j) = OS_STAT_PEND_OK" for j x
      using own [OF that(1)] that ptr [of x] by (cases "x = e") (auto simp: ev_owner_def set_event_view)
  qed (use idle in \<open>simp_all add: set_event_view\<close>)
qed

lemma set_cnt_ok:
  assumes k: "kernel_ok k" and ty: "ev_type k e = OS_EVENT_TYPE_SEM" and c: "c \<noteq> 0 \<Longrightarrow> waiters k e = {}"
  shows "kernel_ok (set_cnt e c k)"
  unfolding set_cnt_def
proof (rule kernel_ok_set_event [OF k])
  let ?v = "(OSEvents k e)\<lparr>OSEventCnt := c\<rparr>"
  have "task_at (set_event e ?v k) p = task_at k p" for p
    by (simp add: task_at_def prio_of_def set_event_view)
  moreover have "waiters (set_event e ?v k) e = waiters k e" "ev_type (set_event e ?v k) e = ev_type k e"
    by (simp_all add: waiters_def ev_type_def set_event_view)
  ultimately show "event_ok (set_event e ?v k) e"
    using kernel_okD(5) [OF k, of e] c ty by (simp add: event_ok_def set_event_view)
qed (simp_all add: ev_type_def ev_owner_def ty [unfolded ev_type_def])

lemma set_queue_ok:
  assumes k: "kernel_ok k" and ty: "ev_type k e = OS_EVENT_TYPE_Q" and q: "q_ok pq" "OSQEntries pq \<noteq> 0 \<Longrightarrow> waiters k e = {}"
  shows "kernel_ok (set_event e ((OSEvents k e)\<lparr>OSEventPtr := QueuePtr pq\<rparr>) k)"
proof (rule kernel_ok_set_event [OF k])
  let ?v = "(OSEvents k e)\<lparr>OSEventPtr := QueuePtr pq\<rparr>"
  have "task_at (set_event e ?v k) p = task_at k p" for p
    by (simp add: task_at_def prio_of_def set_event_view)
  moreover have "waiters (set_event e ?v k) e = waiters k e" "ev_type (set_event e ?v k) e = ev_type k e"
    "ev_owner (set_event e ?v k) e = QueuePtr pq"
    by (simp_all add: waiters_def ev_type_def ev_owner_def set_event_view)
  ultimately show "event_ok (set_event e ?v k) e"
    using kernel_okD(5) [OF k, of e] q ty by (simp add: event_ok_def queue_ok_def set_event_view)
qed (simp_all add: ev_type_def ev_owner_def ty [unfolded ev_type_def])

section \<open>Starting to wait\<close>

text \<open>What the current task becomes, in one update of the state.\<close>

definition waiting_tcb :: "nat \<Rightarrow> u8 \<Rightarrow> u32 \<Rightarrow> OS_TCB \<Rightarrow> OS_TCB" where
  "waiting_tcb e stat timeout t =
     t\<lparr>OSTCBStat := OSTCBStat t OR stat, OSTCBStatPend := OS_STAT_PEND_OK, OSTCBDly := timeout, OSTCBEventPtr := Some e\<rparr>"

lemma waiting_tcb_ok:
  assumes "tcb_ok t" "\<not> pending t" "stat \<in> {1, 4, 0x10}"
  shows "tcb_ok (waiting_tcb e stat timeout t) \<and> pending (waiting_tcb e stat timeout t)
    \<and> OSTCBStat (waiting_tcb e stat timeout t) AND OS_STAT_PEND_ANY = stat \<and> \<not> runnable (waiting_tcb e stat timeout t)"
  by (rule tcb_stat_cases [OF assms(1)];
    use assms(2,3) in \<open>auto simp: waiting_tcb_def tcb_ok_stat assms(1) pending_def runnable_def\<close>)

lemma wait_for_eq:
  assumes "tcb_ok (tcb k (cur k))"
  shows "wait_for e stat timeout k =
    k\<lparr>OSTCBs := (OSTCBs k)(cur k := waiting_tcb e stat timeout (tcb k (cur k))),
      OSEvents := (OSEvents k)(e := (OSEvents k e)\<lparr>OSEventList := list_add (OSTCBPrio (tcb k (cur k))) (OSEventList (OSEvents k e))\<rparr>),
      OSRdy := list_remove (OSTCBPrio (tcb k (cur k))) (OSRdy k)\<rparr>"
  by (simp add: wait_for_def OS_EventTaskWait_def waiting_tcb_def set_tcb_def set_event_def make_unready_def Let_def
      list_or_task [OF assms] list_clear_task [OF assms])

lemma wait_for_ok:
  assumes k: "kernel_ok k" and i: "live k (cur k)" and idle: "OSTCBPrio (tcb k (cur k)) \<noteq> OS_TASK_IDLE_PRIO"
    and none: "OSTCBEventPtr (tcb k (cur k)) = None"
    and stat: "stat = type_mask (ev_type k e)"
    and sem: "ev_type k e = OS_EVENT_TYPE_SEM \<and> OSEventCnt (OSEvents k e) = 0
      \<or> ev_type k e = OS_EVENT_TYPE_MUTEX \<and> lower8 (OSEvents k e) \<noteq> 0xFF \<and> OSTCBPrio (tcb k (cur k)) < ev_pip k e
      \<or> ev_type k e = OS_EVENT_TYPE_Q \<and> OSQEntries (queue_block (ev_owner k e)) = 0"
  shows "kernel_ok (wait_for e stat timeout k)" (is "kernel_ok ?k")
proof -
  let ?i = "cur k" and ?t = "tcb k (cur k)" and ?p = "prio_of k (cur k)"
  let ?t' = "waiting_tcb e stat timeout ?t"
  have ok: "tcb_ok ?t" using kernel_okD(8) [OF k i] .
  note o = task_okD [OF kernel_okD(4) [OF k i]]
  note eq = wait_for_eq [OF ok, of e stat timeout]
  have np: "\<not> pending ?t" using o(9) none by blast
  have nw: "?p \<notin> waiters k x" for x using o(4) none by fastforce
  have m: "stat \<in> {1, 4, 0x10}" using stat by (simp add: type_mask_def)
  have t': "tcb_ok ?t'" "pending ?t'" "OSTCBStat ?t' AND OS_STAT_PEND_ANY = stat" "\<not> runnable ?t'"
    using waiting_tcb_ok [OF ok np m] by blast+
  have ti: "tcb ?k ?i = ?t'" "j \<noteq> ?i \<Longrightarrow> tcb ?k j = tcb k j" for j by (simp_all add: eq)
  have pr: "OSTCBPrio ?t' = OSTCBPrio ?t" "OSTCBEventPtr ?t' = Some e" by (simp_all add: waiting_tcb_def)
  have le: "list_ok (OSEventList (OSEvents k x))" for x using kernel_okD(5) [OF k, of x] by (simp add: event_ok_def)
  have la: "list_ok (list_add (OSTCBPrio ?t) (OSEventList (OSEvents k e)))
      \<and> prios (list_add (OSTCBPrio ?t) (OSEventList (OSEvents k e))) = insert ?p (waiters k e)"
    using plist.add_elem [OF le tcb_ok_prio [OF ok]] by (simp add: waiters_def prio_of_def)
  have w: "waiters ?k x = (if x = e then insert ?p (waiters k x) else waiters k x)"
    "list_ok (OSEventList (OSEvents ?k x))" for x
    using la le by (simp_all add: waiters_def eq)
  have ev: "ev_type ?k x = ev_type k x" "ev_pip ?k x = ev_pip k x" "ev_owner ?k x = ev_owner k x"
    "OSEventCnt (OSEvents ?k x) = OSEventCnt (OSEvents k x)" for x
    by (simp_all add: ev_type_def ev_pip_def ev_owner_def mutex_pip_def eq)
  have rd: "ready ?k = ready k - {?p}" "list_ok (OSRdy ?k)"
    using ready_list [OF k i] by (simp_all add: ready_def eq)
  have c: "changes_task ?i k ?k"
    unfolding changes_task_def rd ev using rd w ti pr(1) by (auto simp: eq)
  have pi: "prio_of ?k ?i = ?p" by (rule changes_taskD(12) [OF c])
  show ?thesis
  proof (rule kernel_ok_change [OF k c i])
    show "task_ok ?k ?i"
    proof (rule task_okI, unfold ti ev pi rd pr)
      show "OSTCBPrioTbl ?k (OSTCBPrio ?t) = Tcb ?i" using o(2) by (simp add: eq)
      show "Some e = Some x \<and> (pending ?t' \<or> OSTCBStatPend ?t' = OS_STAT_PEND_TO)
          \<and> (ev_type k x = OS_EVENT_TYPE_MUTEX \<longrightarrow> OSTCBPrio ?t < ev_pip k x)" if "?p \<in> waiters ?k x" for x
        using that nw w(1) [of x] t'(2) sem by (auto split: if_splits)
      show "ev_type k x = OS_EVENT_TYPE_SEM \<or> ev_type k x = OS_EVENT_TYPE_Q \<or> ev_type k x = OS_EVENT_TYPE_MUTEX" if "Some e = Some x" for x
        using that sem by auto
      show "\<exists>x. Some e = Some x \<and> ?p \<in> waiters ?k x \<and> OSTCBStat ?t' AND OS_STAT_PEND_ANY = type_mask (ev_type k x)"
        using t'(3) stat w(1) by auto
    qed (use t' in \<open>auto simp: pending_def\<close>)
    show "event_ok ?k x" for x
    proof (cases "x = e")
      case True
      have "task_at ?k ?p" using i changes_taskD(15) [OF c] by (auto simp: task_at_def)
      then have ta: "\<forall>q \<in> waiters ?k e. task_at ?k q"
        using kernel_okD(5) [OF k, of e] changes_taskD(15) [OF c] w(1) [of e] by (auto simp: event_ok_def)
      have "mutex_ok ?k e" if "ev_type k e = OS_EVENT_TYPE_MUTEX"
      proof -
        have "mutex_ok k e" using kernel_okD(5) [OF k, of e] that by (simp add: event_ok_def)
        moreover have "lower8 (OSEvents ?k e) = lower8 (OSEvents k e)" by (simp add: lower8_def ev)
        ultimately show ?thesis
          using sem that unfolding mutex_ok_def ev changes_taskD(1,2,11) [OF c] by auto
      qed
      moreover have "queue_ok ?k e" if "ev_type k e = OS_EVENT_TYPE_Q"
        using kernel_okD(5) [OF k, of e] sem that by (auto simp: event_ok_def queue_ok_def ev)
      ultimately show ?thesis using w(2) ta sem ev True unfolding event_ok_def by auto
    next
      case False
      show ?thesis by (rule event_ok_change [OF k c i]) (use False ev w in auto)
    qed
  qed (use ev idle in auto)
qed

section \<open>Waking the highest task\<close>

definition woken_tcb :: "u32 \<Rightarrow> u8 \<Rightarrow> u8 \<Rightarrow> OS_TCB \<Rightarrow> OS_TCB" where
  "woken_tcb msg msk st t =
     t\<lparr>OSTCBDly := 0, OSTCBMsg := msg, OSTCBStat := OSTCBStat t AND NOT msk, OSTCBStatPend := st\<rparr>"

definition first_waiter :: "kernel \<Rightarrow> nat \<Rightarrow> nat" where
  "first_waiter k e = tcb_index (OSTCBPrioTbl k (list_highest (OSEventList (OSEvents k e))))"

lemma first_waiter_task:
  assumes k: "kernel_ok k" and w: "waiters k e \<noteq> {}"
  defines "h \<equiv> list_highest (OSEventList (OSEvents k e))"
  shows "OSTCBPrioTbl k h = Tcb (first_waiter k e)" "live k (first_waiter k e)" "OSTCBPrio (tcb k (first_waiter k e)) = h"
    "unat h = Min (waiters k e)" "prio_of k (first_waiter k e) \<in> waiters k e"
    "OSTCBEventPtr (tcb k (first_waiter k e)) = Some e"
    "q \<in> waiters k e \<Longrightarrow> prio_of k (first_waiter k e) \<le> q"
proof -
  have l: "list_ok (OSEventList (OSEvents k e))" "\<forall>p \<in> waiters k e. task_at k p"
    using kernel_okD(5) [OF k, of e] by (simp_all add: event_ok_def)
  have ne: "prios (OSEventList (OSEvents k e)) \<noteq> {}" using w by (simp add: waiters_def)
  show m: "unat h = Min (waiters k e)" using list_highest_least [OF l(1) ne] by (simp add: h_def waiters_def)
  have hin: "unat h \<in> waiters k e" using plist.highest_in [OF l(1) ne] by (simp add: h_def waiters_def)
  then obtain i where i: "live k i" "prio_of k i = unat h" using l(2) by (auto simp: task_at_def)
  then have e: "OSTCBPrio (tcb k i) = h" unfolding prio_of_def by (intro unsigned_word_eqI)
  have t: "OSTCBPrioTbl k h = Tcb i" using task_okD(2) [OF kernel_okD(4) [OF k i(1)]] e by simp
  then have fi: "first_waiter k e = i" by (simp add: first_waiter_def h_def)
  show "OSTCBPrioTbl k h = Tcb (first_waiter k e)" "live k (first_waiter k e)" "OSTCBPrio (tcb k (first_waiter k e)) = h"
    "prio_of k (first_waiter k e) \<in> waiters k e"
    using t i e hin by (simp_all add: fi)
  show "OSTCBEventPtr (tcb k (first_waiter k e)) = Some e"
    unfolding fi by (rule task_okD(4) [OF kernel_okD(4) [OF k i(1)]]) (use i hin in simp)
  show "prio_of k (first_waiter k e) \<le> q" if "q \<in> waiters k e"
    unfolding fi i(2) using plist.highest_le [OF l(1), of q] that by (simp add: h_def waiters_def)
qed

lemma task_rdy_eq:
  assumes k: "kernel_ok k" and w: "waiters k e \<noteq> {}"
  defines "h \<equiv> list_highest (OSEventList (OSEvents k e))" and "i \<equiv> first_waiter k e"
  shows "OS_EventTaskRdy e msg msk st k =
    (h, k\<lparr>OSTCBs := (OSTCBs k)(i := woken_tcb msg msk st (tcb k i)),
          OSRdy := (if (OSTCBStat (tcb k i) AND NOT msk) AND OS_STAT_SUSPEND = 0 then list_add h (OSRdy k) else OSRdy k),
          OSEvents := (OSEvents k)(e := (OSEvents k e)\<lparr>OSEventList := list_remove h (OSEventList (OSEvents k e))\<rparr>)\<rparr>)"
proof -
  note f = first_waiter_task [OF k w, folded h_def i_def]
  have ok: "tcb_ok (tcb k i)" using kernel_okD(8) [OF k f(2)] .
  have ne: "prios (OSEventList (OSEvents k e)) \<noteq> {}" using w by (simp add: waiters_def)
  have l: "list_ok (OSEventList (OSEvents k e))" using kernel_okD(5) [OF k, of e] by (simp add: event_ok_def)
  have y: "OSUnMapTbl ! unat (fst (OSEventList (OSEvents k e))) = OSTCBY (tcb k i)"
    using list_highest_y [OF l ne] ok f(3) by (simp add: tcb_ok_def h_def)
  have h: "push_bit 3 (OSTCBY (tcb k i)) + OSUnMapTbl ! unat (snd (OSEventList (OSEvents k e)) ! unat (OSTCBY (tcb k i))) = h"
    unfolding y [symmetric] by (simp add: h_def list_highest_def Let_def)
  have wok: "OSTCBY (woken_tcb msg msk st (tcb k i)) = OSTCBY (tcb k i)"
    "OSTCBBitX (woken_tcb msg msk st (tcb k i)) = OSTCBBitX (tcb k i)"
    "OSTCBBitY (woken_tcb msg msk st (tcb k i)) = OSTCBBitY (tcb k i)"
    "OSTCBStat (woken_tcb msg msk st (tcb k i)) = OSTCBStat (tcb k i) AND NOT msk"
    by (simp_all add: woken_tcb_def)
  have fold: "(tcb k i)\<lparr>OSTCBDly := 0, OSTCBMsg := msg, OSTCBStat := OSTCBStat (tcb k i) AND NOT msk, OSTCBStatPend := st\<rparr>
      = woken_tcb msg msk st (tcb k i)" by (simp add: woken_tcb_def)
  have rm: "OS_EventTaskRemove i e k' = set_event e ((OSEvents k e)\<lparr>OSEventList := list_remove h (OSEventList (OSEvents k e))\<rparr>) k'"
    if "OSEvents k' = OSEvents k" "tcb k' i = woken_tcb msg msk st (tcb k i)" for k'
    using list_clear_task [OF ok] by (simp add: OS_EventTaskRemove_def Let_def that wok f(3))
  show ?thesis
    unfolding OS_EventTaskRdy_def Let_def y h f(1) tcb_index.simps fold wok
    using list_or_task [OF ok] by (simp add: rm set_tcb_def set_event_def f(3))
qed

lemma woken_tcb_ok:
  assumes "tcb_ok t" "pending t \<Longrightarrow> OSTCBStat t AND OS_STAT_PEND_ANY = msk" "msk \<in> {1, 4, 0x10}"
  shows "tcb_ok (woken_tcb msg msk st t) \<and> \<not> pending (woken_tcb msg msk st t)
    \<and> (runnable (woken_tcb msg msk st t) \<longleftrightarrow> (OSTCBStat t AND NOT msk) AND OS_STAT_SUSPEND = 0)
    \<and> (\<not> pending t \<longrightarrow> OSTCBStat t AND NOT msk = OSTCBStat t)"
  by (rule tcb_stat_cases [OF assms(1)];
    use assms(2,3) in \<open>auto simp: woken_tcb_def tcb_ok_stat assms(1) pending_def runnable_def\<close>)

text \<open>
  The highest waiting task is readied; a mutex is handed to it, when nobody else was told that he
  has it.
\<close>

lemma wake_ok:
  fixes msg :: u32 and st :: u8
  assumes k: "kernel_ok k" and w: "waiters k e \<noteq> {}"
    and msk: "msk = type_mask (ev_type k e)"
  defines "i \<equiv> first_waiter k e"
  assumes v: "(ev_type k e = OS_EVENT_TYPE_SEM \<or> ev_type k e = OS_EVENT_TYPE_Q) \<and> c = OSEventCnt (OSEvents k e) \<and> p = ev_owner k e
      \<or> ev_type k e = OS_EVENT_TYPE_MUTEX \<and> p = OwnerPtr i
        \<and> ucast (drop_bit 8 c) = ev_pip k e \<and> (ucast (c AND OS_MUTEX_KEEP_LOWER_8) :: u8) = OSTCBPrio (tcb k i)
        \<and> (\<forall>j. live k j \<and> OSTCBEventPtr (tcb k j) = Some e \<and> \<not> pending (tcb k j) \<longrightarrow> OSTCBStatPend (tcb k j) \<noteq> OS_STAT_PEND_OK)"
  defines "k1 \<equiv> snd (OS_EventTaskRdy e msg msk st k)"
  shows "kernel_ok (set_event e ((OSEvents k1 e)\<lparr>OSEventCnt := c, OSEventPtr := p\<rparr>) k1)" (is "kernel_ok ?k")
proof -
  let ?h = "list_highest (OSEventList (OSEvents k e))" and ?t = "tcb k i" and ?p = "prio_of k i"
  let ?t' = "woken_tcb msg msk st ?t"
  note f = first_waiter_task [OF k w, folded i_def]
  note eq = task_rdy_eq [OF k w, folded i_def, of msg msk st]
  note o = task_okD [OF kernel_okD(4) [OF k f(2)]]
  have ph: "unat ?h = ?p" using f(3) by (simp add: prio_of_def)
  have m: "msk \<in> {1, 4, 0x10}" using msk by (simp add: type_mask_def)
  have "OSTCBStat ?t AND OS_STAT_PEND_ANY = msk" if "pending ?t" using o(8) [OF that f(6)] msk by simp
  note t' = woken_tcb_ok [OF o(1) this m, of msg st]
  have le: "list_ok (OSEventList (OSEvents k x))" for x using kernel_okD(5) [OF k, of x] by (simp add: event_ok_def)
  have lr: "list_ok (list_remove ?h (OSEventList (OSEvents k e)))
      \<and> prios (list_remove ?h (OSEventList (OSEvents k e))) = waiters k e - {?p}"
    using plist.remove_elem [OF le, of ?h e] tcb_ok_prio [OF o(1)] f(3) ph by (simp add: waiters_def)
  have ti: "tcb ?k i = ?t'" "j \<noteq> i \<Longrightarrow> tcb ?k j = tcb k j" for j by (simp_all add: k1_def eq set_event_def)
  have pr: "OSTCBPrio ?t' = OSTCBPrio ?t" "OSTCBEventPtr ?t' = Some e" "OSTCBDly ?t' = 0"
    using f(6) by (simp_all add: woken_tcb_def)
  have wt: "waiters ?k x = (if x = e then waiters k x - {?p} else waiters k x)"
    "list_ok (OSEventList (OSEvents ?k x))" for x
    using lr le by (simp_all add: waiters_def k1_def eq set_event_def)
  have ev: "ev_type ?k x = ev_type k x"
    "ev_type k x = OS_EVENT_TYPE_MUTEX \<Longrightarrow> ev_pip ?k x = ev_pip k x"
    "ev_type k x \<noteq> OS_EVENT_TYPE_MUTEX \<or> x \<noteq> e \<Longrightarrow> ev_owner ?k x = ev_owner k x"
    "ev_type k x \<noteq> OS_EVENT_TYPE_MUTEX \<or> x \<noteq> e \<Longrightarrow> OSEventCnt (OSEvents ?k x) = OSEventCnt (OSEvents k x)" for x
    using v by (auto simp: ev_type_def ev_pip_def ev_owner_def mutex_pip_def k1_def eq set_event_def)
  have own: "ev_owner ?k e = p" "OSEventCnt (OSEvents ?k e) = c" by (simp_all add: ev_owner_def k1_def eq set_event_def)
  have rdy: "OSRdy ?k = (if runnable ?t' then list_add (OSTCBPrio ?t) (OSRdy k) else OSRdy k)"
    using t' f(3) by (simp add: k1_def eq set_event_def)
  have "?p \<notin> ready k" if "\<not> runnable ?t'"
  proof -
    have "\<not> runnable ?t"
      using that t' by (cases "pending ?t") (auto simp: runnable_def pending_def)
    then show ?thesis using o(3) by simp
  qed
  then have rd: "ready ?k = (if runnable ?t' then insert ?p (ready k) else ready k - {?p})" "list_ok (OSRdy ?k)"
    using ready_list [OF k f(2)] kernel_okD(2) [OF k] by (auto simp: ready_def rdy)
  have tabs: "OSTCBPrioTbl ?k = OSTCBPrioTbl k" "OSTCBList ?k = OSTCBList k" "OSTCBFreeList ?k = OSTCBFreeList k"
    "OSEventFreeList ?k = OSEventFreeList k" by (simp_all add: k1_def eq set_event_def)
  have "\<forall>j. j \<noteq> i \<longrightarrow> tcb ?k j = tcb k j" "OSTCBPrio (tcb ?k i) = OSTCBPrio ?t" using ti pr(1) by simp_all
  then have c: "changes_task i k ?k"
    unfolding changes_task_def tabs using rd wt ev by auto
  have pi: "prio_of ?k i = ?p" by (rule changes_taskD(12) [OF c])
  have nw: "?p \<notin> waiters ?k x" for x using wt(1) [of x] o(4) [of x] f(6) by auto
  show ?thesis
  proof (rule kernel_ok_change [OF k c f(2)])
    show "task_ok ?k i"
    proof (rule task_okI, unfold ti(1) pi pr)
      show "ev_owner ?k x = OwnerPtr i"
        if "Some e = Some x" "ev_type ?k x = OS_EVENT_TYPE_MUTEX" for x using that own v ev(1) by auto
      show "ev_type ?k x = OS_EVENT_TYPE_SEM \<or> ev_type ?k x = OS_EVENT_TYPE_Q \<or> ev_type ?k x = OS_EVENT_TYPE_MUTEX" if "Some e = Some x" for x
        using that v ev(1) by auto
    qed (use t' o(2) rd nw tabs in auto)
    show "event_ok ?k x" for x
    proof (cases "x = e \<and> ev_type k e = OS_EVENT_TYPE_MUTEX")
      case False
      then have ne: "ev_type k x \<noteq> OS_EVENT_TYPE_MUTEX \<or> x \<noteq> e" by auto
      show ?thesis by (rule event_ok_change [OF k c f(2) ev(4) [OF ne] ev(3) [OF ne]]) (use nw in simp)
    next
      case True
      then have te: "ev_type k e = OS_EVENT_TYPE_MUTEX" by simp
      have "OSTCBPrio ?t < ev_pip k e" using o(6) [OF f(5) te] .
      moreover have "mutex_ok k e" using kernel_okD(5) [OF k, of e] True by (simp add: event_ok_def)
      ultimately have "mutex_ok ?k e"
        using v True f(2) own unfolding mutex_ok_def lower8_def tabs changes_taskD(11) [OF c] ev(2) [OF te]
        by auto
      then show ?thesis
        using True wt kernel_okD(5) [OF k, of e] changes_taskD(15) [OF c] ev(1) by (auto simp: event_ok_def)
    qed
    show "ev_owner ?k x = ev_owner k x"
      if "live k j" "OSTCBEventPtr (tcb k j) = Some x" "ev_type k x = OS_EVENT_TYPE_MUTEX"
        "\<not> pending (tcb k j)" "OSTCBStatPend (tcb k j) = OS_STAT_PEND_OK" for j x
      using v that ev(3) [of x] by (cases "x = e") auto
    show "runnable (tcb ?k i) \<and> OSTCBEventPtr (tcb ?k i) = None" if "OSTCBPrio ?t = OS_TASK_IDLE_PRIO"
    proof -
      show ?thesis using idle_task(3,5) [OF k] f(1,3,6) that by simp
    qed
  qed
qed

lemma wake_event_ok:
  assumes k: "kernel_ok k" and w: "waiters k e \<noteq> {}" and ty: "ev_type k e = OS_EVENT_TYPE_SEM \<or> ev_type k e = OS_EVENT_TYPE_Q"
  shows "kernel_ok (snd (OS_EventTaskRdy e msg (type_mask (ev_type k e)) st k))"
proof -
  let ?k1 = "snd (OS_EventTaskRdy e msg (type_mask (ev_type k e)) st k)"
  have "set_event e ((OSEvents ?k1 e)\<lparr>OSEventCnt := OSEventCnt (OSEvents k e), OSEventPtr := ev_owner k e\<rparr>) ?k1 = ?k1"
    by (simp add: task_rdy_eq [OF k w] set_event_def ev_owner_def)
  then show ?thesis using wake_ok [OF k w, of "type_mask (ev_type k e)" "OSEventCnt (OSEvents k e)" "ev_owner k e" msg st] ty
    by auto
qed

lemma wake_sem_ok: "kernel_ok k \<Longrightarrow> waiters k e \<noteq> {} \<Longrightarrow> ev_type k e = OS_EVENT_TYPE_SEM \<Longrightarrow>
    kernel_ok (snd (OS_EventTaskRdy e msg OS_STAT_SEM st k))"
  using wake_event_ok [of k e msg st] by (simp add: type_mask_def)

lemma wake_queue_ok: "kernel_ok k \<Longrightarrow> waiters k e \<noteq> {} \<Longrightarrow> ev_type k e = OS_EVENT_TYPE_Q \<Longrightarrow>
    kernel_ok (snd (OS_EventTaskRdy e msg OS_STAT_Q st k))"
  using wake_event_ok [of k e msg st] by (simp add: type_mask_def)

lemma task_rdy_cpu:
  assumes "kernel_ok k" "waiters k e \<noteq> {}"
  shows "same_cpu k (snd (OS_EventTaskRdy e msg msk st k))"
  by (simp add: task_rdy_eq [OF assms] same_cpu_def woken_tcb_def)

section \<open>The end of a wait\<close>

text \<open>The current task is in the middle of a call that waited for the event, and runs again.\<close>

definition returning :: "nat \<Rightarrow> kernel \<Rightarrow> bool" where
  "returning e k \<longleftrightarrow> OSRunning k \<and> OSIntNesting k = 0 \<and> OSLockNesting k = 0 \<and> OSTCBEventPtr (tcb k (cur k)) = Some e"

definition done_tcb :: "OS_TCB \<Rightarrow> OS_TCB" where
  "done_tcb t = t\<lparr>OSTCBStat := OS_STAT_RDY, OSTCBStatPend := OS_STAT_PEND_OK, OSTCBEventPtr := None\<rparr>"

lemma pend_end_eq:
  assumes "tcb_ok (tcb k (cur k))"
  shows "snd (pend_end e k) =
    k\<lparr>OSTCBs := (OSTCBs k)(cur k := done_tcb (tcb k (cur k))),
      OSEvents := (if OSTCBStatPend (tcb k (cur k)) \<in> {OS_STAT_PEND_OK, OS_STAT_PEND_ABORT} then OSEvents k
        else (OSEvents k)(e := (OSEvents k e)\<lparr>OSEventList := list_remove (OSTCBPrio (tcb k (cur k))) (OSEventList (OSEvents k e))\<rparr>))\<rparr>"
  by (simp add: pend_end_def done_tcb_def OS_EventTaskRemove_def set_tcb_def set_event_def Let_def list_clear_task [OF assms])

lemma runnable_cur:
  assumes s: "sys_ok k" "OSRunning k" "OSIntNesting k = 0" "OSLockNesting k = 0"
  shows "runnable (tcb k (cur k))"
  using task_okD(3) [OF kernel_okD(4) [OF sys_okD(1) [OF s(1)] sys_ok_min(2) [OF s]]] sys_ok_min(3) [OF s] by simp

lemma pend_end_ok:
  assumes s: "sys_ok k" and r: "returning e k"
  shows "sys_ok (snd (pend_end e k))"
proof -
  let ?i = "cur k" and ?t = "tcb k (cur k)" and ?p = "prio_of k (cur k)" and ?k = "snd (pend_end e k)"
  note k = sys_okD(1) [OF s]
  have run: "OSRunning k" "OSIntNesting k = 0" "OSLockNesting k = 0" "OSTCBEventPtr ?t = Some e"
    using r by (simp_all add: returning_def)
  note m = sys_ok_min [OF s run(1-3)]
  note o = task_okD [OF kernel_okD(4) [OF k m(2)]]
  note eq = pend_end_eq [OF o(1), of e]
  have ra: "runnable ?t" by (rule runnable_cur [OF s run(1-3)])
  then have np: "\<not> pending ?t" by (simp add: runnable_def pending_def)
  let ?out = "OSTCBStatPend ?t \<notin> {OS_STAT_PEND_OK, OS_STAT_PEND_ABORT}"
  have le: "list_ok (OSEventList (OSEvents k x))" for x using kernel_okD(5) [OF k, of x] by (simp add: event_ok_def)
  have lr: "list_ok (list_remove (OSTCBPrio ?t) (OSEventList (OSEvents k e)))
      \<and> prios (list_remove (OSTCBPrio ?t) (OSEventList (OSEvents k e))) = waiters k e - {?p}"
    using plist.remove_elem [OF le tcb_ok_prio [OF o(1)], of e] by (simp add: waiters_def prio_of_def)
  have ti: "tcb ?k ?i = done_tcb ?t" "j \<noteq> ?i \<Longrightarrow> tcb ?k j = tcb k j" for j by (simp_all add: eq)
  have pr: "OSTCBPrio (done_tcb ?t) = OSTCBPrio ?t" "OSTCBEventPtr (done_tcb ?t) = None" "runnable (done_tcb ?t)"
    "\<not> pending (done_tcb ?t)" "tcb_ok (done_tcb ?t)"
    using ra o(1) by (simp_all add: done_tcb_def runnable_def pending_def tcb_ok_def)
  have wt: "waiters ?k x = (if x = e \<and> ?out then waiters k x - {?p} else waiters k x)"
    "list_ok (OSEventList (OSEvents ?k x))" for x
    using lr le by (simp_all add: waiters_def eq)
  have ev: "ev_type ?k x = ev_type k x" "ev_pip ?k x = ev_pip k x" "ev_owner ?k x = ev_owner k x"
    "OSEventCnt (OSEvents ?k x) = OSEventCnt (OSEvents k x)" for x
    by (simp_all add: ev_type_def ev_pip_def ev_owner_def mutex_pip_def eq)
  have rd: "ready ?k = ready k" "OSRdy ?k = OSRdy k" by (simp_all add: ready_def eq)
  have tabs: "OSTCBPrioTbl ?k = OSTCBPrioTbl k" "OSTCBList ?k = OSTCBList k" "OSTCBFreeList ?k = OSTCBFreeList k"
    "OSEventFreeList ?k = OSEventFreeList k" by (simp_all add: eq)
  have "\<forall>j. j \<noteq> ?i \<longrightarrow> tcb ?k j = tcb k j" "OSTCBPrio (tcb ?k ?i) = OSTCBPrio ?t" using ti pr(1) by simp_all
  then have c: "changes_task ?i k ?k"
    unfolding changes_task_def tabs rd ev using wt kernel_okD(2) [OF k] by auto
  have pi: "prio_of ?k ?i = ?p" by (rule changes_taskD(12) [OF c])
  have nw: "?p \<notin> waiters ?k x" for x
  proof
    assume "?p \<in> waiters ?k x"
    then have x: "?p \<in> waiters k x" "\<not> (x = e \<and> ?out)" using wt(1) [of x] by (auto split: if_splits)
    then have "x = e" "OSTCBStatPend ?t = OS_STAT_PEND_TO" using o(4,5) [OF x(1)] run(4) np by auto
    then show False using x(2) by simp
  qed
  have ko: "kernel_ok ?k"
  proof (rule kernel_ok_change [OF k c m(2)])
    show "task_ok ?k ?i"
      by (rule task_okI, unfold ti(1) pi pr(1,2)) (use pr o(2) m(3) nw tabs rd in simp_all)
    show "event_ok ?k x" for x
      by (rule event_ok_change [OF k c m(2)]) (use ev nw in simp_all)
  qed (use ev ti pr in simp_all)
  have "same_cpu k ?k" using pr(1) by (simp add: same_cpu_def eq)
  then show ?thesis using run_or_keep [OF s run(1) ko _ rd(1)] by blast
qed

section \<open>Mutexes\<close>

lemma mutex_masks: "(0x00FF :: u16) = mask 8" "(0xFF00 :: u16) = push_bit 8 (mask 8)" "(0xFF :: u8) = mask 8"
  by (simp_all add: mask_eq_exp_minus_1 push_bit_eq_mult)

lemma no_bit_u8: "8 \<le> n \<Longrightarrow> \<not> bit (p :: u8) n"
  using bit_imp_le_length [of p n] by auto

lemma mutex_count:
  fixes p :: u8 and c :: u16
  shows "ucast (drop_bit 8 (c AND 0xFF00 OR ucast p)) = (ucast (drop_bit 8 c) :: u8)"
    "ucast ((c AND 0xFF00 OR ucast p) AND 0x00FF) = p"
    "ucast (drop_bit 8 (c OR 0x00FF)) = (ucast (drop_bit 8 c) :: u8)"
    "ucast ((c OR 0x00FF) AND 0x00FF) = (0xFF :: u8)"
    "ucast (drop_bit 8 (push_bit 8 (ucast p) OR (0x00FF :: u16))) = p"
    "ucast ((push_bit 8 (ucast p) OR 0x00FF) AND (0x00FF :: u16)) = (0xFF :: u8)"
  unfolding mutex_masks by (rule bit_word_eqI; auto simp: bit_simps no_bit_u8)+

lemma free_mutex: "(c :: u16) AND OS_MUTEX_KEEP_LOWER_8 = OS_MUTEX_AVAILABLE \<longleftrightarrow> ucast (c AND OS_MUTEX_KEEP_LOWER_8) = (0xFF :: u8)"
proof
  assume "ucast (c AND OS_MUTEX_KEEP_LOWER_8) = (0xFF :: u8)"
  then have "(ucast (ucast (c AND OS_MUTEX_KEEP_LOWER_8) :: u8) :: u16) = OS_MUTEX_AVAILABLE" by simp
  moreover have "(ucast (ucast (c AND OS_MUTEX_KEEP_LOWER_8) :: u8) :: u16) = c AND OS_MUTEX_KEEP_LOWER_8"
    unfolding mutex_masks by (rule bit_word_eqI) (auto simp: bit_simps)
  ultimately show "c AND OS_MUTEX_KEEP_LOWER_8 = OS_MUTEX_AVAILABLE" by simp
qed simp

lemma mutex_okD:
  assumes k: "kernel_ok k" and ty: "ev_type k e = OS_EVENT_TYPE_MUTEX"
  shows "unat (ev_pip k e) < 25" "OSTCBPrioTbl k (ev_pip k e) = Reserved"
    "lower8 (OSEvents k e) = 0xFF \<Longrightarrow> ev_owner k e = NullPtr \<and> waiters k e = {}"
    "lower8 (OSEvents k e) \<noteq> 0xFF \<Longrightarrow> \<exists>i. ev_owner k e = OwnerPtr i \<and> live k i
       \<and> lower8 (OSEvents k e) = OSTCBPrio (tcb k i) \<and> OSTCBPrio (tcb k i) < ev_pip k e"
proof -
  have m: "mutex_ok k e" using kernel_okD(5) [OF k, of e] ty by (simp add: event_ok_def)
  then show "unat (ev_pip k e) < 25" "OSTCBPrioTbl k (ev_pip k e) = Reserved" by (simp_all add: mutex_ok_def)
  show "ev_owner k e = NullPtr \<and> waiters k e = {}" if "lower8 (OSEvents k e) = 0xFF"
  proof -
    have "OSTCBPrio (tcb k i) \<noteq> 0xFF" if "live k i" for i using kernel_okD(8) [OF k that] by (auto simp: tcb_ok_def)
    then show ?thesis using m that unfolding mutex_ok_def by metis
  qed
  show "\<exists>i. ev_owner k e = OwnerPtr i \<and> live k i \<and> lower8 (OSEvents k e) = OSTCBPrio (tcb k i)
      \<and> OSTCBPrio (tcb k i) < ev_pip k e" if "lower8 (OSEvents k e) \<noteq> 0xFF"
    using m that by (auto simp: mutex_ok_def)
qed

text \<open>Nobody is told that he has a mutex which somebody else owns.\<close>

lemma told_is_owner:
  assumes "kernel_ok k" "live k j" "OSTCBEventPtr (tcb k j) = Some e" "ev_type k e = OS_EVENT_TYPE_MUTEX"
    "\<not> pending (tcb k j)" "OSTCBStatPend (tcb k j) = OS_STAT_PEND_OK"
  shows "ev_owner k e = OwnerPtr j"
  using task_okD(11) [OF kernel_okD(4)] assms by blast

lemma set_owner_ok:
  assumes k: "kernel_ok k" and ty: "ev_type k e = OS_EVENT_TYPE_MUTEX"
    and v: "mutex_pip v = ev_pip k e" "OSEventType v = ev_type k e" "OSEventList v = OSEventList (OSEvents k e)"
    and o: "lower8 v = 0xFF \<and> OSEventPtr v = NullPtr \<and> waiters k e = {}
      \<or> (\<exists>i. OSEventPtr v = OwnerPtr i \<and> live k i \<and> lower8 v = OSTCBPrio (tcb k i) \<and> OSTCBPrio (tcb k i) < ev_pip k e)"
    and told: "\<And>j. ev_owner k e = OwnerPtr j \<Longrightarrow> OSTCBEventPtr (tcb k j) \<noteq> Some e"
  shows "kernel_ok (set_event e v k)"
proof (rule kernel_ok_set_event [OF k v(2,3)])
  let ?k = "set_event e v k"
  have w: "waiters ?k e = waiters k e" "ev_type ?k e = ev_type k e" "ev_pip ?k e = ev_pip k e" "ev_owner ?k e = OSEventPtr v"
    using v by (simp_all add: waiters_def ev_type_def ev_pip_def ev_owner_def set_event_view)
  have ta: "task_at ?k p = task_at k p" for p by (simp add: task_at_def prio_of_def set_event_view)
  have "mutex_ok ?k e" unfolding mutex_ok_def w set_event_view using o mutex_okD(1,2) [OF k ty] by auto
  then show "event_ok ?k e"
    using kernel_okD(5) [OF k, of e] ty v w by (simp add: event_ok_def ta set_event_view)
  show "OSEventPtr v = ev_owner k e"
    if "live k j" "OSTCBEventPtr (tcb k j) = Some e" "\<not> pending (tcb k j)" "OSTCBStatPend (tcb k j) = OS_STAT_PEND_OK" for j
    using told_is_owner [OF k that(1,2) ty that(3,4)] told that(2) by blast
qed (use ty v in simp_all)

lemma mutex_take_ok:
  assumes s: "sys_ok k" "OSRunning k" and ty: "ev_type k e = OS_EVENT_TYPE_MUTEX"
    and free: "lower8 (OSEvents k e) = 0xFF" and pip: "OSTCBPrio (tcb k (cur k)) < ev_pip k e"
  shows "sys_ok (snd (mutex_take e k))"
proof -
  let ?v = "OSEvents k e" and ?t = "tcb k (cur k)"
  let ?v' = "?v\<lparr>OSEventCnt := (OSEventCnt ?v AND OS_MUTEX_KEEP_UPPER_8) OR ucast (OSTCBPrio ?t), OSEventPtr := tcb_owner (OSTCBCur k)\<rparr>"
  note k = sys_okD(1) [OF s(1)]
  have l: "live k (cur k)" "OSTCBCur k = Tcb (cur k)" using cur_live [OF sys_okD(2) [OF s(1)] s(2)] by simp_all
  have "tcb_owner (OSTCBCur k) = OwnerPtr (cur k)" using l(2) by (metis tcb_owner.simps(1))
  then have o: "OSEventPtr ?v' = OwnerPtr (cur k)" by simp
  have p: "mutex_pip ?v' = ev_pip k e"
    using mutex_count(1) [of "OSEventCnt ?v" "OSTCBPrio ?t"] by (simp add: mutex_pip_def ev_pip_def)
  have lw: "lower8 ?v' = OSTCBPrio ?t"
    using mutex_count(2) [of "OSEventCnt ?v" "OSTCBPrio ?t"] by (simp add: lower8_def)
  have "kernel_ok (set_event e ?v' k)"
    by (rule set_owner_ok [OF k ty p])
      (use o l(1) pip lw mutex_okD(3) [OF k ty free] in \<open>auto simp: ev_type_def\<close>)
  moreover have "same_cpu k (set_event e ?v' k)" "ready (set_event e ?v' k) = ready k"
    by (simp_all add: ready_def set_event_view)
  ultimately have "sys_ok (set_event e ?v' k)" using run_or_keep [OF s] by blast
  then show ?thesis by (simp add: mutex_take_def Let_def)
qed

section \<open>New events and tasks\<close>

lemma new_event_ok:
  assumes k: "kernel_ok k" and f: "OSEventFreeList k = EventPtr e"
    and v: "v = \<lparr>OSEventType = ty, OSEventPtr = p, OSEventCnt = c, OSEventList = list_empty\<rparr>"
    and ty: "ty = OS_EVENT_TYPE_SEM \<or> ty = OS_EVENT_TYPE_Q \<and> (\<exists>xs. p = QueuePtr (OSQCreate xs) \<and> xs \<noteq> [])
        \<or> p = NullPtr \<and> ty = OS_EVENT_TYPE_MUTEX \<and> lower8 v = 0xFF \<and> unat (mutex_pip v) < 25
        \<and> OSTCBPrioTbl k (mutex_pip v) = Reserved"
  shows "kernel_ok (k\<lparr>OSEventFreeList := OSEventPtr (OSEvents k e), OSEvents := (OSEvents k)(e := v)\<rparr>)" (is "kernel_ok ?k")
proof -
  obtain es where es: "event_chain (OSEvents k) (EventPtr e) es" "distinct es"
      "\<forall>x \<in> set es. ev_type k x = OS_EVENT_TYPE_UNUSED \<and> waiters k x = {}"
    using kernel_okD(6) [OF k] f by (auto simp: free_ok_def)
  then obtain es' where e: "es = e # es'" by (cases es) auto
  have un: "ev_type k e = OS_EVENT_TYPE_UNUSED" "waiters k e = {}" using es(3) e by auto
  have ne: "OSTCBEventPtr (tcb k j) \<noteq> Some e" if "live k j" for j
    using task_okD(7) [OF kernel_okD(4) [OF k that], of e] un(1) by auto
  have w: "waiters ?k x = waiters k x" for x
    using un(2) v by (cases "x = e") (simp_all add: waiters_def list_ok_empty)
  have oth: "ev_type ?k x = ev_type k x" "ev_pip ?k x = ev_pip k x" "ev_owner ?k x = ev_owner k x" "OSEvents ?k x = OSEvents k x"
    if "x \<noteq> e" for x using that by (simp_all add: ev_type_def ev_pip_def ev_owner_def)
  have view: "tcb ?k = tcb k" "OSTCBPrioTbl ?k = OSTCBPrioTbl k" "OSTCBList ?k = OSTCBList k" "OSTCBFreeList ?k = OSTCBFreeList k"
    "OSRdy ?k = OSRdy k" "ready ?k = ready k" "prio_of ?k j = prio_of k j" "task_at ?k p = task_at k p" for j p
    by (simp_all add: ready_def prio_of_def task_at_def)
  have ne1: "x \<noteq> e" if "live k j" "OSTCBEventPtr (tcb k j) = Some x" for j x using ne that by metis
  have "task_ok ?k j" if j: "live k j" for j
  proof -
    note o = task_okD [OF kernel_okD(4) [OF k j]]
    show ?thesis
    proof (rule task_okI, unfold w view)
      show "OSTCBEventPtr (tcb k j) = Some x \<and> (pending (tcb k j) \<or> OSTCBStatPend (tcb k j) = OS_STAT_PEND_TO)
          \<and> (ev_type ?k x = OS_EVENT_TYPE_MUTEX \<longrightarrow> OSTCBPrio (tcb k j) < ev_pip ?k x)" if x: "prio_of k j \<in> waiters k x" for x
        using o(4) [OF x] o(5) [OF x] o(6) [OF x] oth [OF ne1 [OF j o(4) [OF x]]] by auto
      show "\<exists>x. OSTCBEventPtr (tcb k j) = Some x \<and> prio_of k j \<in> waiters k x
          \<and> OSTCBStat (tcb k j) AND OS_STAT_PEND_ANY = type_mask (ev_type ?k x)" if "pending (tcb k j)"
        using o(8,9) [OF that] oth(1) [OF ne1 [OF j]] by auto
      show "ev_type ?k x = OS_EVENT_TYPE_SEM \<or> ev_type ?k x = OS_EVENT_TYPE_Q \<or> ev_type ?k x = OS_EVENT_TYPE_MUTEX" if "OSTCBEventPtr (tcb k j) = Some x" for x
        using o(7) [OF that] oth(1) [OF ne1 [OF j that]] by simp
      show "ev_owner ?k x = OwnerPtr j" if "OSTCBEventPtr (tcb k j) = Some x" "ev_type ?k x = OS_EVENT_TYPE_MUTEX"
          "\<not> pending (tcb k j)" "OSTCBStatPend (tcb k j) = OS_STAT_PEND_OK" for x
        using o(11) [OF that(1) _ that(3,4)] that(2) oth [OF ne1 [OF j that(1)]] by simp
    qed (use o in blast)+
  qed
  moreover have "event_ok ?k x" for x
  proof (cases "x = e")
    case True
    have "list_ok list_empty" by (rule list_ok_empty)
    then show ?thesis
      using True ty un(2) w v
      by (auto simp: event_ok_def ev_type_def mutex_ok_def ev_pip_def ev_owner_def queue_ok_def q_create_ok)
  next
    case False
    then show ?thesis
      using kernel_okD(5) [OF k, of x] by (simp add: event_ok_def mutex_ok_def queue_ok_def view w oth)
  qed
  moreover have "free_ok ?k"
  proof -
    have ch: "event_chain (OSEvents ?k) p xs" if "event_chain (OSEvents k) p xs" "e \<notin> set xs" for p xs
      using that by (induction xs arbitrary: p) auto
    have "event_chain (OSEvents ?k) (OSEventFreeList ?k) es'" "distinct es'"
      using ch [of _ es'] es e by auto
    moreover have "ev_type ?k x = OS_EVENT_TYPE_UNUSED \<and> waiters ?k x = {}" if "x \<in> set es'" for x
      using that es e oth(1) [of x] w [of x] by auto
    ultimately show ?thesis unfolding free_ok_def by blast
  qed
  moreover have "tables_ok ?k" "idle_ok ?k" using kernel_okD(1,7) [OF k] by (simp_all add: tables_ok_def idle_ok_def)
  ultimately show ?thesis using kernel_okD(2,3) [OF k] by (simp add: kernel_ok_def view)
qed

end
