(* ===== verification/Os_System.thy ===== *)
theory Os_System
  imports Os_Calls
begin

text \<open>
  The kernel as a whole: the state that \<^verbatim>\<open>OSInit\<close> leaves, the creation of tasks and events,
  every service as a step, and what holds in every state that the steps reach.
\<close>

section \<open>Creating a task\<close>

definition core_ok :: "kernel \<Rightarrow> bool" where
  "core_ok k \<longleftrightarrow> tables_ok k \<and> list_ok (OSRdy k) \<and> (\<forall>p \<in> ready k. task_at k p)
     \<and> (\<forall>i. live k i \<longrightarrow> task_ok k i) \<and> (\<forall>e. event_ok k e) \<and> free_ok k"

lemma kernel_core: "kernel_ok k \<longleftrightarrow> core_ok k \<and> idle_ok k"
  by (auto simp: kernel_ok_def core_ok_def)

definition new_tcb :: "u8 \<Rightarrow> OS_TCB" where
  "new_tcb prio = \<lparr>OSTCBEventPtr = None, OSTCBMsg = 0, OSTCBDly = 0, OSTCBStat = OS_STAT_RDY,
     OSTCBStatPend = OS_STAT_PEND_OK, OSTCBPrio = prio, OSTCBX = prio_x prio, OSTCBY = prio_y prio,
     OSTCBBitX = bit_of (prio_x prio), OSTCBBitY = bit_of (prio_y prio), OSTCBCtxSwCtr = 0\<rparr>"

definition add_task :: "u8 \<Rightarrow> nat \<Rightarrow> nat list \<Rightarrow> kernel \<Rightarrow> kernel" where
  "add_task prio i free k = k\<lparr>OSTCBFreeList := free, OSTCBs := (OSTCBs k)(i := new_tcb prio),
     OSTCBPrioTbl := (OSTCBPrioTbl k)(prio := Tcb i), OSTCBList := i # OSTCBList k, OSRdy := list_add prio (OSRdy k)\<rparr>"

lemma task_create_eq:
  "OSTaskCreate prio k =
     (if OS_LOWEST_PRIO < prio then (OS_ERR_PRIO_INVALID, k)
      else if 0 < OSIntNesting k then (OS_ERR_TASK_CREATE_ISR, k)
      else if OSTCBPrioTbl k prio = NoTcb
           then case OSTCBFreeList k of
               [] \<Rightarrow> (OS_ERR_TASK_NO_MORE_TCB, k)
             | i # free \<Rightarrow> let k = (add_task prio i free k)\<lparr>OSTaskCtr := OSTaskCtr k + 1\<rparr>
                            in (OS_ERR_NONE, if OSRunning k then OS_Sched k else k)
           else (OS_ERR_PRIO_EXIST, k))"
proof -
  have "k\<lparr>OSTCBPrioTbl := (OSTCBPrioTbl k)(prio := NoTcb)\<rparr> = k" if "OSTCBPrioTbl k prio = NoTcb"
    using that by (metis fun_upd_triv kernel.surjective kernel.update_convs(13))
  then show ?thesis
    by (cases "OSTCBFreeList k")
      (auto simp: OSTaskCreate_def OS_TCBInit_def add_task_def new_tcb_def set_tcb_def make_ready_def list_add_def
        prio_x_def prio_y_def bit_of_def Let_def)
qed

lemma add_task_core:
  assumes k: "core_ok k" and p: "prio \<le> 25" and free: "OSTCBPrioTbl k prio = NoTcb" "OSTCBFreeList k = i # free"
  shows "core_ok (add_task prio i free k)" (is "core_ok ?k")
proof -
  have t: "tables_ok k" "list_ok (OSRdy k)" "\<And>j. live k j \<Longrightarrow> task_ok k j" "\<And>e. event_ok k e" "free_ok k"
    "\<And>q. q \<in> ready k \<Longrightarrow> task_at k q"
    using k by (simp_all add: core_ok_def)
  have u: "unat prio \<le> 25" using p by (simp add: word_le_nat_alt)
  have ni: "\<not> live k i" "distinct (OSTCBList k @ free)" "i \<notin> set free" using t(1) free(2) by (auto simp: tables_ok_def)
  have j: "OSTCBPrio (tcb k j) \<noteq> prio" if "live k j" for j
    using task_okD(2) [OF t(3) [OF that]] free(1) by auto
  have jn: "prio_of k j \<noteq> unat prio" if "live k j" for j
    using j [OF that] unfolding prio_of_def by (metis unsigned_word_eqI)
  have la: "list_ok (list_add prio (OSRdy k))" "prios (list_add prio (OSRdy k)) = insert (unat prio) (ready k)"
    using plist.add_elem [OF t(2), of prio] u by (simp_all add: ready_def)
  have rd: "ready ?k = insert (unat prio) (ready k)" "OSRdy ?k = list_add prio (OSRdy k)"
    using la by (simp_all add: ready_def add_task_def)
  have tc: "tcb ?k i = new_tcb prio" "j \<noteq> i \<Longrightarrow> tcb ?k j = tcb k j" for j by (simp_all add: add_task_def)
  have ev: "OSEvents ?k = OSEvents k" "OSEventFreeList ?k = OSEventFreeList k" by (simp_all add: add_task_def)
  have evx: "ev_type ?k e = ev_type k e" "ev_pip ?k e = ev_pip k e" "ev_owner ?k e = ev_owner k e" "waiters ?k e = waiters k e" for e
    by (simp_all add: ev_type_def ev_pip_def ev_owner_def waiters_def ev)
  have tab: "OSTCBList ?k = i # OSTCBList k" "OSTCBPrioTbl ?k = (OSTCBPrioTbl k)(prio := Tcb i)" "OSTCBFreeList ?k = free"
    by (simp_all add: add_task_def)
  have pr: "prio_of ?k i = unat prio" "live k j \<Longrightarrow> tcb ?k j = tcb k j \<and> prio_of ?k j = prio_of k j" for j
    using ni(1) tc by (cases "j = i"; simp add: prio_of_def new_tcb_def)+
  have ta: "task_at ?k q \<longleftrightarrow> task_at k q \<or> q = unat prio" for q
    using pr by (auto simp: task_at_def tab)
  have nw: "unat prio \<notin> waiters k e" for e
    using t(4) [of e] jn by (auto simp: event_ok_def task_at_def)
  have "tables_ok ?k"
    using t(1) ni j p pr unfolding tables_ok_def tab by (auto simp: tc new_tcb_def)
  moreover have "task_ok ?k j" if "live ?k j" for j
  proof (cases "j = i")
    case True
    have "tcb_ok (new_tcb prio)" using u by (simp add: tcb_ok_def new_tcb_def)
    then show ?thesis
      unfolding True by (intro task_okI; unfold tc(1) pr(1) evx rd tab)
        (use nw in \<open>auto simp: new_tcb_def runnable_def pending_def\<close>)
  next
    case False
    then have l: "live k j" using that tab by simp
    note o = task_okD [OF t(3) [OF l]]
    show ?thesis
    proof (rule task_okI, unfold pr(2) [OF l, THEN conjunct1] pr(2) [OF l, THEN conjunct2] evx rd tab)
      show "prio_of k j \<in> insert (unat prio) (ready k) \<longleftrightarrow> runnable (tcb k j)" using o(3) jn [OF l] by simp
      show "((OSTCBPrioTbl k)(prio := Tcb i)) (OSTCBPrio (tcb k j)) = Tcb j" using o(2) j [OF l] by simp
      show "OSTCBEventPtr (tcb k j) = Some e \<and> (pending (tcb k j) \<or> OSTCBStatPend (tcb k j) = OS_STAT_PEND_TO)
          \<and> (ev_type k e = OS_EVENT_TYPE_MUTEX \<longrightarrow> OSTCBPrio (tcb k j) < ev_pip k e)" if x: "prio_of k j \<in> waiters k e" for e
        using o(4) [OF x] o(5) [OF x] o(6) [OF x] by auto
    qed (use o in blast)+
  qed
  moreover have "event_ok ?k e" for e
  proof -
    have "mutex_ok ?k e" if m: "mutex_ok k e"
    proof -
      have "ev_pip k e \<noteq> prio" using m free(1) by (auto simp: mutex_ok_def)
      moreover have "live k x \<Longrightarrow> tcb ?k x = tcb k x" for x using pr by blast
      ultimately show ?thesis using m unfolding mutex_ok_def evx tab ev by auto
    qed
    moreover have "queue_ok ?k e = queue_ok k e" by (simp add: queue_ok_def evx)
    ultimately show ?thesis using t(4) [of e] by (auto simp: event_ok_def evx ev ta)
  qed
  moreover have "free_ok ?k" using t(5) by (simp add: free_ok_def ev evx)
  ultimately show ?thesis using rd la(1) t(6) ta unfolding core_ok_def by auto
qed

lemma add_task_kernel:
  assumes k: "kernel_ok k" and p: "prio \<le> 25" and free: "OSTCBPrioTbl k prio = NoTcb" "OSTCBFreeList k = i # free"
  shows "kernel_ok (add_task prio i free k)"
proof -
  have "i \<notin> set (OSTCBList k)" using kernel_okD(1) [OF k] free(2) by (auto simp: tables_ok_def)
  then have "idle_ok (add_task prio i free k)"
    using kernel_okD(7) [OF k] by (auto simp: idle_ok_def add_task_def)
  then show ?thesis using add_task_core [OF _ p free] k by (simp add: kernel_core)
qed

section \<open>The services keep the order\<close>

text \<open>The interrupt of the tick, \<^verbatim>\<open>stm32f2xx_it.c\<close>.\<close>

definition SysTick_Handler :: "kernel \<Rightarrow> kernel" where
  "SysTick_Handler k = OSIntExit (OSTimeTick (k\<lparr>OSIntNesting := OSIntNesting k + 1\<rparr>))"

lemma no_waiters: "kernel_ok k \<Longrightarrow> fst (OSEventList (OSEvents k e)) = 0 \<longleftrightarrow> waiters k e = {}"
  using kernel_okD(5) [of k e] plist.none_elems by (simp add: event_ok_def waiters_def)

lemma then_sched:
  assumes "sys_ok k" "OSRunning k" "kernel_ok k'" "same_cpu k k'"
  shows "sys_ok (OS_Sched k')"
  using sched_sys_ok [OF assms(3) same_cpu_cur [OF assms(4) sys_okD(2) [OF assms(1)]]] assms(2,4)
  by (simp add: same_cpu_def)

lemma set_cnt_sys_ok:
  assumes "sys_ok k" "OSEventType (OSEvents k e) = OS_EVENT_TYPE_SEM" "c \<noteq> 0 \<Longrightarrow> waiters k e = {}"
  shows "sys_ok (set_cnt e c k)"
proof -
  have "same_cpu k (set_cnt e c k)" "ready (set_cnt e c k) = ready k"
    by (simp_all add: set_cnt_def ready_def set_event_view)
  then show ?thesis
    using set_cnt_ok [OF sys_okD(1) [OF assms(1)] _ assms(3)] assms(1,2) same_cpu_cur same_ready_sched
    by (auto simp: sys_ok_def ev_type_def)
qed

lemma sem_waiters: "kernel_ok k \<Longrightarrow> OSEventType (OSEvents k e) = OS_EVENT_TYPE_SEM \<Longrightarrow> OSEventCnt (OSEvents k e) \<noteq> 0 \<Longrightarrow>
    waiters k e = {}"
  using kernel_okD(5) [of k e] by (simp add: event_ok_def ev_type_def)

lemma sem_accept_ok: "sys_ok k \<Longrightarrow> sys_ok (snd (sem_accept p k))"
  using set_cnt_sys_ok sem_waiters sys_okD(1)
  by (auto simp: sem_accept_def Let_def word_neq_0_conv split: option.split)

lemma sem_set_ok: "sys_ok k \<Longrightarrow> sys_ok (snd (sem_set p c k))"
  using set_cnt_sys_ok sem_waiters no_waiters sys_okD(1)
  by (auto simp: sem_set_def word_neq_0_conv split: option.split)

lemma sem_post_ok:
  assumes s: "sys_ok k" "OSRunning k"
  shows "sys_ok (snd (sem_post p k))"
proof (cases p)
  case (Some e)
  note k = sys_okD(1) [OF s(1)]
  show ?thesis
  proof (cases "OSEventType (OSEvents k e) = OS_EVENT_TYPE_SEM \<and> waiters k e \<noteq> {}")
    case True
    have "sys_ok (OS_Sched (snd (OS_EventTaskRdy e 0 OS_STAT_SEM OS_STAT_PEND_OK k)))"
      by (rule then_sched [OF s wake_sem_ok [OF k] task_rdy_cpu [OF k]]) (use True in \<open>simp_all add: ev_type_def\<close>)
    then show ?thesis using True no_waiters [OF k, of e] by (simp add: sem_post_def Some)
  next
    case False
    then show ?thesis
      using set_cnt_sys_ok [OF s(1), of e] no_waiters [OF k, of e] s(1) by (auto simp: sem_post_def Some)
  qed
qed (simp add: sem_post_def s)

lemma sem_pend_ok:
  assumes s: "sys_ok k" and c: "calling k"
  shows "sys_ok (snd (sem_pend p t k))"
proof (cases p)
  case (Some e)
  note k = sys_okD(1) [OF s]
  have r: "OSRunning k" using c by (simp add: calling_def)
  note l = cur_live [OF sys_okD(2) [OF s] r]
  show ?thesis
  proof (cases "OSEventType (OSEvents k e) = OS_EVENT_TYPE_SEM \<and> OSIntNesting k = 0 \<and> OSLockNesting k = 0")
    case True
    show ?thesis
    proof (cases "OSEventCnt (OSEvents k e) = 0")
      case z: True
      have w: "kernel_ok (wait_for e OS_STAT_SEM t k)"
        by (rule wait_for_ok [OF k]) (use l c z True in \<open>simp_all add: calling_def ev_type_def type_mask_def\<close>)
      have "same_cpu k (wait_for e OS_STAT_SEM t k)"
        using wait_for_eq [OF kernel_okD(8) [OF k]] l by (simp add: same_cpu_def waiting_tcb_def)
      then show ?thesis using then_sched [OF s r w] True z by (simp add: sem_pend_def Some)
    next
      case False
      then have "sys_ok (set_cnt e (OSEventCnt (OSEvents k e) - 1) k)"
        using set_cnt_sys_ok [OF s] sem_waiters [OF k] True by simp
      then show ?thesis using True False by (simp add: sem_pend_def Some word_neq_0_conv)
    qed
  qed (use s in \<open>auto simp: sem_pend_def Some word_neq_0_conv\<close>)
qed (simp add: sem_pend_def s)

lemma queue_of_event:
  assumes "kernel_ok k" "OSEventType (OSEvents k e) = OS_EVENT_TYPE_Q"
  obtains pq where "OSEventPtr (OSEvents k e) = QueuePtr pq" "q_ok pq" "OSQEntries pq = 0 \<or> waiters k e = {}"
proof -
  have "queue_ok k e" using kernel_okD(5) [OF assms(1), of e] assms(2) by (simp add: event_ok_def ev_type_def)
  then obtain pq where "OSEventPtr (OSEvents k e) = QueuePtr pq" "q_ok pq" "OSQEntries pq = 0 \<or> waiters k e = {}"
    by (auto simp: queue_ok_def ev_owner_def)
  then show thesis by (rule that)
qed

lemma set_queue_sys_ok:
  assumes s: "sys_ok k" and ty: "OSEventType (OSEvents k e) = OS_EVENT_TYPE_Q" and q: "q_ok pq" "OSQEntries pq \<noteq> 0 \<Longrightarrow> waiters k e = {}"
  shows "sys_ok (set_event e ((OSEvents k e)\<lparr>OSEventPtr := QueuePtr pq\<rparr>) k)" (is "sys_ok ?k")
proof -
  have c: "same_cpu k ?k" "ready ?k = ready k" by (simp_all add: ready_def set_event_view)
  have "kernel_ok ?k" using set_queue_ok [OF sys_okD(1) [OF s] _ q] ty by (simp add: ev_type_def)
  then show ?thesis using same_cpu_cur [OF c(1)] same_ready_sched [OF c] s by (simp add: sys_ok_def)
qed

lemma q_post_ok:
  assumes s: "sys_ok k" "OSRunning k"
  shows "sys_ok (snd (q_post p msg k))"
proof (cases "\<exists>e. p = Some e \<and> OSEventType (OSEvents k e) = OS_EVENT_TYPE_Q")
  case True
  then obtain e where e: "p = Some e" "OSEventType (OSEvents k e) = OS_EVENT_TYPE_Q" by blast
  note k = sys_okD(1) [OF s(1)]
  obtain pq where q: "OSEventPtr (OSEvents k e) = QueuePtr pq" "q_ok pq" using queue_of_event [OF k e(2)] by blast
  show ?thesis
  proof (cases "waiters k e = {}")
    case False
    have "sys_ok (OS_Sched (snd (OS_EventTaskRdy e msg OS_STAT_Q OS_STAT_PEND_OK k)))"
      by (rule then_sched [OF s wake_queue_ok [OF k False] task_rdy_cpu [OF k False]]) (simp add: e ev_type_def)
    then show ?thesis using no_waiters [OF k, of e] False e by (simp add: q_post_def)
  next
    case True
    show ?thesis
    proof (cases "OSQEntries pq < OSQSize pq")
      case room: True
      note r = OSQPost_room [OF q(2) room, of msg]
      obtain pq' where p: "OSQPost pq msg = (True, pq')" "q_ok pq'" using r by (cases "OSQPost pq msg") auto
      have "sys_ok (set_event e ((OSEvents k e)\<lparr>OSEventPtr := QueuePtr pq'\<rparr>) k)"
        by (rule set_queue_sys_ok [OF s(1) e(2) p(2)]) (simp add: True)
      then show ?thesis using no_waiters [OF k, of e] True e q(1) p(1) by (simp add: q_post_def)
    next
      case False
      then have "OSQPost pq msg = (False, pq)" by (simp add: OSQPost_def)
      then show ?thesis using no_waiters [OF k, of e] True e q(1) s(1) by (simp add: q_post_def)
    qed
  qed
qed (use s in \<open>auto simp: q_post_def split: option.split\<close>)

lemma wait_for_cpu: "tcb_ok (tcb k (cur k)) \<Longrightarrow> same_cpu k (wait_for e st n k)"
  by (simp add: wait_for_eq same_cpu_def waiting_tcb_def)

lemma q_pend_ok:
  assumes s: "sys_ok k" and c: "calling k"
  shows "sys_ok (snd (q_pend p n k))"
proof (cases "\<exists>e. p = Some e \<and> OSEventType (OSEvents k e) = OS_EVENT_TYPE_Q \<and> OSIntNesting k = 0 \<and> OSLockNesting k = 0")
  case True
  then obtain e where e: "p = Some e" "OSEventType (OSEvents k e) = OS_EVENT_TYPE_Q" "OSIntNesting k = 0" "OSLockNesting k = 0" by blast
  note k = sys_okD(1) [OF s]
  have r: "OSRunning k" using c by (simp add: calling_def)
  note l = cur_live [OF sys_okD(2) [OF s] r]
  obtain pq where q: "OSEventPtr (OSEvents k e) = QueuePtr pq" "q_ok pq" "OSQEntries pq = 0 \<or> waiters k e = {}"
    by (rule queue_of_event [OF k e(2)])
  show ?thesis
  proof (cases "q_items pq")
    case Nil
    then have z: "OSQEntries pq = 0" using length_q_items [of pq] by simp
    have w: "kernel_ok (wait_for e OS_STAT_Q n k)"
      by (rule wait_for_ok [OF k]) (use l c e q z in \<open>simp_all add: calling_def ev_type_def type_mask_def ev_owner_def\<close>)
    have "OSQPend pq = None" using z by (simp add: OSQPend_def)
    then show ?thesis using then_sched [OF s r w wait_for_cpu [OF kernel_okD(8) [OF k]]] l e q(1) by (simp add: q_pend_def)
  next
    case (Cons m ms)
    then obtain pq' where p: "OSQPend pq = Some (m, pq')" "q_ok pq'" using OSQPend_head [OF q(2)] by blast
    have "waiters k e = {}" using q(3) Cons length_q_items [of pq] by auto
    then have "sys_ok (set_event e ((OSEvents k e)\<lparr>OSEventPtr := QueuePtr pq'\<rparr>) k)"
      by (intro set_queue_sys_ok [OF s e(2) p(2)]) simp
    then show ?thesis using e q(1) p(1) by (simp add: q_pend_def)
  qed
qed (use s in \<open>auto simp: q_pend_def Let_def word_neq_0_conv split: option.split\<close>)

text \<open>The end of a call on a queue is that of the other calls; the message is cleared as well.\<close>

lemma q_pend_end_ok:
  assumes s: "sys_ok k" and r: "returning e k"
  shows "sys_ok (snd (q_pend_end e k))"
proof -
  let ?k = "snd (pend_end e k)"
  have e: "snd (q_pend_end e k) = set_tcb (cur k) ((tcb ?k (cur k))\<lparr>OSTCBMsg := 0\<rparr>) ?k"
    by (simp add: q_pend_end_def pend_end_def set_tcb_def OS_EventTaskRemove_def set_event_def Let_def)
  have "kernel_ok (snd (q_pend_end e k)) = kernel_ok ?k" unfolding e by (rule kernel_ok_unread) simp_all
  moreover have c: "same_cpu ?k (snd (q_pend_end e k))" "ready (snd (q_pend_end e k)) = ready ?k"
    unfolding e by (simp_all add: same_cpu_def set_tcb_def ready_def)
  ultimately show ?thesis
    using pend_end_ok [OF assms] same_cpu_cur [OF c(1)] same_ready_sched [OF c] by (simp add: sys_ok_def)
qed

lemma wake_all_ok:
  "kernel_ok k \<Longrightarrow> ev_type k e = OS_EVENT_TYPE_SEM \<Longrightarrow>
   kernel_ok (snd (wake_all n e OS_STAT_SEM st k)) \<and> same_cpu k (snd (wake_all n e OS_STAT_SEM st k))"
proof (induction n arbitrary: k)
  case (Suc n)
  show ?case
  proof (cases "waiters k e = {}")
    case False
    let ?k = "snd (OS_EventTaskRdy e 0 OS_STAT_SEM st k)"
    have "kernel_ok ?k" "same_cpu k ?k" using wake_sem_ok [OF Suc.prems(1) False Suc.prems(2)] task_rdy_cpu [OF Suc.prems(1) False] by simp_all
    moreover have "ev_type ?k e = OS_EVENT_TYPE_SEM"
      using Suc.prems(2) by (simp add: task_rdy_eq [OF Suc.prems(1) False] ev_type_def)
    ultimately show ?thesis
      using Suc.IH [of ?k] no_waiters [OF Suc.prems(1)] False same_cpu_trans by (auto simp: split_beta)
  qed (use Suc.prems no_waiters in simp)
qed simp

lemma sem_pend_abort_ok:
  assumes s: "sys_ok k" "OSRunning k"
  shows "sys_ok (snd (snd (sem_pend_abort p b k)))"
proof (cases p)
  case (Some e)
  note k = sys_okD(1) [OF s(1)]
  show ?thesis
  proof (cases "OSEventType (OSEvents k e) = OS_EVENT_TYPE_SEM \<and> waiters k e \<noteq> {}")
    case True
    then have ty: "ev_type k e = OS_EVENT_TYPE_SEM" and w: "waiters k e \<noteq> {}" by (simp_all add: ev_type_def)
    have "sys_ok (OS_Sched (snd (OS_EventTaskRdy e 0 OS_STAT_SEM OS_STAT_PEND_ABORT k)))"
      by (rule then_sched [OF s wake_sem_ok [OF k w ty] task_rdy_cpu [OF k w]])
    moreover have "sys_ok (OS_Sched (snd (wake_all 32 e OS_STAT_SEM OS_STAT_PEND_ABORT k)))"
      using then_sched [OF s] wake_all_ok [OF k ty] by blast
    ultimately show ?thesis
      using True no_waiters [OF k, of e] by (cases b) (auto simp: sem_pend_abort_def Some split_beta simp del: wake_all.simps)
  next
    case False
    then show ?thesis using no_waiters [OF k, of e] s(1) by (auto simp: sem_pend_abort_def Some)
  qed
qed (simp add: sem_pend_abort_def s)

lemma event_fields:
  "(v :: OS_EVENT)\<lparr>OSEventType := a, OSEventCnt := c, OSEventPtr := p, OSEventList := l\<rparr>
     = \<lparr>OSEventType = a, OSEventPtr = p, OSEventCnt = c, OSEventList = l\<rparr>"
  by (cases v) simp

lemma sem_create_ok:
  assumes s: "sys_ok k"
  shows "sys_ok (snd (sem_create c k))"
proof (cases "OSEventFreeList k")
  case (EventPtr e)
  note k = sys_okD(1) [OF s]
  let ?v = "\<lparr>OSEventType = OS_EVENT_TYPE_SEM, OSEventPtr = NullPtr, OSEventCnt = c, OSEventList = list_empty\<rparr>"
  let ?k = "k\<lparr>OSEventFreeList := OSEventPtr (OSEvents k e), OSEvents := (OSEvents k)(e := ?v)\<rparr>"
  have ko: "kernel_ok ?k" by (rule new_event_ok [OF k EventPtr refl]) simp
  have c: "same_cpu k ?k" "ready ?k = ready k" by (simp_all add: same_cpu_def ready_def)
  have "sys_ok ?k" using ko same_cpu_cur [OF c(1)] same_ready_sched [OF c] s by (simp add: sys_ok_def)
  moreover have "snd (sem_create c k) = (if 0 < OSIntNesting k then k else ?k)"
    by (simp add: sem_create_def EventPtr set_event_def OS_EventWaitListInit_def Let_def event_fields)
  ultimately show ?thesis using s by simp
qed (use s in \<open>auto simp: sem_create_def\<close>)

lemma q_create_sys_ok:
  assumes s: "sys_ok k" and xs: "xs \<noteq> []"
  shows "sys_ok (snd (q_create xs k))"
proof (cases "OSEventFreeList k")
  case (EventPtr e)
  note k = sys_okD(1) [OF s]
  let ?v = "\<lparr>OSEventType = OS_EVENT_TYPE_Q, OSEventPtr = QueuePtr (OSQCreate xs), OSEventCnt = 0, OSEventList = list_empty\<rparr>"
  let ?k = "k\<lparr>OSEventFreeList := OSEventPtr (OSEvents k e), OSEvents := (OSEvents k)(e := ?v)\<rparr>"
  let ?kq = "?k\<lparr>OSQFree := OSQFree k - 1\<rparr>"
  have ko: "kernel_ok ?kq" using new_event_ok [OF k EventPtr refl, of OS_EVENT_TYPE_Q "QueuePtr (OSQCreate xs)" 0] xs by auto
  have c: "same_cpu k ?kq" "ready ?kq = ready k" by (simp_all add: same_cpu_def ready_def)
  have ok: "sys_ok ?kq" using ko same_cpu_cur [OF c(1)] same_ready_sched [OF c] s by (simp add: sys_ok_def)
  have same: "k\<lparr>OSEventFreeList := EventPtr e\<rparr> = k" using EventPtr by simp
  have v: "(OSEvents k)(e := (OSEvents k e)\<lparr>OSEventPtr := OSEventPtr (OSEvents k e)\<rparr>) = OSEvents k" by simp
  have "snd (q_create xs k) = (if 0 < OSIntNesting k \<or> OSQFree k = 0 then k else ?kq)"
    using same v by (simp add: q_create_def EventPtr set_event_def OS_EventWaitListInit_def Let_def event_fields)
  then show ?thesis using s ok by simp
qed (use s in \<open>auto simp: q_create_def\<close>)

lemma reserve_ok:
  assumes k: "kernel_ok k" and p: "OSTCBPrioTbl k p = NoTcb"
  shows "kernel_ok (k\<lparr>OSTCBPrioTbl := (OSTCBPrioTbl k)(p := Reserved)\<rparr>)" (is "kernel_ok ?k")
proof -
  have view: "ready ?k = ready k" "prio_of ?k j = prio_of k j" "waiters ?k e = waiters k e" "ev_type ?k e = ev_type k e"
    "ev_pip ?k e = ev_pip k e" "ev_owner ?k e = ev_owner k e" "task_at ?k q = task_at k q" for j e q
    by (simp_all add: ready_def prio_of_def waiters_def ev_type_def ev_pip_def ev_owner_def task_at_def)
  have "task_ok ?k j" if "live k j" for j
  proof -
    have e: "OSTCBPrioTbl ?k (OSTCBPrio (tcb k j)) = OSTCBPrioTbl k (OSTCBPrio (tcb k j))" "tcb ?k = tcb k"
      using task_okD(2) [OF kernel_okD(4) [OF k that]] p by auto
    show ?thesis using kernel_okD(4) [OF k that] unfolding task_ok_def Let_def view e .
  qed
  moreover have "event_ok ?k e" for e
    using kernel_okD(5) [OF k, of e] by (auto simp: event_ok_def mutex_ok_def queue_ok_def view)
  ultimately show ?thesis
    using k by (auto simp: kernel_ok_def tables_ok_def free_ok_def idle_ok_def view)
qed

lemma mutex_create_ok:
  assumes s: "sys_ok k"
  shows "sys_ok (snd (mutex_create p k))"
proof (cases "\<not> OS_LOWEST_PRIO \<le> p \<and> \<not> 0 < OSIntNesting k \<and> OSTCBPrioTbl k p = NoTcb")
  case True
  note k = sys_okD(1) [OF s]
  have undo: "k\<lparr>OSTCBPrioTbl := (OSTCBPrioTbl k)(p := NoTcb)\<rparr> = k"
    using True by (metis fun_upd_triv kernel.surjective kernel.update_convs(13))
  show ?thesis
  proof (cases "OSEventFreeList k")
    case (EventPtr e)
    let ?kr = "k\<lparr>OSTCBPrioTbl := (OSTCBPrioTbl k)(p := Reserved)\<rparr>"
    let ?c = "push_bit 8 (ucast p) OR OS_MUTEX_AVAILABLE :: u16"
    let ?v = "\<lparr>OSEventType = OS_EVENT_TYPE_MUTEX, OSEventPtr = NullPtr, OSEventCnt = ?c, OSEventList = list_empty\<rparr>"
    let ?k = "?kr\<lparr>OSEventFreeList := OSEventPtr (OSEvents k e), OSEvents := (OSEvents k)(e := ?v)\<rparr>"
    have pip: "mutex_pip ?v = p" "lower8 ?v = 0xFF"
      using mutex_count(5,6) [of p] unfolding mutex_pip_def lower8_def OS_EVENT.simps by simp_all
    have p25: "unat p < 25" using True by (simp add: word_le_nat_alt)
    have k0: "kernel_ok ?kr" using reserve_ok [OF k] True by simp
    have f0: "OSEventFreeList ?kr = EventPtr e" using EventPtr by simp
    have ko: "kernel_ok ?k"
      using new_event_ok [OF k0 f0 refl, of OS_EVENT_TYPE_MUTEX NullPtr ?c] pip p25 by simp
    have c: "same_cpu k ?k" "ready ?k = ready k" by (simp_all add: same_cpu_def ready_def)
    have "sys_ok ?k" using ko same_cpu_cur [OF c(1)] same_ready_sched [OF c] s by (simp add: sys_ok_def)
    moreover have "snd (mutex_create p k) = ?k"
      using True by (auto simp: mutex_create_def EventPtr set_event_def OS_EventWaitListInit_def Let_def event_fields)
    ultimately show ?thesis by simp
  qed (use s True undo in \<open>auto simp: mutex_create_def Let_def\<close>)
qed (use s in \<open>auto simp: mutex_create_def Let_def\<close>)

text \<open>The priority of whoever asks for a mutex is above the inheritance priority.\<close>

definition above_pip :: "kernel \<Rightarrow> nat option \<Rightarrow> bool" where
  "above_pip k p \<longleftrightarrow> (\<forall>e. p = Some e \<and> ev_type k e = OS_EVENT_TYPE_MUTEX \<longrightarrow> OSTCBPrio (tcb k (cur k)) < ev_pip k e)"

lemma mutex_accept_ok:
  assumes s: "sys_ok k" "OSRunning k" and a: "above_pip k p"
  shows "sys_ok (snd (mutex_accept p k))"
proof (cases p)
  case (Some e)
  show ?thesis
  proof (cases "OSEventType (OSEvents k e) = OS_EVENT_TYPE_MUTEX \<and> OSEventCnt (OSEvents k e) AND OS_MUTEX_KEEP_LOWER_8 = OS_MUTEX_AVAILABLE")
    case True
    then have "lower8 (OSEvents k e) = 0xFF" using free_mutex by (simp add: lower8_def)
    then have "sys_ok (snd (mutex_take e k))"
      using mutex_take_ok [OF s] True a by (simp add: above_pip_def Some ev_type_def)
    then show ?thesis using s by (auto simp: mutex_accept_def Some split_beta)
  qed (use s in \<open>auto simp: mutex_accept_def Some\<close>)
qed (simp add: mutex_accept_def s)

text \<open>The owner of a mutex is never raised: his priority is above the inheritance priority already.\<close>

lemma owner_not_raised:
  assumes k: "kernel_ok k" and ty: "ev_type k e = OS_EVENT_TYPE_MUTEX" and b: "lower8 (OSEvents k e) \<noteq> 0xFF"
  shows "\<not> mutex_pip (OSEvents k e) < OSTCBPrio (tcb k (owner_index (OSEventPtr (OSEvents k e))))"
  using mutex_okD(4) [OF k ty b] by (auto simp: ev_owner_def ev_pip_def)

lemma mutex_pend_ok:
  assumes s: "sys_ok k" and c: "calling k" and a: "above_pip k p"
  shows "sys_ok (snd (mutex_pend p t k))"
proof (cases p)
  case (Some e)
  note k = sys_okD(1) [OF s]
  have r: "OSRunning k" using c by (simp add: calling_def)
  note l = cur_live [OF sys_okD(2) [OF s] r]
  show ?thesis
  proof (cases "OSEventType (OSEvents k e) = OS_EVENT_TYPE_MUTEX \<and> OSIntNesting k = 0 \<and> OSLockNesting k = 0")
    case True
    then have ty: "ev_type k e = OS_EVENT_TYPE_MUTEX" by (simp add: ev_type_def)
    show ?thesis
    proof (cases "OSEventCnt (OSEvents k e) AND OS_MUTEX_KEEP_LOWER_8 = OS_MUTEX_AVAILABLE")
      case f: True
      then have "lower8 (OSEvents k e) = 0xFF" using free_mutex by (simp add: lower8_def)
      then have "sys_ok (snd (mutex_take e k))"
        using mutex_take_ok [OF s r ty] a ty by (simp add: above_pip_def Some)
      then show ?thesis using True f by (simp add: mutex_pend_def Some split_beta)
    next
      case False
      then have b: "lower8 (OSEvents k e) \<noteq> 0xFF" using free_mutex by (simp add: lower8_def)
      have w: "kernel_ok (wait_for e OS_STAT_MUTEX t k)"
        by (rule wait_for_ok [OF k]) (use l c b ty a in \<open>simp_all add: calling_def type_mask_def above_pip_def Some\<close>)
      have "same_cpu k (wait_for e OS_STAT_MUTEX t k)"
        using wait_for_eq [OF kernel_okD(8) [OF k]] l by (simp add: same_cpu_def waiting_tcb_def)
      then show ?thesis
        using then_sched [OF s r w] True False owner_not_raised [OF k ty b] by (simp add: mutex_pend_def Some Let_def)
    qed
  qed (use s in \<open>auto simp: mutex_pend_def Some word_neq_0_conv\<close>)
qed (simp add: mutex_pend_def s)

text \<open>Who does not own the mutex is refused; the owner hands it to the highest waiting task, or frees it.\<close>

lemma mutex_post_eq:
  assumes k: "kernel_ok k" and n: "OSIntNesting k = 0" and ty: "ev_type k e = OS_EVENT_TYPE_MUTEX"
    and own: "ev_owner k e = OwnerPtr (cur k)" "OSTCBCur k = Tcb (cur k)"
  defines "k1 \<equiv> snd (OS_EventTaskRdy e 0 OS_STAT_MUTEX OS_STAT_PEND_OK k)"
    and "i \<equiv> first_waiter k e" and "v \<equiv> OSEvents k e"
  shows "waiters k e \<noteq> {} \<Longrightarrow> mutex_post (Some e) k =
      (if OSTCBPrio (tcb k i) \<le> ev_pip k e then OS_ERR_PIP_LOWER else OS_ERR_NONE,
       OS_Sched (set_event e ((OSEvents k1 e)\<lparr>OSEventCnt := (OSEventCnt v AND OS_MUTEX_KEEP_UPPER_8) OR ucast (OSTCBPrio (tcb k i)),
                   OSEventPtr := OwnerPtr i\<rparr>) k1))"
    "waiters k e = {} \<Longrightarrow> mutex_post (Some e) k =
      (OS_ERR_NONE, set_event e (v\<lparr>OSEventCnt := OSEventCnt v OR OS_MUTEX_AVAILABLE, OSEventPtr := NullPtr\<rparr>) k)"
proof -
  have "lower8 (OSEvents k e) \<noteq> 0xFF" using mutex_okD(3) [OF k ty] own(1) by auto
  then have pr: "OSTCBPrio (tcb k (cur k)) < ev_pip k e" using mutex_okD(4) [OF k ty] own(1) by auto
  then have ne: "OSTCBPrio (tcb k (cur k)) \<noteq> ev_pip k e" by simp
  have res: "k\<lparr>OSTCBPrioTbl := (OSTCBPrioTbl k)(ev_pip k e := Reserved)\<rparr> = k"
    using mutex_okD(2) [OF k ty] by (metis fun_upd_triv kernel.surjective kernel.update_convs(13))
  have "OSTCBCur k = owner_tcb (OSEventPtr (OSEvents k e))"
    using own by (metis ev_owner_def owner_tcb.simps(1))
  then have g: "(OSTCBCur k \<noteq> owner_tcb (OSEventPtr (OSEvents k e))) = False" by blast
  have tys: "OSEventType (OSEvents k e) = OS_EVENT_TYPE_MUTEX" using ty by (simp add: ev_type_def)
  note base = mutex_post_def Let_def option.case tys g ne [unfolded ev_pip_def] res [unfolded ev_pip_def]
  show "mutex_post (Some e) k =
      (if OSTCBPrio (tcb k i) \<le> ev_pip k e then OS_ERR_PIP_LOWER else OS_ERR_NONE,
       OS_Sched (set_event e ((OSEvents k1 e)\<lparr>OSEventCnt := (OSEventCnt v AND OS_MUTEX_KEEP_UPPER_8) OR ucast (OSTCBPrio (tcb k i)),
                   OSEventPtr := OwnerPtr i\<rparr>) k1))" if w: "waiters k e \<noteq> {}"
  proof -
    note f = first_waiter_task [OF k w, folded i_def]
    have r: "OS_EventTaskRdy e 0 OS_STAT_MUTEX OS_STAT_PEND_OK k = (OSTCBPrio (tcb k i), k1)"
      using f(3) by (simp add: k1_def task_rdy_eq [OF k w] i_def)
    have c: "OSEventCnt (OSEvents k1 e) = OSEventCnt v" "OSTCBPrioTbl k1 = OSTCBPrioTbl k"
      by (simp_all add: k1_def task_rdy_eq [OF k w] v_def)
    have "tcb_owner (OSTCBPrioTbl k1 (OSTCBPrio (tcb k i))) = OwnerPtr i" using f(1,3) c(2) by simp
    then show ?thesis
      using n no_waiters [OF k, of e] w by (simp add: base r c(1) ev_pip_def)
  qed
  show "mutex_post (Some e) k =
      (OS_ERR_NONE, set_event e (v\<lparr>OSEventCnt := OSEventCnt v OR OS_MUTEX_AVAILABLE, OSEventPtr := NullPtr\<rparr>) k)"
    if w: "waiters k e = {}"
    using n no_waiters [OF k, of e] w by (simp add: base v_def)
qed

lemma mutex_post_refused:
  "OSIntNesting k = 0 \<Longrightarrow> ev_type k e = OS_EVENT_TYPE_MUTEX \<Longrightarrow> OSTCBCur k = Tcb (cur k) \<Longrightarrow> ev_owner k e \<noteq> OwnerPtr (cur k) \<Longrightarrow>
   mutex_post (Some e) k = (OS_ERR_NOT_MUTEX_OWNER, k)"
  by (cases "OSEventPtr (OSEvents k e)") (auto simp: mutex_post_def ev_type_def ev_owner_def Let_def)

lemma mutex_post_ok:
  assumes s: "sys_ok k" and c: "calling k"
  shows "sys_ok (snd (mutex_post p k))"
proof (cases p)
  case (Some e)
  note k = sys_okD(1) [OF s]
  have r: "OSRunning k" using c by (simp add: calling_def)
  note l = cur_live [OF sys_okD(2) [OF s] r]
  show ?thesis
  proof (cases "OSIntNesting k = 0 \<and> ev_type k e = OS_EVENT_TYPE_MUTEX")
    case True
    then have n: "OSIntNesting k = 0" and ty: "ev_type k e = OS_EVENT_TYPE_MUTEX" by simp_all
    have cur_none: "OSTCBEventPtr (tcb k (cur k)) = None" using c by (simp add: calling_def)
    show ?thesis
    proof (cases "ev_owner k e = OwnerPtr (cur k)")
      case own: True
      note eq = mutex_post_eq [OF k n ty own] l
      have b: "lower8 (OSEvents k e) \<noteq> 0xFF" using mutex_okD(3) [OF k ty] own by auto
      show ?thesis
      proof (cases "waiters k e = {}")
        case True
        let ?v = "OSEvents k e"
        let ?v' = "?v\<lparr>OSEventCnt := OSEventCnt ?v OR OS_MUTEX_AVAILABLE, OSEventPtr := NullPtr\<rparr>"
        have p: "mutex_pip ?v' = ev_pip k e"
          using mutex_count(3) [of "OSEventCnt ?v"] unfolding mutex_pip_def ev_pip_def by simp
        have lw: "lower8 ?v' = 0xFF" using mutex_count(4) [of "OSEventCnt ?v"] unfolding lower8_def by simp
        have "kernel_ok (set_event e ?v' k)"
          by (rule set_owner_ok [OF k ty p]) (use lw True own cur_none in \<open>auto simp: ev_type_def\<close>)
        moreover have "same_cpu k (set_event e ?v' k)" "ready (set_event e ?v' k) = ready k"
          by (simp_all add: ready_def set_event_view)
        ultimately have "sys_ok (set_event e ?v' k)" using run_or_keep [OF s r] by blast
        then show ?thesis using eq(2) True l by (simp add: Some)
      next
        case False
        let ?i = "first_waiter k e" and ?c = "OSEventCnt (OSEvents k e)"
        let ?k1 = "snd (OS_EventTaskRdy e 0 OS_STAT_MUTEX OS_STAT_PEND_OK k)"
        let ?c' = "(?c AND OS_MUTEX_KEEP_UPPER_8) OR ucast (OSTCBPrio (tcb k ?i))"
        let ?k2 = "set_event e ((OSEvents ?k1 e)\<lparr>OSEventCnt := ?c', OSEventPtr := OwnerPtr ?i\<rparr>) ?k1"
        have told: "OSTCBStatPend (tcb k j) \<noteq> OS_STAT_PEND_OK"
          if "live k j" "OSTCBEventPtr (tcb k j) = Some e" "\<not> pending (tcb k j)" for j
          using told_is_owner [OF k that(1,2) ty that(3)] own cur_none that(2) by auto
        have "kernel_ok ?k2"
        proof (rule wake_ok [OF k False])
          show "(ev_type k e = OS_EVENT_TYPE_SEM \<or> ev_type k e = OS_EVENT_TYPE_Q) \<and> ?c' = OSEventCnt (OSEvents k e) \<and> OwnerPtr ?i = ev_owner k e
            \<or> ev_type k e = OS_EVENT_TYPE_MUTEX \<and> OwnerPtr ?i = OwnerPtr (first_waiter k e)
              \<and> ucast (drop_bit 8 ?c') = ev_pip k e \<and> (ucast (?c' AND OS_MUTEX_KEEP_LOWER_8) :: u8) = OSTCBPrio (tcb k (first_waiter k e))
              \<and> (\<forall>j. live k j \<and> OSTCBEventPtr (tcb k j) = Some e \<and> \<not> pending (tcb k j) \<longrightarrow> OSTCBStatPend (tcb k j) \<noteq> OS_STAT_PEND_OK)"
            using ty told mutex_count(1,2) [of ?c "OSTCBPrio (tcb k ?i)"] unfolding ev_pip_def mutex_pip_def by blast
        qed (simp add: ty type_mask_def)
        moreover have "same_cpu k ?k2" using same_cpu_trans [OF task_rdy_cpu [OF k False]] same_cpu_parts(3) by blast
        ultimately have "sys_ok (OS_Sched ?k2)" by (rule then_sched [OF s r])
        then show ?thesis using eq(1) False l by (simp add: Some)
      qed
    next
      case False
      then show ?thesis using mutex_post_refused [OF n ty] l s by (simp add: Some)
    qed
  qed (use s in \<open>auto simp: mutex_post_def Some ev_type_def word_neq_0_conv\<close>)
qed (simp add: mutex_post_def s)

lemma OSTaskCreate_ok:
  assumes s: "sys_ok k"
  shows "sys_ok (snd (OSTaskCreate p k))"
proof (cases "\<not> OS_LOWEST_PRIO < p \<and> \<not> 0 < OSIntNesting k \<and> OSTCBPrioTbl k p = NoTcb \<and> OSTCBFreeList k \<noteq> []")
  case True
  then obtain i free where f: "OSTCBFreeList k = i # free" by (cases "OSTCBFreeList k") auto
  let ?k = "(add_task p i free k)\<lparr>OSTaskCtr := OSTaskCtr k + 1\<rparr>"
  note k = sys_okD(1) [OF s]
  have ko: "kernel_ok ?k" using add_task_kernel [OF k _ _ f, of p] True by (simp add: not_less)
  have ni: "i \<notin> set (OSTCBList k)" using kernel_okD(1) [OF k] f by (auto simp: tables_ok_def)
  have cu: "cur_ok ?k" using sys_okD(2) [OF s] ni by (auto simp: cur_ok_def add_task_def)
  have "OSRunning ?k = OSRunning k" by (simp add: add_task_def)
  then have "sys_ok (if OSRunning ?k then OS_Sched ?k else ?k)"
    using sched_sys_ok [OF ko cu] ko cu by (auto simp: sys_ok_def sched_ok_def)
  then show ?thesis using True f by (simp add: task_create_eq Let_def)
qed (use s in \<open>auto simp: task_create_eq Let_def split: list.split\<close>)

lemma OSIntExit_ok:
  assumes "kernel_ok k" "cur_ok k" "OSRunning k"
  shows "sys_ok (OSIntExit k)"
proof -
  let ?k = "if 0 < OSIntNesting k then k\<lparr>OSIntNesting := OSIntNesting k - 1\<rparr> else k"
  have "kernel_ok ?k" "cur_ok ?k" "OSRunning ?k" using assms by (simp_all add: cur_ok_def)
  then show ?thesis using switch_sys_ok [of ?k] assms(3) by (simp add: OSIntExit_def sys_ok_def sched_ok_def Let_def del: kernel_ok_switch)
qed

lemma not_running_ok: "\<not> OSRunning k \<Longrightarrow> sys_ok k \<longleftrightarrow> kernel_ok k"
  by (simp add: sys_ok_def cur_ok_def sched_ok_def)

lemma SysTick_ok:
  assumes s: "sys_ok k"
  shows "sys_ok (SysTick_Handler k)"
proof -
  let ?k = "k\<lparr>OSIntNesting := OSIntNesting k + 1\<rparr>"
  have k: "kernel_ok ?k" "cur_ok ?k" using s by (simp_all add: sys_ok_def cur_ok_def)
  note t = OSTimeTick_ok [OF k(1)]
  have r: "OSRunning (OSTimeTick ?k) = OSRunning k" using t by (simp add: same_cpu_def)
  show ?thesis
  proof (cases "OSRunning k")
    case True
    have "cur_ok (OSTimeTick ?k)" using same_cpu_cur t k(2) by blast
    then show ?thesis unfolding SysTick_Handler_def using OSIntExit_ok [of "OSTimeTick ?k"] t r True by blast
  next
    case False
    then have "SysTick_Handler k = OSTimeTick ?k" using r by (simp add: SysTick_Handler_def OSIntExit_def)
    then show ?thesis using t False r not_running_ok by simp
  qed
qed

lemma OSSchedLock_ok:
  assumes "sys_ok k"
  shows "sys_ok (OSSchedLock k)"
proof -
  have "sys_ok (k\<lparr>OSLockNesting := OSLockNesting k + 1\<rparr>)" if "OSLockNesting k < 255"
  proof -
    have "OSLockNesting k + 1 \<noteq> 0"
    proof
      assume "OSLockNesting k + 1 = 0"
      then have "OSLockNesting k = 255" by (simp add: add_eq_0_iff2)
      then show False using that by simp
    qed
    then show ?thesis using assms by (simp add: sys_ok_def cur_ok_def sched_ok_def)
  qed
  then show ?thesis using assms by (simp add: OSSchedLock_def)
qed

lemma OSSchedUnlock_ok:
  assumes s: "sys_ok k"
  shows "sys_ok (OSSchedUnlock k)"
proof -
  define k' where "k' = k\<lparr>OSLockNesting := OSLockNesting k - 1\<rparr>"
  have k: "kernel_ok k'" "cur_ok k'" "OSRunning k' = OSRunning k" using s by (simp_all add: k'_def sys_ok_def cur_ok_def)
  have "sys_ok (OS_Sched k')" if "OSRunning k" using sched_sys_ok k that by simp
  moreover have "sys_ok k'" if "OSLockNesting k' \<noteq> 0 \<or> OSIntNesting k' \<noteq> 0"
    using that k by (auto simp: sys_ok_def sched_ok_def)
  moreover have "OSSchedUnlock k = (if OSRunning k \<and> 0 < OSLockNesting k
      then if OSLockNesting k' = 0 \<and> OSIntNesting k' = 0 then OS_Sched k' else k' else k)"
    by (simp add: OSSchedUnlock_def Let_def k'_def)
  ultimately show ?thesis using s by simp
qed

section \<open>Start\<close>

lemma OS_InitMisc_ok: "core_ok OS_InitMisc"
proof -
  have ch: "event_chain OS_InitEventList (EventPtr n) [n ..< OS_MAX_EVENTS]" if "n < OS_MAX_EVENTS" for n
    using that
  proof (induction "OS_MAX_EVENTS - n" arbitrary: n)
    case (Suc m)
    show ?case
    proof (cases "n = OS_MAX_EVENTS - 1")
      case True
      then show ?thesis by (simp add: OS_InitEventList_def)
    next
      case False
      then have n: "n + 1 < OS_MAX_EVENTS" "m = OS_MAX_EVENTS - (n + 1)" using Suc.hyps(2) Suc.prems by simp_all
      have "[n ..< OS_MAX_EVENTS] = n # [n + 1 ..< OS_MAX_EVENTS]" using Suc.prems by (simp add: upt_conv_Cons)
      then show ?thesis using Suc.hyps(1) [OF n(2,1)] n(1) by (simp add: OS_InitEventList_def)
    qed
  qed simp
  have "event_chain OS_InitEventList (EventPtr 0) [0 ..< OS_MAX_EVENTS]" by (rule ch) simp
  then have "free_ok OS_InitMisc"
    unfolding free_ok_def
    by (intro exI [of _ "[0 ..< OS_MAX_EVENTS]"])
      (simp add: OS_InitMisc_def ev_type_def waiters_def OS_InitEventList_def list_ok_empty)
  moreover have "event_ok OS_InitMisc e" for e
    by (simp add: event_ok_def OS_InitMisc_def ev_type_def waiters_def OS_InitEventList_def list_ok_empty)
  moreover have "tables_ok OS_InitMisc" by (simp add: tables_ok_def OS_InitMisc_def OS_InitTCBList_def)
  ultimately show ?thesis by (simp add: core_ok_def OS_InitMisc_def ready_def list_ok_empty)
qed

lemma OSInit_ok: "sys_ok OSInit"
proof -
  let ?k = "add_task OS_TASK_IDLE_PRIO 0 [1 ..< OS_MAX_TCBS] OS_InitMisc"
  have free: "OSTCBFreeList OS_InitMisc = 0 # [1 ..< OS_MAX_TCBS]"
    by (simp add: OS_InitMisc_def OS_InitTCBList_def upt_rec)
  have f: "OSTCBPrioTbl OS_InitMisc OS_TASK_IDLE_PRIO = NoTcb" "OSIntNesting OS_InitMisc = 0" "\<not> OSRunning OS_InitMisc"
    "OSTCBList OS_InitMisc = []" by (simp_all add: OS_InitMisc_def)
  have "core_ok ?k" by (rule add_task_core [OF OS_InitMisc_ok _ f(1) free]) simp
  moreover have "idle_ok ?k" by (simp add: idle_ok_def add_task_def f(4) new_tcb_def runnable_def)
  ultimately have "kernel_ok ?k" by (simp add: kernel_core)
  moreover have nr: "\<not> OSRunning ?k" using f(3) by (simp add: add_task_def)
  ultimately have "sys_ok (?k\<lparr>OSTaskCtr := OSTaskCtr OS_InitMisc + 1\<rparr>)" by (simp add: not_running_ok)
  moreover have "snd (OSTaskCreate OS_TASK_IDLE_PRIO OS_InitMisc) = ?k\<lparr>OSTaskCtr := OSTaskCtr OS_InitMisc + 1\<rparr>"
    using f free nr by (simp add: task_create_eq Let_def)
  ultimately show ?thesis using OSTaskCreate_ok by (simp add: OSInit_def)
qed

lemma OSStart_ok:
  assumes s: "sys_ok k"
  shows "sys_ok (OSStart k)"
proof (cases "OSRunning k")
  case False
  note k = sys_okD(1) [OF s]
  let ?h = "list_highest (OSRdy k)"
  have h: "unat ?h = Min (ready k)" "unat ?h \<in> ready k"
    using sched_new_highest(2) [OF k] Min_in [OF finite_ready ready_not_empty [OF k]] by simp_all
  obtain i where i: "OSTCBPrioTbl k ?h = Tcb i" "live k i" "OSTCBPrio (tcb k i) = ?h"
    using task_of_ready [OF k h(2)] by blast
  have "OSStart k = k\<lparr>OSPrioHighRdy := ?h, OSTCBHighRdy := Tcb i, OSRunning := True, OSPrioCur := ?h, OSTCBCur := Tcb i\<rparr>"
    using False i(1) by (simp add: OSStart_def OSStartHighRdy_def OS_CPU_PendSVHandler_def Let_def sched_new_highest(1) [OF k])
  then show ?thesis using k i h(1) by (simp add: sys_ok_def cur_ok_def sched_ok_def ready_def)
qed (simp add: OSStart_def s)

section \<open>Steps\<close>

text \<open>
  What a task, an interrupt or the program before \<^verbatim>\<open>OSStart\<close> does to the kernel.  A call that waits
  or gives a mutex back is made by a task that is not in another call; a call that waited is ended
  by the task when it runs again; a task that asks for a mutex has a priority above its inheritance
  priority.  The interrupts of the program post to semaphores, suspend and resume.
\<close>

inductive kernel_step :: "kernel \<Rightarrow> kernel \<Rightarrow> bool" where
  tick: "kernel_step k (SysTick_Handler k)"
| start: "kernel_step k (OSStart k)"
| task_create: "kernel_step k (snd (OSTaskCreate p k))"
| create_sem: "kernel_step k (snd (sem_create c k))"
| create_mutex: "kernel_step k (snd (mutex_create p k))"
| lock: "kernel_step k (OSSchedLock k)"
| unlock: "kernel_step k (OSSchedUnlock k)"
| set_time: "kernel_step k (OSTimeSet n k)"
| delay: "calling k \<Longrightarrow> kernel_step k (OSTimeDly n k)"
| delay_hmsm: "calling k \<Longrightarrow> kernel_step k (snd (OSTimeDlyHMSM h m s ms k))"
| delay_resume: "OSRunning k \<Longrightarrow> kernel_step k (snd (OSTimeDlyResume p k))"
| suspend: "OSRunning k \<Longrightarrow> p \<noteq> OS_PRIO_SELF \<or> calling k \<Longrightarrow> kernel_step k (snd (OSTaskSuspend p k))"
| resume: "OSRunning k \<Longrightarrow> kernel_step k (snd (OSTaskResume p k))"
| accept_sem: "kernel_step k (snd (sem_accept e k))"
| pend_sem: "calling k \<Longrightarrow> kernel_step k (snd (sem_pend e n k))"
| post_sem: "OSRunning k \<Longrightarrow> kernel_step k (snd (sem_post e k))"
| abort_sem: "OSRunning k \<Longrightarrow> kernel_step k (snd (snd (sem_pend_abort e b k)))"
| set_sem: "kernel_step k (snd (sem_set e c k))"
| accept_mutex: "calling k \<Longrightarrow> above_pip k e \<Longrightarrow> kernel_step k (snd (mutex_accept e k))"
| pend_mutex: "calling k \<Longrightarrow> above_pip k e \<Longrightarrow> kernel_step k (snd (mutex_pend e n k))"
| post_mutex: "calling k \<Longrightarrow> kernel_step k (snd (mutex_post e k))"
| create_q: "xs \<noteq> [] \<Longrightarrow> kernel_step k (snd (q_create xs k))"
| post_q: "OSRunning k \<Longrightarrow> kernel_step k (snd (q_post e m k))"
| pend_q: "calling k \<Longrightarrow> kernel_step k (snd (q_pend e n k))"
| pend_done: "returning x k \<Longrightarrow> ev_type k x \<noteq> OS_EVENT_TYPE_Q \<Longrightarrow> kernel_step k (snd (pend_end x k))"
| pend_q_done: "returning x k \<Longrightarrow> ev_type k x = OS_EVENT_TYPE_Q \<Longrightarrow> kernel_step k (snd (q_pend_end x k))"

text \<open>The states that the program reaches from the state that \<^verbatim>\<open>OSInit\<close> leaves.\<close>

inductive reachable :: "kernel \<Rightarrow> bool" where
  init: "reachable OSInit"
| step: "reachable k \<Longrightarrow> kernel_step k k' \<Longrightarrow> reachable k'"

lemma kernel_step_ok: "kernel_step k k' \<Longrightarrow> sys_ok k \<Longrightarrow> sys_ok k'"
proof (induction rule: kernel_step.induct)
  case (set_time k n)
  then show ?case by (simp add: OSTimeSet_def sys_ok_def cur_ok_def sched_ok_def ready_def)
next
  case (suspend k p)
  then show ?case using OSTaskSuspend_ok by (auto simp: calling_def)
qed (simp_all add: SysTick_ok OSStart_ok OSTaskCreate_ok sem_create_ok mutex_create_ok OSSchedLock_ok OSSchedUnlock_ok
    OSTimeDly_ok OSTimeDlyHMSM_ok OSTimeDlyResume_ok OSTaskResume_ok sem_accept_ok sem_pend_ok sem_post_ok
    sem_pend_abort_ok sem_set_ok mutex_accept_ok mutex_pend_ok mutex_post_ok pend_end_ok calling_def
    q_create_sys_ok q_post_ok q_pend_ok q_pend_end_ok)

lemma reachable_ok: "reachable k \<Longrightarrow> sys_ok k"
  by (induction rule: reachable.induct) (use OSInit_ok kernel_step_ok in blast)+

end
