(* ===== verification/Os_Behaviour.thy ===== *)
theory Os_Behaviour
  imports Os_System Os_Memory
begin

text \<open>
  What the kernel promises to the program: the order of the tasks, the end of delays, semaphores and
  message queues.
\<close>

section \<open>A state to look at\<close>

text \<open>A semaphore, a mutex of inheritance priority 16 and two tasks of priority 9 and 12, started.\<close>

definition two_tasks :: kernel where
  "two_tasks = OSStart (snd (OSTaskCreate 12 (snd (OSTaskCreate 9 (snd (mutex_create 16 (snd (sem_create 0 OSInit))))))))"

lemma two_tasks_reachable: "reachable two_tasks"
  unfolding two_tasks_def by (intro reachable.step [OF _ kernel_step.start] reachable.step [OF _ kernel_step.task_create]
    reachable.step [OF _ kernel_step.create_mutex] reachable.step [OF _ kernel_step.create_sem] reachable.init)

lemma bit_of_values: "bit_of 0 = 1" "bit_of 1 = 2" "bit_of 2 = 4" "bit_of 3 = 8" "bit_of 4 = 16" "bit_of 5 = 32"
  "bit_of 6 = 64" "bit_of 7 = 128"
  by (simp_all add: bit_of_def)

lemma first_tcbs: "OS_InitTCBList = 0 # 1 # 2 # 3 # [4 ..< OS_MAX_TCBS]"
  by (simp add: OS_InitTCBList_def upt_rec)

lemma four_bytes: "replicate 4 (z :: u8) = [z, z, z, z]" "[a, b, c, d][3 := z] = [a, b, c, z]" "[a, b, c, d][2 := z] = [a, b, z, d]"
  "[a, b, c, d] ! 3 = d" "[a, b, c, d] ! 2 = c"
  for a b c d :: u8
  by (simp_all add: eval_nat_numeral)

lemma sort_upd:
  "f(Suc 0 := a, 0 := b) = f(0 := b, Suc 0 := a)" "f(2 := a, 0 := b) = f(0 := b, 2 := a)" "f(3 := a, 0 := b) = f(0 := b, 3 := a)"
  "f(2 := a, Suc 0 := b) = f(Suc 0 := b, 2 := a)" "f(3 := a, Suc 0 := b) = f(Suc 0 := b, 3 := a)" "f(3 := a, 2 := b) = f(2 := b, 3 := a)"
  "g(9 := x, 12 := y, 16 := z) = g(16 := z, 9 := x, 12 := y)"
  for f :: "nat \<Rightarrow> 'a" and g :: "u8 \<Rightarrow> 'b"
  by (simp_all add: fun_eq_iff)

lemmas eval_list = four_bytes sort_upd list_add_def list_or_def list_empty_def list_remove_def list_clear_def OS_RDY_TBL_SIZE_def bit_of_values
  prio_x_def prio_y_def OSUnMapTbl_def list_highest_def

lemmas eval_start = two_tasks_def OSInit_def task_create_eq add_task_def new_tcb_def OS_InitMisc_def first_tcbs
  sem_create_def mutex_create_def OS_InitEventList_def set_event_def OS_EventWaitListInit_def OSStart_def OS_SchedNew_def
  OSStartHighRdy_def OS_CPU_PendSVHandler_def eval_list

abbreviation world :: "u32 \<Rightarrow> u32 \<Rightarrow> prio_list \<Rightarrow> u8 \<Rightarrow> nat \<Rightarrow> OS_TCB \<Rightarrow> OS_TCB \<Rightarrow> OS_TCB \<Rightarrow> OS_EVENT \<Rightarrow> OS_EVENT \<Rightarrow> kernel" where
  "world time switches rdy p c t1 t2 t3 sem mutex \<equiv> \<lparr>OSTime = time, OSIntNesting = 0, OSLockNesting = 0, OSTaskCtr = 4, OSRunning = True,
     OSTickStepState = 0, OSCtxSwCtr = switches, OSRdy = rdy, OSPrioCur = p, OSPrioHighRdy = p,
     OSTCBCur = Tcb c, OSTCBHighRdy = Tcb c,
     OSTCBPrioTbl = (\<lambda>_. NoTcb)(25 := Tcb 0, 24 := Tcb 1, 16 := Reserved, 9 := Tcb 2, 12 := Tcb 3),
     OSTCBs = (\<lambda>_. clear_tcb)(0 := new_tcb 25, 1 := t1, 2 := t2, 3 := t3),
     OSTCBList = [3, 2, 1, 0], OSTCBFreeList = [4 ..< OS_MAX_TCBS],
     OSEvents = OS_InitEventList(0 := sem, 1 := mutex), OSEventFreeList = EventPtr 2, OSQFree = OS_MAX_QS\<rparr>"

abbreviation sem_event :: "u16 \<Rightarrow> prio_list \<Rightarrow> OS_EVENT" where
  "sem_event c l \<equiv> \<lparr>OSEventType = OS_EVENT_TYPE_SEM, OSEventPtr = NullPtr, OSEventCnt = c, OSEventList = l\<rparr>"

abbreviation mutex_event :: "event_ptr \<Rightarrow> u16 \<Rightarrow> prio_list \<Rightarrow> OS_EVENT" where
  "mutex_event own c l \<equiv> \<lparr>OSEventType = OS_EVENT_TYPE_MUTEX, OSEventPtr = own, OSEventCnt = c, OSEventList = l\<rparr>"

lemma two_tasks_eq:
  "two_tasks = world 0 0 (10, [0, 18, 0, 3]) 9 2 (new_tcb 24) (new_tcb 9) (new_tcb 12) (sem_event 0 list_empty)
     (mutex_event NullPtr 0x10FF list_empty)"
  by (simp add: eval_start Let_def)

text \<open>The task of priority 9 waits for the semaphore, with a time-out of 5 ticks; that of priority 12 runs.\<close>

definition one_waits :: kernel where
  "one_waits = snd (sem_pend (Some 0) 5 two_tasks)"

lemma one_waits_reachable: "reachable one_waits"
  unfolding one_waits_def
  by (rule reachable.step [OF two_tasks_reachable kernel_step.pend_sem]) (simp add: two_tasks_eq calling_def new_tcb_def)

lemmas eval_step = sem_pend_def wait_for_def OS_EventTaskWait_def OS_Sched_def switch_to_highest_def OS_SchedNew_def
  OS_CPU_PendSVHandler_def set_tcb_def set_event_def make_unready_def make_ready_def new_tcb_def eval_list

lemma one_waits_rec:
  "one_waits = world 0 1 (10, [0, 16, 0, 3]) 12 3 (new_tcb 24)
     ((new_tcb 9)\<lparr>OSTCBEventPtr := Some 0, OSTCBDly := 5, OSTCBStat := 1\<rparr>) ((new_tcb 12)\<lparr>OSTCBCtxSwCtr := 1\<rparr>)
     (sem_event 0 (2, [0, 2, 0, 0])) (mutex_event NullPtr 0x10FF list_empty)"
  by (simp add: one_waits_def two_tasks_eq eval_step Let_def)

lemma one_waits_eq:
  "OSRunning one_waits \<and> OSIntNesting one_waits = 0 \<and> OSLockNesting one_waits = 0 \<and> cur one_waits = 3
    \<and> OSTCBCur one_waits = Tcb 3 \<and> OSTCBList one_waits = [3, 2, 1, 0]
    \<and> OSEventType (OSEvents one_waits 0) = OS_EVENT_TYPE_SEM \<and> OSEventList (OSEvents one_waits 0) = (2, [0, 2, 0, 0])
    \<and> OSEventType (OSEvents one_waits 1) = OS_EVENT_TYPE_MUTEX \<and> OSEventCnt (OSEvents one_waits 1) = 0x10FF
    \<and> OSTCBPrio (tcb one_waits 2) = 9 \<and> OSTCBStat (tcb one_waits 2) = OS_STAT_SEM \<and> OSTCBPrio (tcb one_waits 3) = 12
    \<and> OSTCBEventPtr (tcb one_waits 3) = None"
  by (simp add: one_waits_rec new_tcb_def)

lemma prios_nine: "prios (2, [0, 2, 0, 0]) = {9}"
proof -
  have "(2, [0, 2, 0, 0]) = list_add 9 list_empty" by (simp add: eval_list)
  moreover have "prios (list_add 9 list_empty) = insert (unat (9 :: u8)) (prios list_empty)"
    by (rule list_ok_add) (simp_all add: list_ok_empty)
  ultimately show ?thesis by (simp add: list_ok_empty)
qed

lemma one_waits_waiters: "waiters one_waits 0 = {9}"
  using one_waits_eq by (simp add: waiters_def prios_nine)

section \<open>Properties of the scheduler\<close>

text \<open>In every state that the program reaches the tables of the kernel fit together: each task is found
  under its priority and under no other, its control block keeps the masks of that priority and one of the eight
  statuses, and the ready list and every wait list have a group bit exactly for the bytes that are not zero.\<close>

lemma kernel_typed:
  assumes "reachable k"
  shows "(live k i \<longrightarrow> tcb_ok (tcb k i) \<and> OSTCBPrioTbl k (OSTCBPrio (tcb k i)) = Tcb i)
    \<and> (OSTCBPrioTbl k p = Tcb i \<longrightarrow> live k i \<and> OSTCBPrio (tcb k i) = p)
    \<and> list_ok (OSRdy k) \<and> list_ok (OSEventList (OSEvents k e))"
proof -
  have k: "kernel_ok k" using sys_okD(1) reachable_ok assms by blast
  have "tables_ok k" "event_ok k e" "list_ok (OSRdy k)" using kernel_okD [OF k] by blast+
  moreover have "live k i \<longrightarrow> tcb_ok (tcb k i) \<and> OSTCBPrioTbl k (OSTCBPrio (tcb k i)) = Tcb i"
    using kernel_okD(4) [OF k] task_okD(1,2) by blast
  ultimately show ?thesis by (simp add: tables_ok_def event_ok_def)
qed

lemma kernel_typed_witness: "tcb_ok (tcb two_tasks 2) \<and> list_ok (10, [0, 18, 0, 3])"
  using kernel_typed [OF two_tasks_reachable, of 2 9 0] by (simp add: two_tasks_eq)

text \<open>C33. In every state that the steps of \<open>kernel_step\<close> reach from \<^verbatim>\<open>OSInit\<close>, outside interrupts and
  with the scheduler unlocked, the task that runs is one that can run, and no task that can run has a higher priority (a
  smaller number).  The steps are whole kernel calls and ticks, in the order in which any tasks and interrupts make
  them; of mutexes only those are asked for whose inheritance priority is below the task, as in this program.\<close>

theorem highest_runs:
  assumes "reachable k" "OSRunning k" "OSIntNesting k = 0" "OSLockNesting k = 0"
  shows "live k (cur k) \<and> runnable (tcb k (cur k)) \<and> OSPrioCur k = OSTCBPrio (tcb k (cur k))
    \<and> (\<forall>i. live k i \<and> runnable (tcb k i) \<longrightarrow> prio_of k (cur k) \<le> prio_of k i)"
proof -
  have s: "sys_ok k" using reachable_ok assms(1) .
  note m = sys_ok_min [OF s assms(2-4)]
  have "prio_of k (cur k) \<le> prio_of k i" if "live k i" "runnable (tcb k i)" for i
    using m(4) task_okD(3) [OF kernel_okD(4) [OF sys_okD(1) [OF s] that(1)]] that(2) by blast
  then show ?thesis using m(1,2) runnable_cur [OF s assms(2-4)] by blast
qed

lemma highest_runs_witness: "runnable (tcb two_tasks 2) \<and> prio_of two_tasks 2 \<le> prio_of two_tasks 3"
proof -
  have "OSRunning two_tasks" "OSIntNesting two_tasks = 0" "OSLockNesting two_tasks = 0" "cur two_tasks = 2"
    "live two_tasks 3" "runnable (tcb two_tasks 3)"
    by (simp_all add: two_tasks_eq new_tcb_def runnable_def)
  then show ?thesis using highest_runs [OF two_tasks_reachable] by metis
qed

lemma ready_runnable:
  assumes k: "kernel_ok k"
  shows "ready k = prio_of k ` {i. live k i \<and> runnable (tcb k i)}"
proof (intro equalityI subsetI)
  fix p assume p: "p \<in> ready k"
  then obtain i where i: "live k i" "prio_of k i = p" using kernel_okD(3) [OF k] by (auto simp: task_at_def)
  then have "runnable (tcb k i)" using task_okD(3) [OF kernel_okD(4) [OF k i(1)]] p by simp
  then show "p \<in> prio_of k ` {i. live k i \<and> runnable (tcb k i)}" using i by blast
next
  fix p assume "p \<in> prio_of k ` {i. live k i \<and> runnable (tcb k i)}"
  then show "p \<in> ready k" using task_okD(3) [OF kernel_okD(4) [OF k]] by blast
qed

text \<open>The table of 256 entries and the two levels of bytes find what a search of the tasks would find: the
  least priority of a task that is neither delayed, nor waiting, nor suspended.\<close>

lemma search_by_table:
  assumes "reachable k"
  shows "unat (OSPrioHighRdy (OS_SchedNew k)) = Min (prio_of k ` {i. live k i \<and> OSTCBStat (tcb k i) = 0 \<and> OSTCBDly (tcb k i) = 0})"
proof -
  have k: "kernel_ok k" using sys_okD(1) reachable_ok assms by blast
  show ?thesis using sched_new_highest [OF k] ready_runnable [OF k] by (simp add: runnable_def)
qed

lemma search_by_table_witness:
  "unat (OSPrioHighRdy (OS_SchedNew two_tasks))
     = Min (prio_of two_tasks ` {i. live two_tasks i \<and> OSTCBStat (tcb two_tasks i) = 0 \<and> OSTCBDly (tcb two_tasks i) = 0})"
  by (rule search_by_table [OF two_tasks_reachable])

section \<open>Delay\<close>

lemma tick_task_other: "j \<noteq> i \<Longrightarrow> tcb (tick_task j k) i = tcb k i"
  by (simp add: tick_task_def Let_def set_tcb_def)

lemma tick_task_own: "tcb k' i = tcb k i \<Longrightarrow> tcb (tick_task i k') i = tcb (tick_task i k) i"
  by (simp add: tick_task_def Let_def set_tcb_def)

lemma tick_tasks_own:
  "distinct is \<Longrightarrow> (\<forall>j \<in> set is. OSTCBPrio (tcb k j) = OS_TASK_IDLE_PRIO \<longrightarrow> j = last is) \<Longrightarrow>
   OSTCBPrio (tcb k i) \<noteq> OS_TASK_IDLE_PRIO \<Longrightarrow>
   tcb (tick_tasks is k) i = (if i \<in> set is then tcb (tick_task i k) i else tcb k i)"
proof (induction "is" arbitrary: k)
  case (Cons j js)
  have pr: "OSTCBPrio (tcb (tick_task j k) x) = OSTCBPrio (tcb k x)" for x
    using tick_task_fields(1) [of k j] by (simp add: same_cpu_def)
  show ?case
  proof (cases "OSTCBPrio (tcb k j) = OS_TASK_IDLE_PRIO")
    case True
    then have "js = []" using Cons.prems(1,2) by (cases js rule: rev_cases) auto
    then show ?thesis using True Cons.prems(3) by auto
  next
    case False
    have hyp: "\<forall>x \<in> set js. OSTCBPrio (tcb (tick_task j k) x) = OS_TASK_IDLE_PRIO \<longrightarrow> x = last js"
      using Cons.prems(2) pr by (cases js) auto
    have d: "distinct js" "OSTCBPrio (tcb (tick_task j k) i) \<noteq> OS_TASK_IDLE_PRIO" using Cons.prems pr by simp_all
    note ih = Cons.IH [OF d(1) hyp d(2)]
    show ?thesis
    proof (cases "i = j")
      case True
      then show ?thesis using ih False Cons.prems(1) by auto
    next
      case ne: False
      have "tcb (tick_task i (tick_task j k)) i = tcb (tick_task i k) i"
        by (rule tick_task_own) (rule tick_task_other [OF ne [symmetric]])
      then show ?thesis using ih False ne tick_task_other [OF ne [symmetric]] by simp
    qed
  qed
qed simp

lemma switch_tcb: "OSTCBDly (tcb (switch_to_highest k) i) = OSTCBDly (tcb k i)"
  "OSTCBStat (tcb (switch_to_highest k) i) = OSTCBStat (tcb k i)" "OSTCBPrio (tcb (switch_to_highest k) i) = OSTCBPrio (tcb k i)"
  "OSTickStepState (switch_to_highest k) = OSTickStepState k"
  by (simp_all add: switch_to_highest_def OS_SchedNew_def OS_CPU_PendSVHandler_def set_tcb_def Let_def)

lemma SysTick_task:
  assumes s: "sys_ok k" and r: "OSRunning k" "OSTickStepState k = OS_TICK_STEP_DIS" and i: "live k i"
    and idle: "OSTCBPrio (tcb k i) \<noteq> OS_TASK_IDLE_PRIO" and st: "OSTCBStat (tcb k i) = 0"
  shows "OSTCBDly (tcb (SysTick_Handler k) i) = OSTCBDly (tcb k i) - (if OSTCBDly (tcb k i) = 0 then 0 else 1)"
    "OSTCBStat (tcb (SysTick_Handler k) i) = 0" "OSTickStepState (SysTick_Handler k) = OS_TICK_STEP_DIS"
    "OSRunning (SysTick_Handler k)" "live (SysTick_Handler k) i" "OSTCBPrio (tcb (SysTick_Handler k) i) = OSTCBPrio (tcb k i)"
proof -
  let ?k = "k\<lparr>OSIntNesting := OSIntNesting k + 1, OSTime := OSTime k + 1, OSTickStepState := OS_TICK_STEP_DIS\<rparr>"
  let ?t = "tick_tasks (OSTCBList k) ?k"
  note k = sys_okD(1) [OF s]
  have t: "OSTimeTick (k\<lparr>OSIntNesting := OSIntNesting k + 1\<rparr>) = ?t"
    using r by (simp add: OSTimeTick_def Let_def)
  have ko: "kernel_ok ?k" using k by simp
  have c: "same_cpu ?k ?t" by (rule tick_tasks_ok [OF ko, THEN conjunct2]) simp
  have st_t: "OSTickStepState (tick_tasks is x) = OSTickStepState x" for "is" x
    by (induction "is" arbitrary: x) (simp_all add: tick_task_def make_ready_def set_tcb_def Let_def)
  have only_idle: "j = last (OSTCBList k)" if "live k j" "OSTCBPrio (tcb k j) = OS_TASK_IDLE_PRIO" for j
    using same_prio [OF k that(1) idle_task(1) [OF k]] that(2) idle_task(2) [OF k] by (simp add: prio_of_def)
  have "tcb ?t i = tcb (tick_task i ?k) i"
    using tick_tasks_own [of "OSTCBList k" ?k i] kernel_okD(1) [OF k] only_idle idle i by (auto simp: tables_ok_def)
  then have f: "OSTCBDly (tcb ?t i) = OSTCBDly (tcb k i) - (if OSTCBDly (tcb k i) = 0 then 0 else 1)" "OSTCBStat (tcb ?t i) = 0"
    using st by (simp_all add: tick_task_def Let_def set_tcb_def end_delay_def)
  have e: "OSTCBDly (tcb (OSIntExit x) i) = OSTCBDly (tcb x i)" "OSTCBStat (tcb (OSIntExit x) i) = OSTCBStat (tcb x i)"
    "OSTickStepState (OSIntExit x) = OSTickStepState x" "OSRunning (OSIntExit x) = OSRunning x"
    "OSTCBList (OSIntExit x) = OSTCBList x" "OSTCBPrio (tcb (OSIntExit x) i) = OSTCBPrio (tcb x i)" for x
    by (simp_all add: OSIntExit_def Let_def switch_tcb switch_fields)
  show "OSTCBDly (tcb (SysTick_Handler k) i) = OSTCBDly (tcb k i) - (if OSTCBDly (tcb k i) = 0 then 0 else 1)"
    "OSTCBStat (tcb (SysTick_Handler k) i) = 0" "OSTickStepState (SysTick_Handler k) = OS_TICK_STEP_DIS"
    "OSRunning (SysTick_Handler k)" "live (SysTick_Handler k) i" "OSTCBPrio (tcb (SysTick_Handler k) i) = OSTCBPrio (tcb k i)"
    unfolding SysTick_Handler_def t e using f st_t c r i by (simp_all add: same_cpu_def)
qed

text \<open>The delay left after some ticks.\<close>

lemma SysTick_delay:
  assumes "sys_ok k" "OSRunning k" "OSTickStepState k = OS_TICK_STEP_DIS" "live k i"
    "OSTCBPrio (tcb k i) \<noteq> OS_TASK_IDLE_PRIO" "OSTCBStat (tcb k i) = 0"
  shows "unat (OSTCBDly (tcb ((SysTick_Handler ^^ m) k) i)) = unat (OSTCBDly (tcb k i)) - m
    \<and> OSTCBStat (tcb ((SysTick_Handler ^^ m) k) i) = 0"
  using assms
proof (induction m arbitrary: k)
  case (Suc m)
  note t = SysTick_task [OF Suc.prems]
  have u: "unat (OSTCBDly (tcb (SysTick_Handler k) i)) = unat (OSTCBDly (tcb k i)) - 1"
    unfolding t(1) by (auto simp: unat_minus_one)
  have "unat (OSTCBDly (tcb ((SysTick_Handler ^^ m) (SysTick_Handler k)) i)) = unat (OSTCBDly (tcb (SysTick_Handler k) i)) - m
      \<and> OSTCBStat (tcb ((SysTick_Handler ^^ m) (SysTick_Handler k)) i) = 0"
    by (rule Suc.IH) (use SysTick_ok Suc.prems t(2-6) in simp_all)
  then show ?case using u by (simp add: funpow_swap1)
qed simp

text \<open>A task that delays itself for \<open>n\<close> ticks cannot run before the \<open>n\<close>-th tick has come, and can run
  from that tick on, however many tasks there are (no tool steps the ticks, and the task is not suspended
  meanwhile).\<close>

lemma delay_ends:
  assumes "reachable k" "calling k" "OSIntNesting k = 0" "OSLockNesting k = 0" "OSTickStepState k = OS_TICK_STEP_DIS" "n \<noteq> 0"
  shows "runnable (tcb ((SysTick_Handler ^^ m) (OSTimeDly n k)) (cur k)) \<longleftrightarrow> unat n \<le> m"
proof -
  have s: "sys_ok k" using reachable_ok assms(1) .
  have r: "OSRunning k" using assms(2) by (simp add: calling_def)
  let ?i = "cur k"
  let ?k = "set_tcb ?i ((tcb k ?i)\<lparr>OSTCBDly := n\<rparr>) (make_unready ?i k)"
  have e: "OSTimeDly n k = switch_to_highest ?k"
    using assms(3,4,6) by (simp add: OSTimeDly_def Let_def OS_Sched_def make_unready_def set_tcb_def word_neq_0_conv)
  have ra: "runnable (tcb k ?i)" by (rule runnable_cur [OF s r assms(3,4)])
  have f: "OSTCBDly (tcb (OSTimeDly n k) ?i) = n" "OSTCBStat (tcb (OSTimeDly n k) ?i) = 0"
    "OSTCBPrio (tcb (OSTimeDly n k) ?i) \<noteq> OS_TASK_IDLE_PRIO" "live (OSTimeDly n k) ?i" "OSRunning (OSTimeDly n k)"
    "OSTickStepState (OSTimeDly n k) = OS_TICK_STEP_DIS"
    using ra r assms(2,5) sys_ok_min(2) [OF s r assms(3,4)]
    by (simp_all add: e switch_tcb switch_fields set_tcb_def make_unready_def runnable_def calling_def)
  have "unat (OSTCBDly (tcb ((SysTick_Handler ^^ m) (OSTimeDly n k)) ?i)) = unat n - m
      \<and> OSTCBStat (tcb ((SysTick_Handler ^^ m) (OSTimeDly n k)) ?i) = 0"
    using SysTick_delay [OF OSTimeDly_ok [OF s assms(2)] f(5,6,4,3,2), of m] f(1) by simp
  then show ?thesis by (auto simp: runnable_def unat_eq_zero)
qed

lemma delay_ends_witness:
  "\<not> runnable (tcb ((SysTick_Handler ^^ 2) (OSTimeDly 3 two_tasks)) 2) \<and> runnable (tcb ((SysTick_Handler ^^ 3) (OSTimeDly 3 two_tasks)) 2)"
proof -
  have "calling two_tasks" "OSIntNesting two_tasks = 0" "OSLockNesting two_tasks = 0" "OSTickStepState two_tasks = 0" "cur two_tasks = 2"
    by (simp_all add: two_tasks_eq calling_def new_tcb_def)
  then show ?thesis using delay_ends [OF two_tasks_reachable, of 3 2] delay_ends [OF two_tasks_reachable, of 3 3] by simp
qed

section \<open>Semaphores\<close>

text \<open>
  The specification: the count of \<^verbatim>\<open>Os_Memory\<close> and the set of the priorities that wait.
\<close>

type_synonym sem_state = "u16 \<times> nat set"

definition spec_post :: "sem_state \<Rightarrow> sem_state" where
  "spec_post s = (if snd s \<noteq> {} then (fst s, snd s - {Min (snd s)}) else (OSSemPost (fst s), snd s))"

definition spec_pend :: "nat \<Rightarrow> sem_state \<Rightarrow> sem_state" where
  "spec_pend p s = (case OSSemPend (fst s) of Some c \<Rightarrow> (c, snd s) | None \<Rightarrow> (fst s, insert p (snd s)))"

definition spec_accept :: "sem_state \<Rightarrow> sem_state" where
  "spec_accept s = (snd (OSSemAccept (fst s)), snd s)"

definition sem_view :: "kernel \<Rightarrow> nat \<Rightarrow> sem_state" where
  "sem_view k e = (OSEventCnt (OSEvents k e), waiters k e)"

lemma sem_view_sched [simp]: "sem_view (OS_Sched k) e = sem_view k e"
  by (simp add: OS_Sched_def sem_view_def waiters_def switch_fields)

lemma sem_view_cnt: "sem_view (set_cnt e c k) e = (c, waiters k e)"
  by (simp add: set_cnt_def sem_view_def waiters_def set_event_view)

lemma sem_view_wake:
  assumes k: "kernel_ok k" and w: "waiters k e \<noteq> {}"
  shows "sem_view (snd (OS_EventTaskRdy e msg msk st k)) e = (OSEventCnt (OSEvents k e), waiters k e - {Min (waiters k e)})"
proof -
  let ?h = "list_highest (OSEventList (OSEvents k e))"
  have l: "list_ok (OSEventList (OSEvents k e))" using kernel_okD(5) [OF k, of e] by (simp add: event_ok_def)
  have h: "unat ?h = Min (waiters k e)" by (rule first_waiter_task(4) [OF k w])
  have "unat ?h < 32" using plist.highest_elem [OF l] w by (simp add: waiters_def)
  then have "prios (list_remove ?h (OSEventList (OSEvents k e))) = waiters k e - {unat ?h}"
    using plist.remove_elem [OF l, of ?h] by (simp add: waiters_def)
  then show ?thesis using h by (simp add: task_rdy_eq [OF k w] sem_view_def waiters_def)
qed

text \<open>C34. The semaphores of the kernel refine the counting semaphores that the other components use: with
  a task waiting a post takes the highest waiting task off the list and leaves the count, otherwise it counts up
  to 65535; a pend takes from the count or joins the waiting tasks; a semaphore with a count has none waiting.\<close>

theorem semaphores_refine:
  assumes "reachable k" "OSRunning k" "ev_type k e = OS_EVENT_TYPE_SEM"
  shows "sem_view (snd (sem_post (Some e) k)) e = spec_post (sem_view k e)
    \<and> sem_view (snd (sem_accept (Some e) k)) e = spec_accept (sem_view k e)
    \<and> (calling k \<and> OSIntNesting k = 0 \<and> OSLockNesting k = 0 \<longrightarrow>
         sem_view (snd (sem_pend (Some e) n k)) e = spec_pend (prio_of k (cur k)) (sem_view k e))
    \<and> (fst (sem_view k e) \<noteq> 0 \<longrightarrow> snd (sem_view k e) = {})"
proof (intro conjI impI)
  have s: "sys_ok k" using reachable_ok assms(1) .
  note k = sys_okD(1) [OF s]
  have ty: "OSEventType (OSEvents k e) = OS_EVENT_TYPE_SEM" using assms(3) by (simp add: ev_type_def)
  show "sem_view (snd (sem_post (Some e) k)) e = spec_post (sem_view k e)"
    using no_waiters [OF k, of e] sem_view_wake [OF k, of e]
    by (auto simp: sem_post_def ty spec_post_def OSSemPost_def sem_view_cnt sem_view_def [of k e])
  show "sem_view (snd (sem_accept (Some e) k)) e = spec_accept (sem_view k e)"
    by (simp add: sem_accept_def ty spec_accept_def OSSemAccept_def sem_view_cnt sem_view_def [of k e] Let_def)
  show "snd (sem_view k e) = {}" if "fst (sem_view k e) \<noteq> 0"
    using sem_waiters [OF k ty] that by (simp add: sem_view_def)
  assume c: "calling k \<and> OSIntNesting k = 0 \<and> OSLockNesting k = 0"
  then have l: "live k (cur k)" using cur_live [OF sys_okD(2) [OF s] assms(2)] by simp
  have le: "list_ok (OSEventList (OSEvents k e))" using kernel_okD(5) [OF k, of e] by (simp add: event_ok_def)
  note ok = kernel_okD(8) [OF k l]
  have "sem_view (wait_for e OS_STAT_SEM n k) e = (OSEventCnt (OSEvents k e), insert (prio_of k (cur k)) (waiters k e))"
    using plist.add_elem [OF le tcb_ok_prio [OF ok]] by (simp add: sem_view_def waiters_def wait_for_eq [OF ok] prio_of_def)
  then show "sem_view (snd (sem_pend (Some e) n k)) e = spec_pend (prio_of k (cur k)) (sem_view k e)"
    using c by (simp add: sem_pend_def ty spec_pend_def OSSemPend_def sem_view_cnt sem_view_def [of k e])
qed

lemma semaphores_refine_witness:
  "sem_view (snd (sem_post (Some 0) two_tasks)) 0 = (1, {}) \<and> sem_view (snd (sem_pend (Some 0) 5 two_tasks)) 0 = (0, {9})"
proof -
  have "OSRunning two_tasks" "ev_type two_tasks 0 = OS_EVENT_TYPE_SEM" "calling two_tasks" "OSIntNesting two_tasks = 0"
    "OSLockNesting two_tasks = 0" "sem_view two_tasks 0 = (0, {})" "prio_of two_tasks (cur two_tasks) = 9"
    by (simp_all add: two_tasks_eq calling_def new_tcb_def ev_type_def sem_view_def waiters_def list_ok_empty prio_of_def)
  then show ?thesis
    using semaphores_refine [OF two_tasks_reachable, of 0 5]
    by (simp add: spec_post_def spec_pend_def OSSemPost_def OSSemPend_def)
qed

section \<open>Queues\<close>

text \<open>The specification: the messages in the queue, at most \<open>n\<close>, and the priorities that wait.\<close>

type_synonym queue_state = "u32 list \<times> nat set"

definition spec_send :: "nat \<Rightarrow> u32 \<Rightarrow> queue_state \<Rightarrow> u8 \<times> queue_state" where
  "spec_send n m s =
     (if snd s \<noteq> {} then (OS_ERR_NONE, fst s, snd s - {Min (snd s)})
      else if length (fst s) < n then (OS_ERR_NONE, fst s @ [m], snd s)
      else (OS_ERR_Q_FULL, s))"

definition spec_receive :: "nat \<Rightarrow> queue_state \<Rightarrow> u32 option \<times> queue_state" where
  "spec_receive p s = (case fst s of m # ms \<Rightarrow> (Some m, ms, snd s) | [] \<Rightarrow> (None, [], insert p (snd s)))"

definition queue_view :: "kernel \<Rightarrow> nat \<Rightarrow> queue_state" where
  "queue_view k e = (q_items (queue_block (ev_owner k e)), waiters k e)"

lemma queue_view_sched [simp]: "queue_view (OS_Sched k) e = queue_view k e"
  by (simp add: queue_view_def OS_Sched_def waiters_def switch_fields ev_owner_def)

lemma queue_view_set: "queue_view (set_event e ((OSEvents k e)\<lparr>OSEventPtr := QueuePtr pq\<rparr>) k) e = (q_items pq, waiters k e)"
  by (simp add: queue_view_def waiters_def set_event_view ev_owner_def)

lemma waiters_wake:
  assumes k: "kernel_ok k" and w: "waiters k e \<noteq> {}"
  shows "waiters (snd (OS_EventTaskRdy e msg msk st k)) e = waiters k e - {Min (waiters k e)}"
  using sem_view_wake [OF assms, of msg msk st] by (simp add: sem_view_def)

lemma q_post_view:
  assumes k: "kernel_ok k" and ty: "OSEventType (OSEvents k e) = OS_EVENT_TYPE_Q"
  shows "(fst (q_post (Some e) m k), queue_view (snd (q_post (Some e) m k)) e)
    = spec_send (OSQSize (queue_block (ev_owner k e))) m (queue_view k e)"
proof -
  obtain pq where q: "OSEventPtr (OSEvents k e) = QueuePtr pq" "q_ok pq" "OSQEntries pq = 0 \<or> waiters k e = {}"
    by (rule queue_of_event [OF k ty])
  have own: "ev_owner k e = QueuePtr pq" using q(1) by (simp add: ev_owner_def)
  note n = no_waiters [OF k, of e]
  show ?thesis
  proof (cases "waiters k e = {}")
    case False
    have "ev_owner (snd (OS_EventTaskRdy e m OS_STAT_Q OS_STAT_PEND_OK k)) e = ev_owner k e"
      by (simp add: task_rdy_eq [OF k False] ev_owner_def)
    then have "queue_view (snd (OS_EventTaskRdy e m OS_STAT_Q OS_STAT_PEND_OK k)) e
        = (q_items (queue_block (ev_owner k e)), waiters k e - {Min (waiters k e)})"
      using waiters_wake [OF k False] by (simp add: queue_view_def)
    then show ?thesis using n False ty by (simp add: q_post_def spec_send_def queue_view_def [of k])
  next
    case True
    show ?thesis
    proof (cases "OSQEntries pq < OSQSize pq")
      case room: True
      obtain pq' where p: "OSQPost pq m = (True, pq')" "q_items pq' = q_items pq @ [m]"
        using OSQPost_room [OF q(2) room, of m] by (cases "OSQPost pq m") auto
      then show ?thesis using n True ty q(1) room own by (simp add: q_post_def spec_send_def queue_view_set queue_view_def [of k])
    next
      case False
      then have "OSQPost pq m = (False, pq)" by (simp add: OSQPost_def)
      then show ?thesis using n True ty q(1) False own by (simp add: q_post_def spec_send_def queue_view_def)
    qed
  qed
qed

lemma q_pend_view:
  assumes s: "sys_ok k" and c: "calling k" "OSIntNesting k = 0" "OSLockNesting k = 0" and ty: "OSEventType (OSEvents k e) = OS_EVENT_TYPE_Q"
  shows "(map_option fst (fst (q_pend (Some e) n k)), queue_view (snd (q_pend (Some e) n k)) e)
    = spec_receive (prio_of k (cur k)) (queue_view k e)"
proof -
  note k = sys_okD(1) [OF s]
  obtain pq where q: "OSEventPtr (OSEvents k e) = QueuePtr pq" "q_ok pq" "OSQEntries pq = 0 \<or> waiters k e = {}"
    by (rule queue_of_event [OF k ty])
  have own: "ev_owner k e = QueuePtr pq" using q(1) by (simp add: ev_owner_def)
  show ?thesis
  proof (cases "q_items pq")
    case Nil
    have l: "live k (cur k)" using cur_live [OF sys_okD(2) [OF s]] c(1) by (simp add: calling_def)
    note ok = kernel_okD(8) [OF k l]
    have le: "list_ok (OSEventList (OSEvents k e))" using kernel_okD(5) [OF k, of e] by (simp add: event_ok_def)
    have "queue_view (wait_for e OS_STAT_Q n k) e = ([], insert (prio_of k (cur k)) (waiters k e))"
      using plist.add_elem [OF le tcb_ok_prio [OF ok]] Nil q(1) by (simp add: queue_view_def waiters_def wait_for_eq [OF ok] prio_of_def ev_owner_def)
    moreover have "OSQPend pq = None" using Nil length_q_items [of pq] by (simp add: OSQPend_def)
    ultimately show ?thesis using c(2,3) ty q(1) own Nil by (simp add: q_pend_def spec_receive_def queue_view_def [of k])
  next
    case (Cons m ms)
    then obtain pq' where "OSQPend pq = Some (m, pq')" "q_items pq' = ms" using OSQPend_head [OF q(2)] by blast
    then show ?thesis using c(2,3) ty q(1) own Cons by (simp add: q_pend_def spec_receive_def queue_view_set queue_view_def [of k])
  qed
qed

text \<open>C35. The message queues of the kernel refine a bounded list of messages and a set of waiting tasks:
  a post with a task waiting hands the message to the one of the highest priority and leaves the list, otherwise it
  appends the message or, with the queue full, returns an error and changes nothing; a pend takes the oldest message
  or joins the waiting tasks; nobody waits while there are messages.\<close>

theorem queues_refine:
  assumes "reachable k" "OSRunning k" "ev_type k e = OS_EVENT_TYPE_Q"
  shows "(fst (q_post (Some e) m k), queue_view (snd (q_post (Some e) m k)) e)
        = spec_send (OSQSize (queue_block (ev_owner k e))) m (queue_view k e)
    \<and> (live k i \<and> prio_of k i = Min (waiters k e) \<and> waiters k e \<noteq> {} \<longrightarrow>
         OSTCBMsg (tcb (snd (q_post (Some e) m k)) i) = m \<and> OSTCBStatPend (tcb (snd (q_post (Some e) m k)) i) = OS_STAT_PEND_OK)
    \<and> (calling k \<and> OSIntNesting k = 0 \<and> OSLockNesting k = 0 \<longrightarrow>
         (map_option fst (fst (q_pend (Some e) n k)), queue_view (snd (q_pend (Some e) n k)) e)
           = spec_receive (prio_of k (cur k)) (queue_view k e))
    \<and> (fst (queue_view k e) \<noteq> [] \<longrightarrow> snd (queue_view k e) = {})"
proof (intro conjI impI)
  have s: "sys_ok k" using reachable_ok assms(1) .
  note k = sys_okD(1) [OF s]
  have ty: "OSEventType (OSEvents k e) = OS_EVENT_TYPE_Q" using assms(3) by (simp add: ev_type_def)
  show "(fst (q_post (Some e) m k), queue_view (snd (q_post (Some e) m k)) e)
      = spec_send (OSQSize (queue_block (ev_owner k e))) m (queue_view k e)" by (rule q_post_view [OF k ty])
  obtain pq where q: "OSEventPtr (OSEvents k e) = QueuePtr pq" "OSQEntries pq = 0 \<or> waiters k e = {}"
    using queue_of_event [OF k ty] by metis
  show "snd (queue_view k e) = {}" if "fst (queue_view k e) \<noteq> []"
  proof -
    have "OSQEntries pq \<noteq> 0" using that q(1) by (auto simp: queue_view_def ev_owner_def q_items_def)
    then show ?thesis using q(2) by (simp add: queue_view_def)
  qed
  show "(map_option fst (fst (q_pend (Some e) n k)), queue_view (snd (q_pend (Some e) n k)) e)
      = spec_receive (prio_of k (cur k)) (queue_view k e)" if "calling k \<and> OSIntNesting k = 0 \<and> OSLockNesting k = 0"
    using q_pend_view [OF s _ _ _ ty] that by blast
  assume w: "live k i \<and> prio_of k i = Min (waiters k e) \<and> waiters k e \<noteq> {}"
  note f = first_waiter_task [OF k, of e]
  have i: "first_waiter k e = i" using same_prio [OF k f(2)] f(3,4) w by (simp add: prio_of_def)
  have p: "snd (q_post (Some e) m k) = OS_Sched (snd (OS_EventTaskRdy e m OS_STAT_Q OS_STAT_PEND_OK k))"
    using no_waiters [OF k, of e] w ty by (simp add: q_post_def)
  have sch: "OSTCBMsg (tcb (OS_Sched x) i) = OSTCBMsg (tcb x i)" "OSTCBStatPend (tcb (OS_Sched x) i) = OSTCBStatPend (tcb x i)" for x
    by (simp_all add: OS_Sched_def switch_to_highest_def OS_SchedNew_def OS_CPU_PendSVHandler_def set_tcb_def Let_def)
  have e: "snd (OS_EventTaskRdy e m OS_STAT_Q OS_STAT_PEND_OK k) = snd (OS_EventTaskRdy e m OS_STAT_Q OS_STAT_PEND_OK k)
      \<and> tcb (snd (OS_EventTaskRdy e m OS_STAT_Q OS_STAT_PEND_OK k)) i = woken_tcb m OS_STAT_Q OS_STAT_PEND_OK (tcb k i)"
    using w by (simp add: task_rdy_eq [OF k] i)
  show "OSTCBMsg (tcb (snd (q_post (Some e) m k)) i) = m" "OSTCBStatPend (tcb (snd (q_post (Some e) m k)) i) = OS_STAT_PEND_OK"
    unfolding p sch using e by (simp_all add: woken_tcb_def)
qed

text \<open>A queue of three messages with one message in it, and a task of priority 9.\<close>

definition one_message :: kernel where
  "one_message = snd (q_post (Some 0) 7 (OSStart (snd (OSTaskCreate 9 (snd (q_create [0, 0, 0] OSInit))))))"

lemma one_message_start: "OSStart (snd (OSTaskCreate 9 (snd (q_create [0, 0, 0] OSInit)))) =
  \<lparr>OSTime = 0, OSIntNesting = 0, OSLockNesting = 0, OSTaskCtr = 3, OSRunning = True,
     OSTickStepState = 0, OSCtxSwCtr = 0, OSRdy = (10, [0, 2, 0, 3]), OSPrioCur = 9, OSPrioHighRdy = 9,
     OSTCBCur = Tcb 2, OSTCBHighRdy = Tcb 2,
     OSTCBPrioTbl = (\<lambda>_. NoTcb)(25 := Tcb 0, 24 := Tcb 1, 9 := Tcb 2),
     OSTCBs = (\<lambda>_. clear_tcb)(0 := new_tcb 25, 1 := new_tcb 24, 2 := new_tcb 9),
     OSTCBList = [2, 1, 0], OSTCBFreeList = 3 # [4 ..< OS_MAX_TCBS],
     OSEvents = OS_InitEventList(0 := \<lparr>OSEventType = OS_EVENT_TYPE_Q, OSEventPtr = QueuePtr (OSQCreate [0, 0, 0]), OSEventCnt = 0,
       OSEventList = list_empty\<rparr>), OSEventFreeList = EventPtr 1, OSQFree = 9\<rparr>"
  by (simp add: eval_start q_create_def Let_def)

lemma none_waits: "fst list_empty = 0"
  by (simp add: list_empty_def)

lemma one_message_reachable: "reachable one_message"
proof -
  have "reachable (OSStart (snd (OSTaskCreate 9 (snd (q_create [0, 0, 0] OSInit)))))"
    by (intro reachable.step [OF _ kernel_step.start] reachable.step [OF _ kernel_step.task_create]
        reachable.step [OF _ kernel_step.create_q] reachable.init) simp
  then show ?thesis unfolding one_message_def by (rule reachable.step [OF _ kernel_step.post_q]) (simp add: one_message_start)
qed

lemma queues_refine_witness:
  "queue_view (snd (q_post (Some 0) 8 one_message)) 0 = ([7, 8], {})
    \<and> (map_option fst (fst (q_pend (Some 0) 5 one_message)), queue_view (snd (q_pend (Some 0) 5 one_message)) 0) = (Some 7, [], {})"
proof -
  have "OSRunning one_message" "ev_type one_message 0 = OS_EVENT_TYPE_Q" "queue_view one_message 0 = ([7], {})"
    "OSQSize (queue_block (ev_owner one_message 0)) = 3" "calling one_message" "OSIntNesting one_message = 0" "OSLockNesting one_message = 0"
    unfolding one_message_def one_message_start
    by (simp_all add: q_post_def OSQPost_def OSQCreate_def set_event_def ev_type_def queue_view_def ev_owner_def waiters_def list_ok_empty
        q_items_def calling_def new_tcb_def none_waits Let_def)
  then show ?thesis
    using queues_refine [OF one_message_reachable, of 0 8 0 5] by (simp add: spec_send_def spec_receive_def)
qed

section \<open>Aborting and posting\<close>

text \<open>The loop of \<^verbatim>\<open>OSSemPendAbort\<close> takes the waiting tasks as \<^verbatim>\<open>plist.drain\<close> does.\<close>

lemma wake_all_drain:
  "kernel_ok k \<Longrightarrow> ev_type k e = OS_EVENT_TYPE_SEM \<Longrightarrow>
   fst (wake_all n e OS_STAT_SEM st k) = plist.drain n (OSEventList (OSEvents k e))
   \<and> (card (waiters k e) \<le> n \<longrightarrow> waiters (snd (wake_all n e OS_STAT_SEM st k)) e = {})"
proof (induction n arbitrary: k)
  case 0
  have "finite (waiters k e)" by (rule finite_subset [of _ "{..<32}"]) (auto simp: waiters_def prios_def)
  then show ?case by simp
next
  case (Suc n)
  note k = Suc.prems(1)
  show ?case
  proof (cases "waiters k e = {}")
    case True
    then show ?thesis using no_waiters [OF k] by simp
  next
    case False
    let ?k = "snd (OS_EventTaskRdy e 0 OS_STAT_SEM st k)"
    have ok: "kernel_ok ?k" by (rule wake_sem_ok [OF k False Suc.prems(2)])
    have ty: "ev_type ?k e = OS_EVENT_TYPE_SEM" using Suc.prems(2) by (simp add: task_rdy_eq [OF k False] ev_type_def)
    have w: "waiters ?k e = waiters k e - {Min (waiters k e)}" using sem_view_wake [OF k False] by (simp add: sem_view_def)
    have fin: "finite (waiters k e)" by (rule finite_subset [of _ "{..<32}"]) (auto simp: waiters_def prios_def)
    have "card (waiters ?k e) \<le> n" if "card (waiters k e) \<le> Suc n"
      unfolding w using that fin False by simp
    then show ?thesis
      using Suc.IH [OF ok ty] False no_waiters [OF k, of e]
      by (simp add: split_beta task_rdy_eq [OF k False])
  qed
qed

text \<open>Aborting a semaphore for all readies every waiting task, each once and the highest priority
  first, leaves nobody waiting and tells each of them that its wait was aborted, so the loop ends within 32 rounds.\<close>

lemma abort_wakes_all:
  assumes "reachable k" "OSRunning k" "ev_type k e = OS_EVENT_TYPE_SEM" "waiters k e \<noteq> {}"
  shows "fst (sem_pend_abort (Some e) True k) = OS_ERR_PEND_ABORT
    \<and> map unat (fst (snd (sem_pend_abort (Some e) True k))) = sorted_list_of_set (waiters k e)
    \<and> waiters (snd (snd (sem_pend_abort (Some e) True k))) e = {}
    \<and> sys_ok (snd (snd (sem_pend_abort (Some e) True k)))"
proof -
  have s: "sys_ok k" using reachable_ok assms(1) .
  note k = sys_okD(1) [OF s]
  have ty: "OSEventType (OSEvents k e) = OS_EVENT_TYPE_SEM" using assms(3) by (simp add: ev_type_def)
  have le: "list_ok (OSEventList (OSEvents k e))" using kernel_okD(5) [OF k, of e] by (simp add: event_ok_def)
  have "waiters k e \<subseteq> {..<32}" by (auto simp: waiters_def prios_def)
  then have c: "card (waiters k e) \<le> 32" using card_mono [of "{..<32 :: nat}"] by fastforce
  note d = wake_all_drain [OF k assms(3), of 32 OS_STAT_PEND_ABORT]
  have "map unat (plist.drain 32 (OSEventList (OSEvents k e))) = sorted_list_of_set (waiters k e)"
    using plist.drain_sorted [OF le] c by (simp add: waiters_def)
  moreover have "waiters (OS_Sched x) e = waiters x e" for x by (simp add: OS_Sched_def waiters_def switch_fields)
  moreover have "sys_ok (snd (snd (sem_pend_abort (Some e) True k)))" by (rule sem_pend_abort_ok [OF s assms(2)])
  ultimately show ?thesis
    using d c ty no_waiters [OF k, of e] assms(4) by (simp add: sem_pend_abort_def split_beta del: wake_all.simps plist.drain.simps)
qed

lemma abort_wakes_all_witness: "map unat (fst (snd (sem_pend_abort (Some 0) True one_waits))) = [9]"
  using abort_wakes_all [OF one_waits_reachable, of 0] one_waits_eq one_waits_waiters by (simp add: ev_type_def)

text \<open>What a post does to the task it wakes: of the waiting tasks the one of the highest priority leaves
  the list, its time-out is stopped, it is told that it was posted to, and it can run unless somebody suspended it.\<close>

lemma post_wakes_highest:
  assumes "reachable k" "OSRunning k" "ev_type k e = OS_EVENT_TYPE_SEM" "live k i" "prio_of k i = Min (waiters k e)" "waiters k e \<noteq> {}"
  shows "let (err, k') = sem_post (Some e) k in err = OS_ERR_NONE
    \<and> OSTCBDly (tcb k' i) = 0 \<and> OSTCBStatPend (tcb k' i) = OS_STAT_PEND_OK \<and> prio_of k i \<notin> waiters k' e
    \<and> (OSTCBStat (tcb k i) AND OS_STAT_SUSPEND = 0 \<longrightarrow> runnable (tcb k' i) \<and> prio_of k i \<in> ready k')
    \<and> (OSTCBStat (tcb k i) AND OS_STAT_SUSPEND \<noteq> 0 \<longrightarrow> OSTCBStat (tcb k' i) = OS_STAT_SUSPEND)"
proof -
  have s: "sys_ok k" using reachable_ok assms(1) .
  note k = sys_okD(1) [OF s]
  have ty: "OSEventType (OSEvents k e) = OS_EVENT_TYPE_SEM" using assms(3) by (simp add: ev_type_def)
  note f = first_waiter_task [OF k assms(6)]
  have i: "first_waiter k e = i" using same_prio [OF k f(2) assms(4)] f(3,4) assms(5) by (simp add: prio_of_def)
  let ?k1 = "snd (OS_EventTaskRdy e 0 OS_STAT_SEM OS_STAT_PEND_OK k)"
  let ?k' = "snd (sem_post (Some e) k)"
  have p: "sem_post (Some e) k = (OS_ERR_NONE, OS_Sched ?k1)"
    using ty no_waiters [OF k, of e] assms(6) by (simp add: sem_post_def)
  have s': "sys_ok ?k'" by (rule sem_post_ok [OF s assms(2)])
  have v: "waiters ?k' e = waiters k e - {Min (waiters k e)}"
    using sem_view_wake [OF k assms(6), of 0 OS_STAT_SEM OS_STAT_PEND_OK] sem_view_sched [of ?k1 e] by (simp add: sem_view_def p)
  have sch: "OSTCBDly (tcb (OS_Sched x) i) = OSTCBDly (tcb x i)" "OSTCBStat (tcb (OS_Sched x) i) = OSTCBStat (tcb x i)"
    "OSTCBStatPend (tcb (OS_Sched x) i) = OSTCBStatPend (tcb x i)" "OSTCBPrio (tcb (OS_Sched x) i) = OSTCBPrio (tcb x i)"
    "OSTCBList (OS_Sched x) = OSTCBList x" for x
    by (simp_all add: OS_Sched_def switch_to_highest_def OS_SchedNew_def OS_CPU_PendSVHandler_def set_tcb_def Let_def)
  have t: "OSTCBDly (tcb ?k' i) = 0" "OSTCBStatPend (tcb ?k' i) = OS_STAT_PEND_OK"
    "OSTCBStat (tcb ?k' i) = OSTCBStat (tcb k i) AND NOT OS_STAT_SEM" "prio_of ?k' i = prio_of k i" "live ?k' i"
    using assms(4) by (simp_all add: p sch task_rdy_eq [OF k assms(6)] i woken_tcb_def prio_of_def)
  have st: "OSTCBStat (tcb k i) AND OS_STAT_SUSPEND = 0 \<Longrightarrow> OSTCBStat (tcb k i) AND NOT OS_STAT_SEM = 0"
    "OSTCBStat (tcb k i) AND OS_STAT_SUSPEND \<noteq> 0 \<Longrightarrow> OSTCBStat (tcb k i) AND NOT OS_STAT_SEM = OS_STAT_SUSPEND"
    if "\<not> (pending (tcb k i) \<and> OSTCBStat (tcb k i) AND OS_STAT_PEND_ANY \<noteq> OS_STAT_SEM)"
    by (rule tcb_stat_cases [OF kernel_okD(8) [OF k assms(4)]]; use that in \<open>simp add: pending_def\<close>)+
  have "\<not> (pending (tcb k i) \<and> OSTCBStat (tcb k i) AND OS_STAT_PEND_ANY \<noteq> OS_STAT_SEM)"
    using task_okD(8) [OF kernel_okD(4) [OF k assms(4)], of e] f(6) assms(3) by (auto simp: i type_mask_def)
  note st = st [OF this]
  have "runnable (tcb ?k' i) \<Longrightarrow> prio_of k i \<in> ready ?k'"
    using task_okD(3) [OF kernel_okD(4) [OF sys_okD(1) [OF s'] t(5)]] t(4) by simp
  then have "OSTCBStat (tcb k i) AND OS_STAT_SUSPEND = 0 \<Longrightarrow> runnable (tcb ?k' i) \<and> prio_of k i \<in> ready ?k'"
    using st(1) t(1,3) by (simp add: runnable_def)
  then show ?thesis using t(1-3) v assms(5) st(2) p by (simp add: split_beta)
qed

lemma post_wakes_highest_witness:
  "fst (sem_post (Some 0) one_waits) = OS_ERR_NONE \<and> runnable (tcb (snd (sem_post (Some 0) one_waits)) 2)"
  using post_wakes_highest [OF one_waits_reachable, of 0 2] one_waits_eq one_waits_waiters
  by (simp add: ev_type_def prio_of_def split_beta)

end
