(* ===== verification/Net_Receive.thy ===== *)
theory Net_Receive
  imports Wire_Codec Ring_Buffer Os_Memory
begin

text \<open>
  The connection to the server, \<^verbatim>\<open>User/src/netconf.c\<close>: reading contract, batch and order
  messages from the data of a received packet, handling them, and sending requests and states; with
  \<^verbatim>\<open>checkBufData\<close> of \<^verbatim>\<open>more_infomation.c\<close>.  The pointer and length of the data are the list of
  the bytes left.  lwIP is a parameter: what a write returns.  \<^term>\<open>None\<close> is a use of an array out
  of its range, a loop that does not end, or the wait of \<^verbatim>\<open>put_in_buf\<close> for room.
\<close>

section \<open>State\<close>

record net_state =
  nt_contract :: "u8 list"
  nt_batch :: "u8 list"
  nt_contract_information :: contract_info
  nt_contract_partner :: u32
  nt_batch_number :: u16
  nt_last_bacth_number :: u16
  nt_batch_flag :: bool
  nt_batch_table_hash :: u8
  nt_batch_info_table :: "batch_info list"
  nt_max_length :: u16
  nt_queue :: SqQueue
  nt_urgent :: SqQueue
  nt_capacity :: u32
  nt_Print_Queue_Sem :: u16
  nt_Batch_Rec_Sem :: u16
  nt_sent :: "u8 list list"

abbreviation (input) "ORDER_REQUEST \<equiv> (0 :: u8)"
abbreviation (input) "BATCH_ENTER_BUF \<equiv> (1 :: u8)"
abbreviation (input) "CONTRACT_DOCUMENT \<equiv> (0 :: u8)"
abbreviation (input) "CONTRACT_SIGN \<equiv> (2 :: u8)"
abbreviation (input) "CONTRACT_ESCAPE \<equiv> (4 :: u8)"

definition Get_MCU_ID :: u32 where "Get_MCU_ID = 1"
definition Get_Current_Unix_Time :: u32 where "Get_Current_Unix_Time = 0"
definition Get_Batch_Unix_Time :: "u16 \<Rightarrow> u32" where "Get_Batch_Unix_Time batch_number = 0"
definition Get_Order_Unix_Time :: "u32 \<Rightarrow> u32" where "Get_Order_Unix_Time order_number = 0"
definition Get_MCU_MaxBufSize :: u16 where "Get_MCU_MaxBufSize = of_nat MAXQSIZE"

section \<open>Sending\<close>

text \<open>What a write of lwIP returns: success, an error that ends the connection, another one.\<close>

datatype write_result = Written | Fatal | Failed

text \<open>The loop around the write: the attempts made and whether the frame was written.\<close>

function write_tries :: "(nat \<Rightarrow> write_result) \<Rightarrow> req_type \<Rightarrow> nat \<Rightarrow> nat \<times> bool" where
  "write_tries res type i =
     (case res i of
        Written \<Rightarrow> (Suc i, True)
      | Fatal \<Rightarrow> (Suc i, False)
      | Failed \<Rightarrow>
          if type \<noteq> order_req
          then if 3 < Suc i then (Suc i, False) else write_tries res type (Suc i)
          else if 10 < Suc i then (Suc i, False) else write_tries res type (Suc i))"
  by pat_completeness auto
termination
  by (relation "measure (\<lambda>(res, type, i). 12 - i)") auto

declare write_tries.simps [simp del]

definition request_frame :: "req_type \<Rightarrow> u8 \<Rightarrow> u32 \<Rightarrow> u8 list option" where
  "request_frame type symbol preservation =
     (let sent_data = replicate SEND_DATA_SIZE 0
      in case type of
           order_req \<Rightarrow> Pack_Req_Or_Status_Message sent_data ORDER_REQ symbol Get_MCU_ID Get_Current_Unix_Time preservation
         | batch_status \<Rightarrow> Pack_Req_Or_Status_Message sent_data BATCH_STATUS symbol Get_MCU_ID
             (Get_Batch_Unix_Time (ucast preservation)) (push_bit 16 preservation)
         | printer_status \<Rightarrow> Pack_Req_Or_Status_Message sent_data PRINTER_STATUS symbol Get_MCU_ID Get_Current_Unix_Time preservation
         | order_status \<Rightarrow> Pack_Req_Or_Status_Message sent_data ORDER_STATUS symbol Get_MCU_ID
             (Get_Batch_Unix_Time (ucast (drop_bit 16 preservation))) preservation
         | first_req \<Rightarrow> Pack_Req_Or_Status_Message sent_data FIRST_REQ symbol Get_MCU_ID Get_Current_Unix_Time preservation
         | wifi_order_req \<Rightarrow> Some sent_data)"

text \<open>The frames that reach lwIP are recorded when a write succeeds.\<close>

definition write_connection :: "(nat \<Rightarrow> write_result) \<Rightarrow> req_type \<Rightarrow> u8 \<Rightarrow> u32 \<Rightarrow> net_state \<Rightarrow> net_state option" where
  "write_connection res type symbol preservation s =
     (case request_frame type symbol preservation of None \<Rightarrow> None
      | Some f \<Rightarrow> Some (if snd (write_tries res type 0) then s\<lparr>nt_sent := nt_sent s @ [f]\<rparr> else s))"

text \<open>
  \<^verbatim>\<open>contract_response\<close> tries until it succeeds or the connection ends.  \<^verbatim>\<open>Get_MCU_Speed\<close> has no
  return statement and \<^verbatim>\<open>Get_MCU_Status\<close> reads an uninitialised variable: their values are the
  arguments \<open>speed\<close> and \<open>health\<close>.
\<close>

partial_function (option) response_tries :: "(nat \<Rightarrow> write_result) \<Rightarrow> nat \<Rightarrow> bool option" where
  "response_tries res i = (case res i of Written \<Rightarrow> Some True | Fatal \<Rightarrow> Some False | Failed \<Rightarrow> response_tries res (Suc i))"

definition contract_response :: "(nat \<Rightarrow> write_result) \<Rightarrow> u16 \<Rightarrow> u32 \<Rightarrow> contract_type_e \<Rightarrow> net_state \<Rightarrow> net_state option" where
  "contract_response res speed health type s =
     (case Pack_Contract_Message (replicate MAX_CONTRACT_HEAD_LENGTH 0) type (ci_contract_number (nt_contract_information s))
        Get_MCU_ID Get_Current_Unix_Time speed Get_MCU_MaxBufSize health of None \<Rightarrow> None
      | Some f \<Rightarrow> (case response_tries res 0 of None \<Rightarrow> None
          | Some ok \<Rightarrow> Some (if ok then s\<lparr>nt_sent := nt_sent s @ [f]\<rparr> else s)))"

section \<open>Checking the orders of a batch\<close>

partial_function (option) checkBufData :: "SqQueue \<Rightarrow> u32 \<Rightarrow> int option" where
  "checkBufData buf index =
     (if index = sq_write buf then Some 0
      else if length (sq_base buf) \<le> unat index then None
      else if sq_base buf ! unat index \<noteq> 0x3e \<and> length (sq_base buf) \<le> unat (index + 1) then None
      else if sq_base buf ! unat index \<noteq> 0x3e \<and> (ucast (sq_base buf ! unat (index + 1)) :: u32) mod sq_MAX buf \<noteq> 0x11 then Some 1
      else let at = (\<lambda>k. sq_base buf ! unat ((index + k) mod sq_MAX buf));
               bufLength = ucast (be16 (at (of_nat ORDER_SIZE_OFFSET)) (at (of_nat ORDER_SIZE_OFFSET + 1))) :: u32
           in if at (of_nat BUF_HEAD + bufLength + of_nat BUF_END - 2) \<noteq> 0x11 \<or> at (of_nat BUF_HEAD + bufLength + of_nat BUF_END - 1) \<noteq> 0xe3
              then Some 1
              else checkBufData buf ((index + of_nat BUF_HEAD + bufLength + of_nat BUF_END) mod sq_MAX buf))"

section \<open>Reading a message\<close>

text \<open>One successful turn of \<^verbatim>\<open>put_in_buf\<close> on the buffer it has chosen; a full buffer is a wait.\<close>

definition put_data :: "u8 list \<Rightarrow> SqQueue \<Rightarrow> u32 \<Rightarrow> (SqQueue \<times> u32) option" where
  "put_data data buf cap =
     (case Write_Buf buf cap data (of_nat (length data)) of None \<Rightarrow> None
      | Some (buf_err, buf, cap) \<Rightarrow> if buf_err \<noteq> BUF_OK then None else Some (buf, cap))"

definition put_in_buf :: "u8 list \<Rightarrow> u16 \<Rightarrow> net_state \<Rightarrow> net_state option" where
  "put_in_buf data urg s =
     (case put_data data (if urg \<noteq> 0 then nt_urgent s else nt_queue s) (nt_capacity s) of None \<Rightarrow> None
      | Some (buf, cap) \<Rightarrow>
          Some ((if urg \<noteq> 0 then s\<lparr>nt_urgent := buf\<rparr> else s\<lparr>nt_queue := buf\<rparr>)\<lparr>nt_capacity := cap\<rparr>))"

abbreviation cur_batch :: "net_state \<Rightarrow> batch_info" where
  "cur_batch s \<equiv> nt_batch_info_table s ! unat (nt_batch_table_hash s)"

text \<open>Copying the head of the data over the front of a message array.\<close>

definition copy_front :: "u8 list \<Rightarrow> nat \<Rightarrow> u8 list \<Rightarrow> u8 list" where
  "copy_front data n dst = take n data @ drop (min n (length data)) dst"

definition read_order_data :: "u8 list \<Rightarrow> net_state \<Rightarrow> (bool \<times> u8 list \<times> net_state) option" where
  "read_order_data data s =
     (let s = (if nt_max_length s = 0 then s\<lparr>nt_max_length := bi_batch_length (cur_batch s) - of_nat MAX_BATCH_HEAD_LENGTH\<rparr> else s)
      in if length data \<le> unat (nt_max_length s)
         then (case put_in_buf data (bi_preservation (cur_batch s)) s of None \<Rightarrow> None
           | Some s \<Rightarrow> let s = s\<lparr>nt_max_length := nt_max_length s - of_nat (length data)\<rparr>
                       in Some (nt_max_length s = 0, [], s))
         else if 0 < nt_max_length s
         then (case put_in_buf (take (unat (nt_max_length s)) data) (bi_preservation (cur_batch s)) s of None \<Rightarrow> None
           | Some s' \<Rightarrow> Some (True, drop (unat (nt_max_length s)) data, s'\<lparr>nt_max_length := 0\<rparr>))
         else Some (True, data, s))"

definition read_message_from_netbuf :: "u8 list \<Rightarrow> u8 \<Rightarrow> net_state \<Rightarrow> (bool \<times> u8 list \<times> net_state) option" where
  "read_message_from_netbuf data netbuf_type s =
     (case (if netbuf_type = NETORDER_TYPE_CONTRACT
            then let n = (if nt_max_length s = 0 then MAX_CONTRACT_HEAD_LENGTH else unat (nt_max_length s));
                     c = copy_front data n (nt_contract s)
                 in if length (nt_contract s) < min n (length data) then None
                    else Some (n \<le> length data \<and> c ! CONTRACT_TAIL_OFFSET = 0xfb \<and> c ! (CONTRACT_TAIL_OFFSET + 1) = 0xbf,
                               drop n data, s\<lparr>nt_contract := c, nt_max_length := 0\<rparr>)
            else if netbuf_type = NETORDER_TYPE_BATCH
            then let n = (if nt_max_length s = 0 then MAX_BATCH_HEAD_LENGTH else unat (nt_max_length s));
                     b = copy_front data n (nt_batch s)
                 in if length (nt_batch s) < min n (length data) then None
                    else Some (n \<le> length data \<and> b ! BATCH_TAIL_OFFSET = 0x55 \<and> b ! (BATCH_TAIL_OFFSET + 1) = 0xaa,
                               drop n data, s\<lparr>nt_batch := b, nt_max_length := 0\<rparr>)
            else if netbuf_type = NETORDER_TYPE_ORDER
            then if nt_batch_flag s then read_order_data data s else Some (False, [], s)
            else Some (False, data, s)) of
        None \<Rightarrow> None
      | Some (read_symbol, rest, s) \<Rightarrow> Some (read_symbol, rest, if read_symbol then s\<lparr>nt_batch_flag := False\<rparr> else s))"

section \<open>Handling a message\<close>

definition deal_with_contract_order :: "(nat \<Rightarrow> write_result) \<Rightarrow> u16 \<Rightarrow> u32 \<Rightarrow> u8 list \<Rightarrow> net_state \<Rightarrow> net_state option" where
  "deal_with_contract_order res speed health contract_buf s =
     (let contract_type = contract_buf ! CONTRACT_TYPE_OFFSET
      in if contract_type = CONTRACT_DOCUMENT
         then if nt_contract_partner s \<noteq> 0 then Some s
              else contract_response res speed health contract_mcu_status
                (s\<lparr>nt_contract_information := Analyze_Contract_Info_Table (nt_contract_information s) contract_buf\<rparr>)
         else if contract_type = CONTRACT_SIGN
         then if nt_contract_partner s \<noteq> 0 then Some s
              else contract_response res speed health contract_sign_confirm
                (s\<lparr>nt_contract_information := Analyze_Contract_Info_Table (nt_contract_information s) contract_buf,
                   nt_contract_partner := 1\<rparr>)
         else if contract_type = CONTRACT_ESCAPE
         then contract_response res speed health contract_escape_confirm
                (s\<lparr>nt_contract_information := (nt_contract_information s)\<lparr>ci_contract_number := 0\<rparr>, nt_contract_partner := 0\<rparr>)
         else Some s)"

definition deal_with_batch_order :: "net_state \<Rightarrow> net_state" where
  "deal_with_batch_order s =
     (let s = s\<lparr>nt_last_bacth_number := nt_batch_number s\<rparr>;
          s = s\<lparr>nt_batch_number := ANALYZE_DATA_2B (nt_batch s) BATCH_NUMBER_OFFSET\<rparr>;
          s = s\<lparr>nt_batch_table_hash := get_batch_hash (nt_batch_number s)\<rparr>;
          s = s\<lparr>nt_batch_info_table := Analyze_Batch_Info_Table (nt_batch_info_table s) (nt_batch s) (nt_batch_number s)\<rparr>
      in if nt_batch_number s \<noteq> nt_last_bacth_number s then s\<lparr>nt_batch_flag := True\<rparr> else s)"

definition batch_start :: "SqQueue \<Rightarrow> u16 \<Rightarrow> u32" where
  "batch_start buf batch_length =
     (sq_write buf + sq_MAX buf - (ucast batch_length - of_nat MAX_BATCH_HEAD_LENGTH)) mod sq_MAX buf"

definition deal_with_order_order :: "(nat \<Rightarrow> write_result) \<Rightarrow> net_state \<Rightarrow> net_state option" where
  "deal_with_order_order res s =
     (let urg = (bi_preservation (cur_batch s) \<noteq> 0);
          tempBuf = (if urg then nt_urgent s else nt_queue s);
          oldWritePtr = batch_start tempBuf (bi_batch_length (cur_batch s))
      in case checkBufData tempBuf oldWritePtr of None \<Rightarrow> None
         | Some err \<Rightarrow>
             if err = 1
             then Some (if urg then s\<lparr>nt_urgent := tempBuf\<lparr>sq_write := oldWritePtr\<rparr>\<rparr>
                        else s\<lparr>nt_queue := tempBuf\<lparr>sq_write := oldWritePtr\<rparr>\<rparr>)
             else let s = s\<lparr>nt_Print_Queue_Sem := OSSemPost (nt_Print_Queue_Sem s),
                            nt_Batch_Rec_Sem := OSSemPost (nt_Batch_Rec_Sem s)\<rparr>
                  in map_option (\<lambda>s. s\<lparr>nt_batch_flag := False\<rparr>)
                       (write_connection res batch_status BATCH_ENTER_BUF (ucast (nt_batch_number s)) s))"

definition deal_with_order :: "(nat \<Rightarrow> write_result) \<Rightarrow> u16 \<Rightarrow> u32 \<Rightarrow> u8 \<Rightarrow> net_state \<Rightarrow> net_state option" where
  "deal_with_order res speed health netbuf_type s =
     (if netbuf_type = NETORDER_TYPE_CONTRACT then deal_with_contract_order res speed health (nt_contract s) s
      else if netbuf_type = NETORDER_TYPE_BATCH then Some (deal_with_batch_order s)
      else if netbuf_type = NETORDER_TYPE_ORDER then deal_with_order_order res s
      else Some s)"

text \<open>The data of one packet: the loop from the label \<^verbatim>\<open>start\<close>.\<close>

partial_function (option) receive_data :: "(nat \<Rightarrow> write_result) \<Rightarrow> u16 \<Rightarrow> u32 \<Rightarrow> u8 list \<Rightarrow> net_state \<Rightarrow> net_state option" where
  "receive_data res speed health data s =
     (case find_order_head data (length data) of (netbuf_type, i, len) \<Rightarrow>
        if netbuf_type = NETORDER_TYPE_NULL then Some s
        else case read_message_from_netbuf (take len (drop i data)) netbuf_type s of None \<Rightarrow> None
          | Some (read_message_symbol, rest, s) \<Rightarrow>
              (case (if read_message_symbol then deal_with_order res speed health netbuf_type s else Some s) of None \<Rightarrow> None
               | Some s \<Rightarrow> if rest \<noteq> [] then receive_data res speed health rest s else Some s))"

section \<open>The length of a response\<close>

lemma write_tries_bound:
  "i < (if type \<noteq> order_req then 4 else 11) \<Longrightarrow>
   i < fst (write_tries res type i) \<and> fst (write_tries res type i) \<le> (if type \<noteq> order_req then 4 else 11)
   \<and> (snd (write_tries res type i) \<longleftrightarrow> res (fst (write_tries res type i) - 1) = Written)"
proof (induction res type i rule: write_tries.induct)
  case (1 res type i)
  show ?case
  proof (cases "res i")
    case Failed
    then show ?thesis
      using 1 by (cases "type = order_req") (auto simp: write_tries.simps [of res type i] write_tries.simps [of res order_req i] Suc_le_eq)
  qed (use "1.prems" in \<open>auto simp: write_tries.simps [of res type i]\<close>)
qed

section \<open>A batch of orders\<close>

definition order_frame :: "u8 list \<Rightarrow> bool" where
  "order_frame f \<longleftrightarrow> 28 \<le> length f \<and> length f = 28 + unat (be16 (f ! 2) (f ! 3)) \<and> f ! 0 = 0x3e \<and> f ! 1 = 0x11
     \<and> f ! (length f - 2) = 0x11 \<and> f ! (length f - 1) = 0xe3"

definition ring_pos :: "SqQueue \<Rightarrow> nat \<Rightarrow> nat" where
  "ring_pos buf n = (unat (sq_read buf) + n) mod unat (sq_MAX buf)"

lemma ring_pos_add:
  assumes "ring buf" "unat index = ring_pos buf n" "unat k < 1000000"
  shows "unat ((index + k) mod sq_MAX buf) = ring_pos buf (n + unat k)"
proof -
  have "ring_pos buf n < unat (sq_MAX buf)" using ring_bounds(3) [OF assms(1)] by (simp add: ring_pos_def)
  then have "unat index < 65536" using assms(2) ring_bounds(4) [OF assms(1)] by linarith
  then have "unat (index + k) = unat index + unat k"
    using assms(3) by (subst unat_add_lem [THEN iffD1]) auto
  then show ?thesis by (simp add: unat_mod_distrib assms(2) ring_pos_def mod_add_left_eq add.assoc)
qed

lemma unat_plus_small:
  assumes "unat (L :: u32) < 65536" "c < 1000"
  shows "unat (L + of_nat c) = unat L + c"
proof -
  have "unat (of_nat c :: u32) = c" using assms(2) by (simp add: unat_of_nat take_bit_nat_eq_self)
  then show ?thesis using assms by (subst unat_add_lem [THEN iffD1]) simp_all
qed

lemma base_at:
  assumes "ring buf" "n < used buf"
  shows "sq_base buf ! ring_pos buf n = contents buf ! n"
  using assms used_less [OF assms(1)] peek_nat [OF assms(1), of n] by (simp add: contents_def ring_pos_def)

lemma checkBufData_step:
  assumes "ring buf" "contents buf = pre @ f @ post" "unat index = ring_pos buf (length pre)"
    "f ! 0 = 0x3e" "length f = 28 + unat (be16 (f ! 2) (f ! 3))" "index \<noteq> sq_write buf"
  shows "checkBufData buf index =
    (if f ! (length f - 2) \<noteq> 0x11 \<or> f ! (length f - 1) \<noteq> 0xe3 then Some 1
     else checkBufData buf ((index + (ucast (be16 (f ! 2) (f ! 3)) + 28)) mod sq_MAX buf))"
    "unat ((index + (ucast (be16 (f ! 2) (f ! 3)) + 28)) mod sq_MAX buf) = ring_pos buf (length (pre @ f))"
proof -
  define L where "L = (ucast (be16 (f ! 2) (f ! 3)) :: u32)"
  have l: "unat L = unat (be16 (f ! 2) (f ! 3))" unfolding L_def
    using unat_u16 [of "be16 (f ! 2) (f ! 3)"] by (simp add: unsigned_ucast_eq take_bit_nat_eq_self)
  then have lf: "length f = 28 + unat L" using assms(5) by simp
  have u: "length pre + length f \<le> used buf" using arg_cong [OF assms(2), of length] by simp
  have at: "sq_base buf ! unat ((index + k) mod sq_MAX buf) = f ! unat k" if "unat k < length f" for k
  proof -
    have "length f < 65536" using u used_less [OF assms(1)] by linarith
    then have "unat ((index + k) mod sq_MAX buf) = ring_pos buf (length pre + unat k)"
      using that by (intro ring_pos_add [OF assms(1,3)]) linarith
    then show ?thesis using base_at [OF assms(1), of "length pre + unat k"] that u assms(2) by (simp add: nth_append)
  qed
  have L16: "unat L < 65536" unfolding l by (rule unat_u16)
  have eqs: "24 + L + 4 - 2 = L + of_nat 26" "24 + L + 4 - 1 = L + of_nat 27" "L + 28 = L + of_nat 28" by simp_all
  have k: "unat (24 + L + 4 - 2) = unat L + 26" "unat (24 + L + 4 - 1) = unat L + 27" "unat (L + 28) = unat L + 28"
    unfolding eqs by (rule unat_plus_small [OF L16], simp)+
  have "unat index < unat (sq_MAX buf)" using ring_bounds [OF assms(1)] by (simp add: assms(3) ring_pos_def)
  then have i: "unat index < length (sq_base buf)" "index mod sq_MAX buf = index"
    using ring_bounds [OF assms(1)] by (simp_all add: word_unat_eq_iff unat_mod_distrib)
  have h: "sq_base buf ! unat index = 0x3e" using at [of 0] assms(4) i(2) lf by simp
  have a: "sq_base buf ! unat ((index + 2) mod sq_MAX buf) = f ! 2" "sq_base buf ! unat ((index + 3) mod sq_MAX buf) = f ! 3"
    using at [of 2] at [of 3] lf by simp_all
  have ft: "length f - 2 = unat L + 26" "length f - 1 = unat L + 27" using lf by simp_all
  have t: "sq_base buf ! unat ((index + (24 + L + 4 - 2)) mod sq_MAX buf) = f ! (length f - 2)"
    "sq_base buf ! unat ((index + (24 + L + 4 - 1)) mod sq_MAX buf) = f ! (length f - 1)"
    using at [of "24 + L + 4 - 2"] at [of "24 + L + 4 - 1"] unfolding k ft by (simp_all only: lf)
  show "checkBufData buf index =
    (if f ! (length f - 2) \<noteq> 0x11 \<or> f ! (length f - 1) \<noteq> 0xe3 then Some 1
     else checkBufData buf ((index + (ucast (be16 (f ! 2) (f ! 3)) + 28)) mod sq_MAX buf))"
    unfolding L_def [symmetric] using assms(6) i(1) h a t
    by (subst checkBufData.simps) (simp add: Let_def L_def [symmetric] ac_simps)
  show "unat ((index + (ucast (be16 (f ! 2) (f ! 3)) + 28)) mod sq_MAX buf) = ring_pos buf (length (pre @ f))"
    unfolding L_def [symmetric] using ring_pos_add [OF assms(1,3), of "L + 28"] k(3) L16 lf by (simp add: add.commute)
qed

lemma checkBufData_end: "checkBufData buf (sq_write buf) = Some 0"
  by (simp add: checkBufData.simps)

lemma checkBufData_frames:
  assumes "ring buf" "contents buf = pre @ concat fs" "\<forall>f \<in> set fs. order_frame f" "unat index = ring_pos buf (length pre)"
  shows "checkBufData buf index = Some 0"
  using assms(2-4)
proof (induction fs arbitrary: pre index)
  case Nil
  have "length pre = used buf" using Nil.prems(1) by (metis append_Nil2 concat.simps(1) length_contents)
  then have "index = sq_write buf" using Nil.prems(3) ring_write [OF assms(1)] by (simp add: word_unat_eq_iff ring_pos_def)
  then show ?case by (simp add: checkBufData_end)
next
  case (Cons f fs)
  have f: "f ! 0 = 0x3e" "length f = 28 + unat (be16 (f ! 2) (f ! 3))" "f ! (length f - 2) = 0x11" "f ! (length f - 1) = 0xe3"
    using Cons.prems(2) unfolding order_frame_def by (meson list.set_intros(1))+
  have c: "contents buf = pre @ f @ concat fs" using Cons.prems(1) by simp
  show ?case
  proof (cases "index = sq_write buf")
    case False
    note step = checkBufData_step [OF assms(1) c Cons.prems(3) f(1,2) False]
    have "checkBufData buf ((index + (ucast (be16 (f ! 2) (f ! 3)) + 28)) mod sq_MAX buf) = Some 0"
      using c Cons.prems(2) step(2) by (intro Cons.IH [of "pre @ f"]) simp_all
    then show ?thesis using step(1) f(3,4) by simp
  qed (simp add: checkBufData_end)
qed

text \<open>The first order of the data lacks its end mark.\<close>

definition bad_tail :: "u8 list \<Rightarrow> bool" where
  "bad_tail d \<longleftrightarrow> (let n = 28 + unat (be16 (d ! 2) (d ! 3))
     in 4 \<le> length d \<and> n \<le> length d \<and> (d ! (n - 2) \<noteq> 0x11 \<or> d ! (n - 1) \<noteq> 0xe3))"

lemma checkBufData_bad:
  assumes "ring buf" "contents buf = pre @ d" "unat index = ring_pos buf (length pre)" "d ! 0 = 0x3e" "bad_tail d"
    "length d < unat (sq_MAX buf)"
  shows "checkBufData buf index = Some 1"
proof -
  define n where "n = 28 + unat (be16 (d ! 2) (d ! 3))"
  have n: "n \<le> length d" "d ! (n - 2) \<noteq> 0x11 \<or> d ! (n - 1) \<noteq> 0xe3" "28 \<le> n"
    using assms(5) by (simp_all add: bad_tail_def Let_def n_def)
  let ?f = "take n d"
  have f: "?f ! 0 = d ! 0" "?f ! 2 = d ! 2" "?f ! 3 = d ! 3" "length ?f = n" "?f ! (n - 2) = d ! (n - 2)" "?f ! (n - 1) = d ! (n - 1)"
    using n(1,3) by simp_all
  have u: "used buf = length pre + length d" using arg_cong [OF assms(2), of length] by simp
  note b = ring_bounds [OF assms(1)]
  have "d \<noteq> []" using n(1,3) by auto
  have "ring_pos buf (length pre) \<noteq> ring_pos buf (length pre + length d)"
    using n(1,3) \<open>d \<noteq> []\<close> assms(6) mod_neq_ahead [of 0 "length d" "unat (sq_MAX buf)" "unat (sq_read buf) + length pre"]
    by (simp add: ring_pos_def add.assoc)
  then have "index \<noteq> sq_write buf" using ring_write [OF assms(1)] assms(3) u by (auto simp: ring_pos_def)
  then show ?thesis
    using checkBufData_step(1) [OF assms(1), of pre ?f "drop n d" index] assms(2-4) n(2) f by (simp add: n_def)
qed

definition batch_buf :: "net_state \<Rightarrow> SqQueue" where
  "batch_buf s = (if bi_preservation (cur_batch s) \<noteq> 0 then nt_urgent s else nt_queue s)"

lemma head_first:
  assumes "2 \<le> length data"
  shows "data ! 0 = 0x3e \<Longrightarrow> data ! 1 = 0x11 \<Longrightarrow> find_order_head data (length data) = (NETORDER_TYPE_ORDER, 0, length data)"
    "data ! 0 = 0xaa \<Longrightarrow> data ! 1 = 0x55 \<Longrightarrow> find_order_head data (length data) = (NETORDER_TYPE_BATCH, 0, length data)"
  using assms by (simp_all add: find_order_head_def find_order_head_loop.simps [of data 0])

lemma batch_start_pos:
  assumes "ring buf" "unat bl = 20 + d" "d \<le> used buf"
  shows "unat (batch_start buf bl) = ring_pos buf (used buf - d)"
proof -
  note b = ring_bounds [OF assms(1)]
  have d: "d < 65536" "d \<le> unat (sq_MAX buf)" using assms(3) used_less [OF assms(1)] used_le [OF assms(1)] by linarith+
  have bl: "(ucast bl :: u32) - 20 = of_nat d"
  proof -
    have "unat (ucast bl :: u32) = 20 + d" using assms(2) unat_u16 [of bl] by (simp add: unsigned_ucast_eq take_bit_nat_eq_self)
    then have "(of_nat (unat (ucast bl :: u32)) :: u32) = of_nat (20 + d)" by simp
    then have "(ucast bl :: u32) = of_nat (20 + d)" by simp
    then show ?thesis by simp
  qed
  have ud: "unat (of_nat d :: u32) = d" using d(1) by (simp add: unat_of_nat take_bit_nat_eq_self)
  have "unat (sq_write buf + sq_MAX buf) = unat (sq_write buf) + unat (sq_MAX buf)"
    using b by (subst unat_add_lem [THEN iffD1]) simp_all
  then have "unat (sq_write buf + sq_MAX buf - of_nat d) = unat (sq_write buf) + unat (sq_MAX buf) - d"
    using d(2) ud by (subst unat_sub) (simp_all add: word_le_nat_alt)
  then have "unat (batch_start buf bl) = (unat (sq_write buf) + unat (sq_MAX buf) - d) mod unat (sq_MAX buf)"
    by (simp add: batch_start_def bl unat_mod_distrib)
  also have "\<dots> = (unat (sq_write buf) + (unat (sq_MAX buf) - d)) mod unat (sq_MAX buf)" using d(2) by simp
  also have "\<dots> = (unat (sq_read buf) + used buf + (unat (sq_MAX buf) - d)) mod unat (sq_MAX buf)"
    by (simp only: ring_write [OF assms(1)] mod_add_left_eq)
  also have "unat (sq_read buf) + used buf + (unat (sq_MAX buf) - d) = unat (sq_read buf) + (used buf - d) + unat (sq_MAX buf)"
    using d(2) assms(3) by simp
  finally show ?thesis by (simp add: ring_pos_def)
qed

lemma MAX_room: "ring buf \<Longrightarrow> unat (sq_MAX buf) = room buf + used buf"
  using used_le [of buf] by (simp add: room_def)

lemma put_data_appends:
  assumes "ring buf" "0 < length d" "length d \<le> room buf"
  shows "\<exists>buf'. put_data d buf cap = Some (buf', cap - of_nat (length d)) \<and> ring buf' \<and> contents buf' = contents buf @ d
    \<and> sq_MAX buf' = sq_MAX buf"
proof -
  have "room buf < 65536" using ring_bounds(4) [OF assms(1)] by (simp add: room_def)
  then have l: "unat (of_nat (length d) :: u32) = length d" "0 < (of_nat (length d) :: u32)"
    using assms(2,3) by (simp_all add: unat_of_nat take_bit_nat_eq_self word_less_nat_alt)
  then obtain buf' where b: "Write_Buf buf cap d (of_nat (length d)) = Some (BUF_OK, buf', cap - of_nat (length d))"
    "ring buf'" "contents buf' = contents buf @ d" "room buf' + length d = room buf"
    using write_appends [OF assms(1), of "of_nat (length d)" d cap] assms(3) by auto
  have "used buf' = used buf + length d" using arg_cong [OF b(3), of length] by simp
  then have "sq_MAX buf' = sq_MAX buf"
    using MAX_room [OF b(2)] MAX_room [OF assms(1)] b(4) by (simp add: word_unat_eq_iff)
  then show ?thesis using b by (simp add: put_data_def)
qed

lemma put_orders:
  assumes "ring (batch_buf s)" "0 < length d" "length d \<le> room (batch_buf s)"
  shows "\<exists>s'. put_in_buf d (bi_preservation (cur_batch s)) s = Some s' \<and> ring (batch_buf s')
    \<and> contents (batch_buf s') = contents (batch_buf s) @ d \<and> sq_MAX (batch_buf s') = sq_MAX (batch_buf s)
    \<and> (\<exists>buf cap. s' = (if bi_preservation (cur_batch s) \<noteq> 0 then s\<lparr>nt_urgent := buf\<rparr> else s\<lparr>nt_queue := buf\<rparr>)\<lparr>nt_capacity := cap\<rparr>)"
proof -
  obtain buf where b: "put_data d (batch_buf s) (nt_capacity s) = Some (buf, nt_capacity s - of_nat (length d))"
    "ring buf" "contents buf = contents (batch_buf s) @ d" "sq_MAX buf = sq_MAX (batch_buf s)"
    using put_data_appends [OF assms] by blast
  let ?u = "bi_preservation (cur_batch s) \<noteq> 0"
  let ?s = "(if ?u then s\<lparr>nt_urgent := buf\<rparr> else s\<lparr>nt_queue := buf\<rparr>)\<lparr>nt_capacity := nt_capacity s - of_nat (length d)\<rparr>"
  have "put_in_buf d (bi_preservation (cur_batch s)) s = Some ?s"
    using b(1) by (simp add: put_in_buf_def batch_buf_def split: if_splits)
  moreover have "batch_buf ?s = buf" by (simp add: batch_buf_def)
  ultimately show ?thesis using b(2-4) by (intro exI [of _ ?s] conjI) (simp | blast)+
qed

definition batch_fits :: "net_state \<Rightarrow> u8 list list \<Rightarrow> bool" where
  "batch_fits s fs \<longleftrightarrow> fs \<noteq> [] \<and> (\<forall>f \<in> set fs. order_frame f) \<and> ring (batch_buf s)
     \<and> length (concat fs) \<le> room (batch_buf s) \<and> unat (bi_batch_length (cur_batch s)) = 20 + length (concat fs)"

lemma pack_defined:
  assumes "length m = 20"
  shows "\<exists>f. Pack_Req_Or_Status_Message m type symbol i t p = Some f"
proof -
  let ?m = "(SET_DATA_4B (SET_DATA_4B (SET_DATA_4B (m[0 := 0xCF, 1 := 0xFC, 2 := type, 3 := symbol]) 4 i) 8 t) 12 p)[18 := 0xFC, 19 := 0xCF]"
  have "length ?m = 20" using assms by (simp add: SET_DATA_4B_def Let_def)
  then obtain c where "Check_Sum ?m 20 = Some c" using Check_Sum_defined [of 20 ?m] by auto
  then show ?thesis by (simp add: Pack_Req_Or_Status_Message_def Let_def)
qed

lemma request_frame_defined: "\<exists>f. request_frame type symbol p = Some f"
  using pack_defined [of "replicate 20 0"] by (cases type) (simp_all add: request_frame_def Let_def)

text \<open>Data of the length the batch announces, which starts with the mark of an order.\<close>

definition batch_data :: "net_state \<Rightarrow> u8 list \<Rightarrow> bool" where
  "batch_data s d \<longleftrightarrow> 2 \<le> length d \<and> d ! 0 = 0x3e \<and> d ! 1 = 0x11 \<and> ring (batch_buf s)
     \<and> length d \<le> room (batch_buf s) \<and> unat (bi_batch_length (cur_batch s)) = 20 + length d"

lemma batch_fits_data:
  assumes "batch_fits s fs"
  shows "batch_data s (concat fs)"
proof -
  note a = assms [unfolded batch_fits_def]
  obtain f gs where fs: "fs = f # gs" using a by (cases fs) auto
  have "order_frame f" using a fs by simp
  then have "28 \<le> length f" "f ! 0 = 0x3e" "f ! 1 = 0x11" by (simp_all add: order_frame_def)
  moreover from this have "f \<noteq> []" by auto
  ultimately show ?thesis using a by (simp add: batch_data_def fs nth_append)
qed

text \<open>What the data that were read leave unchanged.\<close>

definition same_batch :: "net_state \<Rightarrow> net_state \<Rightarrow> bool" where
  "same_batch s s' \<longleftrightarrow> cur_batch s' = cur_batch s \<and> nt_batch_number s' = nt_batch_number s
     \<and> nt_Print_Queue_Sem s' = nt_Print_Queue_Sem s \<and> nt_Batch_Rec_Sem s' = nt_Batch_Rec_Sem s \<and> nt_sent s' = nt_sent s
     \<and> nt_max_length s' = 0 \<and> \<not> nt_batch_flag s'"

lemma orders_read:
  assumes "batch_data s d" "nt_batch_flag s" "nt_max_length s = 0"
  obtains s3 where "receive_data res speed health d s = deal_with_order res speed health NETORDER_TYPE_ORDER s3"
    "ring (batch_buf s3)" "contents (batch_buf s3) = contents (batch_buf s) @ d" "same_batch s s3"
    "unat (batch_start (batch_buf s3) (bi_batch_length (cur_batch s3))) = ring_pos (batch_buf s3) (used (batch_buf s))"
    "sq_MAX (batch_buf s3) = sq_MAX (batch_buf s)"
proof -
  note d = assms(1) [unfolded batch_data_def]
  have head: "find_order_head d (length d) = (NETORDER_TYPE_ORDER, 0, length d)" using head_first(1) d by blast
  have bl: "bi_batch_length (cur_batch s) - 20 = of_nat (length d)"
  proof -
    have "(of_nat (unat (bi_batch_length (cur_batch s))) :: u16) = of_nat (20 + length d)" using d by simp
    then show ?thesis by simp
  qed
  have l: "unat (of_nat (length d) :: u16) = length d"
    using d unat_u16 [of "bi_batch_length (cur_batch s)"] by (simp add: unat_of_nat take_bit_nat_eq_self)
  define s1 where "s1 = s\<lparr>nt_max_length := of_nat (length d)\<rparr>"
  have s1: "batch_buf s1 = batch_buf s" "cur_batch s1 = cur_batch s" by (simp_all add: s1_def batch_buf_def)
  have pos: "0 < length d" using d by linarith
  obtain s2 where s2: "put_in_buf d (bi_preservation (cur_batch s)) s1 = Some s2" "ring (batch_buf s2)"
    "contents (batch_buf s2) = contents (batch_buf s) @ d" "sq_MAX (batch_buf s2) = sq_MAX (batch_buf s)"
    "\<exists>buf cap. s2 = (if bi_preservation (cur_batch s) \<noteq> 0 then s1\<lparr>nt_urgent := buf\<rparr> else s1\<lparr>nt_queue := buf\<rparr>)\<lparr>nt_capacity := cap\<rparr>"
    using put_orders [of s1 d] d pos unfolding s1 by blast
  then have k: "nt_max_length s2 = of_nat (length d)" "cur_batch s2 = cur_batch s" "nt_batch_number s2 = nt_batch_number s"
    "nt_Print_Queue_Sem s2 = nt_Print_Queue_Sem s" "nt_Batch_Rec_Sem s2 = nt_Batch_Rec_Sem s" "nt_sent s2 = nt_sent s"
    by (auto simp: s1_def)
  define s3 where "s3 = s2\<lparr>nt_max_length := 0, nt_batch_flag := False\<rparr>"
  have s3: "batch_buf s3 = batch_buf s2" "cur_batch s3 = cur_batch s" using k by (simp_all add: s3_def batch_buf_def)
  have e: "(if nt_max_length s = 0 then s\<lparr>nt_max_length := bi_batch_length (cur_batch s) - of_nat MAX_BATCH_HEAD_LENGTH\<rparr> else s) = s1"
    using assms(3) bl by (simp add: s1_def)
  have c: "length d \<le> unat (nt_max_length s1)" by (simp add: s1_def l)
  have "read_order_data d s = Some (True, [], s2\<lparr>nt_max_length := 0\<rparr>)"
    unfolding read_order_data_def e Let_def s1(2) using c s2(1) k(1) by simp
  then have read: "read_message_from_netbuf d NETORDER_TYPE_ORDER s = Some (True, [], s3)"
    using assms(2) by (simp add: read_message_from_netbuf_def s3_def)
  have "used (batch_buf s3) = used (batch_buf s) + length d"
    using arg_cong [OF s2(3), of length] s3(1) by simp
  then have start: "unat (batch_start (batch_buf s3) (bi_batch_length (cur_batch s3))) = ring_pos (batch_buf s3) (used (batch_buf s))"
    using batch_start_pos [of "batch_buf s3" "bi_batch_length (cur_batch s)" "length d"] d s2(2) s3 by simp
  have rd: "receive_data res speed health d s = deal_with_order res speed health NETORDER_TYPE_ORDER s3"
    by (subst receive_data.simps) (simp add: head read split: option.split)
  have "same_batch s s3" using k by (simp add: same_batch_def s3_def)
  with that [OF rd] s2(2-4) s3(1) start show thesis by simp
qed

lemma orders_received:
  assumes "batch_fits s fs" "nt_batch_flag s" "nt_max_length s = 0"
  shows "\<exists>s'. receive_data res speed health (concat fs) s = Some s'
    \<and> contents (batch_buf s') = contents (batch_buf s) @ concat fs \<and> ring (batch_buf s')
    \<and> nt_Print_Queue_Sem s' = OSSemPost (nt_Print_Queue_Sem s) \<and> nt_Batch_Rec_Sem s' = OSSemPost (nt_Batch_Rec_Sem s)
    \<and> nt_max_length s' = 0 \<and> \<not> nt_batch_flag s'
    \<and> (\<exists>frame. request_frame batch_status BATCH_ENTER_BUF (ucast (nt_batch_number s)) = Some frame
         \<and> nt_sent s' = nt_sent s @ (if snd (write_tries res batch_status 0) then [frame] else []))"
proof -
  obtain s3 where s3: "receive_data res speed health (concat fs) s = deal_with_order res speed health NETORDER_TYPE_ORDER s3"
    "ring (batch_buf s3)" "contents (batch_buf s3) = contents (batch_buf s) @ concat fs" "same_batch s s3"
    "unat (batch_start (batch_buf s3) (bi_batch_length (cur_batch s3))) = ring_pos (batch_buf s3) (used (batch_buf s))"
    "sq_MAX (batch_buf s3) = sq_MAX (batch_buf s)"
    by (rule orders_read [OF batch_fits_data [OF assms(1)] assms(2,3)])
  note same = s3(4) [unfolded same_batch_def]
  have chk: "checkBufData (batch_buf s3) (batch_start (batch_buf s3) (bi_batch_length (cur_batch s3))) = Some 0"
    using assms(1) s3(2,3,5) by (intro checkBufData_frames [of _ "contents (batch_buf s)" fs]) (simp_all add: batch_fits_def)
  obtain frame where fr: "request_frame batch_status BATCH_ENTER_BUF (ucast (nt_batch_number s)) = Some frame"
    using request_frame_defined by blast
  define s4 where "s4 = s3\<lparr>nt_Print_Queue_Sem := OSSemPost (nt_Print_Queue_Sem s3), nt_Batch_Rec_Sem := OSSemPost (nt_Batch_Rec_Sem s3)\<rparr>"
  define s5 where "s5 = (if snd (write_tries res batch_status 0) then s4\<lparr>nt_sent := nt_sent s4 @ [frame]\<rparr> else s4)\<lparr>nt_batch_flag := False\<rparr>"
  have "nt_batch_number s4 = nt_batch_number s" using same by (simp add: s4_def)
  then have wc: "write_connection res batch_status BATCH_ENTER_BUF (ucast (nt_batch_number s4)) s4
    = Some (if snd (write_tries res batch_status 0) then s4\<lparr>nt_sent := nt_sent s4 @ [frame]\<rparr> else s4)"
    by (simp add: write_connection_def fr)
  have "deal_with_order res speed health NETORDER_TYPE_ORDER s3 = Some s5"
    unfolding deal_with_order_def deal_with_order_order_def Let_def batch_buf_def [symmetric] s4_def [symmetric] s5_def
    by (simp add: chk wc)
  moreover have "batch_buf s5 = batch_buf s3" by (simp add: s5_def s4_def batch_buf_def)
  ultimately show ?thesis using s3(1-3) same fr
    by (intro exI [of _ s5]) (simp add: s5_def s4_def)
qed

text \<open>Data that do not pass the check are taken back by moving the write index.\<close>

lemma rewind:
  assumes "ring buf" "sq_buf_empty buf = 0" "unat start = ring_pos buf n" "n < unat (sq_MAX buf)"
  shows "ring (buf\<lparr>sq_write := start\<rparr>)" "used (buf\<lparr>sq_write := start\<rparr>) = (if n = 0 then unat (sq_MAX buf) else n)"
    "contents (buf\<lparr>sq_write := start\<rparr>) = map (peek buf) [0 ..< if n = 0 then unat (sq_MAX buf) else n]"
proof -
  note b = ring_bounds [OF assms(1)]
  have s: "unat start < unat (sq_MAX buf)" using b by (simp add: assms(3) ring_pos_def)
  show "ring (buf\<lparr>sq_write := start\<rparr>)" using assms(1,2) s by (simp add: ring_def word_less_nat_alt)
  have r: "unat (sq_read buf) < unat (sq_MAX buf)" using assms(1) by (simp add: ring_def word_less_nat_alt)
  show u: "used (buf\<lparr>sq_write := start\<rparr>) = (if n = 0 then unat (sq_MAX buf) else n)"
    using r assms(2-4) by (cases "unat (sq_read buf) + n < unat (sq_MAX buf)")
      (auto simp: used_def word_less_nat_alt ring_pos_def mod_if)
  show "contents (buf\<lparr>sq_write := start\<rparr>) = map (peek buf) [0 ..< if n = 0 then unat (sq_MAX buf) else n]"
    unfolding contents_def u by (simp add: peek_def)
qed

lemma orders_rejected:
  assumes "batch_data s d" "nt_batch_flag s" "nt_max_length s = 0"
    "\<And>buf index. ring buf \<Longrightarrow> contents buf = contents (batch_buf s) @ d \<Longrightarrow> unat index = ring_pos buf (used (batch_buf s)) \<Longrightarrow>
       sq_MAX buf = sq_MAX (batch_buf s) \<Longrightarrow> checkBufData buf index = Some 1"
  shows "\<exists>s'. receive_data res speed health d s = Some s' \<and> same_batch s s' \<and> ring (batch_buf s')
    \<and> (if contents (batch_buf s) \<noteq> [] then contents (batch_buf s') = contents (batch_buf s) else room (batch_buf s') = 0)"
proof -
  obtain s3 where s3: "receive_data res speed health d s = deal_with_order res speed health NETORDER_TYPE_ORDER s3"
    "ring (batch_buf s3)" "contents (batch_buf s3) = contents (batch_buf s) @ d" "same_batch s s3"
    "unat (batch_start (batch_buf s3) (bi_batch_length (cur_batch s3))) = ring_pos (batch_buf s3) (used (batch_buf s))"
    "sq_MAX (batch_buf s3) = sq_MAX (batch_buf s)"
    by (rule orders_read [OF assms(1-3)])
  let ?b = "batch_buf s3" and ?w = "batch_start (batch_buf s3) (bi_batch_length (cur_batch s3))"
  define s5 where "s5 = (if bi_preservation (cur_batch s3) \<noteq> 0 then s3\<lparr>nt_urgent := ?b\<lparr>sq_write := ?w\<rparr>\<rparr> else s3\<lparr>nt_queue := ?b\<lparr>sq_write := ?w\<rparr>\<rparr>)"
  have chk: "checkBufData ?b ?w = Some 1" by (rule assms(4) [OF s3(2,3,5,6)])
  have "deal_with_order res speed health NETORDER_TYPE_ORDER s3 = Some s5"
    unfolding deal_with_order_def deal_with_order_order_def Let_def batch_buf_def [symmetric] s5_def
    by (simp add: chk)
  moreover have b5: "batch_buf s5 = ?b\<lparr>sq_write := ?w\<rparr>" by (simp add: s5_def batch_buf_def)
  moreover have "same_batch s s5" using s3(4) by (simp add: same_batch_def s5_def)
  moreover have "used ?b = used (batch_buf s) + length d" using arg_cong [OF s3(3), of length] by simp
  moreover from this have n: "used (batch_buf s) < unat (sq_MAX ?b)" "sq_buf_empty ?b = 0"
    using used_le [OF s3(2)] assms(1) s3(2) by (auto simp: batch_data_def used_def ring_def split: if_splits)
  moreover have "map (peek ?b) [0 ..< used (batch_buf s)] = contents (batch_buf s)"
    using arg_cong [OF s3(3), of "take (used (batch_buf s))"] calculation(4)
    by (simp add: contents_def [of ?b] take_map)
  ultimately show ?thesis using s3(1) rewind [OF s3(2) n(2) s3(5) n(1)]
    by (intro exI [of _ s5]) (simp add: room_def flip: length_0_conv)
qed

text \<open>The state after the message of a batch, and the bytes of one.\<close>

definition batch_frame :: "u8 list \<Rightarrow> bool" where
  "batch_frame b \<longleftrightarrow> length b = MAX_BATCH_HEAD_LENGTH \<and> b ! 0 = 0xaa \<and> b ! 1 = 0x55 \<and> b ! 18 = 0x55 \<and> b ! 19 = 0xaa"

definition with_batch :: "u8 list \<Rightarrow> net_state \<Rightarrow> net_state" where
  "with_batch b s = deal_with_batch_order (s\<lparr>nt_batch := copy_front b MAX_BATCH_HEAD_LENGTH (nt_batch s), nt_max_length := 0, nt_batch_flag := False\<rparr>)"

lemma batch_read:
  assumes "batch_frame b" "nt_max_length s = 0" "length (nt_batch s) = 21"
  shows "receive_data res speed health (b @ d) s =
    (if d \<noteq> [] then receive_data res speed health d (with_batch b s) else Some (with_batch b s))"
proof -
  have b: "length b = 20" "b ! 0 = 0xaa" "b ! 1 = 0x55" "b ! 18 = 0x55" "b ! 19 = 0xaa" using assms(1) by (simp_all add: batch_frame_def)
  have "find_order_head (b @ d) (length (b @ d)) = (NETORDER_TYPE_BATCH, 0, length (b @ d))"
    by (rule head_first(2)) (use b in \<open>simp_all add: nth_append del: One_nat_def\<close>)
  moreover have "copy_front (b @ d) 20 (nt_batch s) = copy_front b 20 (nt_batch s)" using b(1) by (simp add: copy_front_def)
  moreover have "copy_front b 20 (nt_batch s) ! 18 = 0x55" "copy_front b 20 (nt_batch s) ! 19 = 0xaa"
    using b by (simp_all add: copy_front_def nth_append)
  ultimately show ?thesis using b(1) assms(2,3)
    by (subst receive_data.simps) (simp add: read_message_from_netbuf_def deal_with_order_def with_batch_def Let_def)
qed

lemma with_batch_fields:
  "nt_batch_number (with_batch b s) = ANALYZE_DATA_2B (copy_front b 20 (nt_batch s)) BATCH_NUMBER_OFFSET"
  "nt_max_length (with_batch b s) = 0"
  "nt_batch_flag (with_batch b s) \<longleftrightarrow> nt_batch_number (with_batch b s) \<noteq> nt_batch_number s"
  "nt_Print_Queue_Sem (with_batch b s) = nt_Print_Queue_Sem s" "nt_Batch_Rec_Sem (with_batch b s) = nt_Batch_Rec_Sem s"
  "nt_sent (with_batch b s) = nt_sent s" "nt_queue (with_batch b s) = nt_queue s" "nt_urgent (with_batch b s) = nt_urgent s"
  by (simp_all add: with_batch_def deal_with_batch_order_def Let_def)

lemma with_batch_table:
  assumes "length b = 20" "length (nt_batch_info_table s) = MAX_BATCH_NUM"
  shows "bi_batch_length (cur_batch (with_batch b s)) = be16 (b ! 6) (b ! 7)"
    "bi_preservation (cur_batch (with_batch b s)) = be16 (b ! 14) (b ! 15)"
    "nt_batch_number (with_batch b s) = be16 (b ! 4) (b ! 5)"
proof -
  have h: "unat (get_batch_hash n) < 10" for n
  proof -
    have "unat (n mod 10) < 10" by (simp add: unat_mod_distrib)
    then show ?thesis by (simp add: get_batch_hash_def unsigned_ucast_eq take_bit_nat_eq_self)
  qed
  show "bi_batch_length (cur_batch (with_batch b s)) = be16 (b ! 6) (b ! 7)"
    "bi_preservation (cur_batch (with_batch b s)) = be16 (b ! 14) (b ! 15)"
    "nt_batch_number (with_batch b s) = be16 (b ! 4) (b ! 5)"
    using assms h
    by (simp_all add: with_batch_def deal_with_batch_order_def Let_def Analyze_Batch_Info_Table_def copy_front_def
        nth_append ANALYZE_2B_be16)
qed

text \<open>A batch of a new number with its orders, in one packet.\<close>

lemma batch_received_aux:
  assumes "batch_frame b" "nt_max_length s = 0" "length (nt_batch s) = 21" "length (nt_batch_info_table s) = MAX_BATCH_NUM"
    "be16 (b ! 4) (b ! 5) \<noteq> nt_batch_number s" "batch_fits (with_batch b s) fs"
  shows "\<exists>s'. receive_data res speed health (b @ concat fs) s = Some s'
    \<and> contents (batch_buf s') = contents (batch_buf (with_batch b s)) @ concat fs \<and> ring (batch_buf s')
    \<and> nt_Print_Queue_Sem s' = OSSemPost (nt_Print_Queue_Sem s) \<and> nt_Batch_Rec_Sem s' = OSSemPost (nt_Batch_Rec_Sem s)
    \<and> nt_max_length s' = 0 \<and> \<not> nt_batch_flag s'
    \<and> (\<exists>frame. request_frame batch_status BATCH_ENTER_BUF (ucast (be16 (b ! 4) (b ! 5))) = Some frame
         \<and> nt_sent s' = nt_sent s @ (if snd (write_tries res batch_status 0) then [frame] else []))"
proof -
  have b: "length b = 20" using assms(1) by (simp add: batch_frame_def)
  note t = with_batch_table [OF b assms(4)]
  have "concat fs \<noteq> []"
  proof -
    obtain f gs where "fs = f # gs" "order_frame f" using assms(6) by (cases fs) (auto simp: batch_fits_def)
    then show ?thesis by (auto simp: order_frame_def)
  qed
  then show ?thesis
    using batch_read [OF assms(1-3), of res speed health "concat fs"] t(3) assms(5)
      orders_received [OF assms(6), of res speed health]
    by (simp add: with_batch_fields)
qed

lemma bad_batch_refused_aux:
  assumes "batch_frame b" "nt_max_length s = 0" "length (nt_batch s) = 21" "length (nt_batch_info_table s) = MAX_BATCH_NUM"
    "be16 (b ! 4) (b ! 5) \<noteq> nt_batch_number s" "batch_data (with_batch b s) d" "bad_tail d"
    "length d < unat (sq_MAX (batch_buf (with_batch b s)))"
  shows "\<exists>s'. receive_data res speed health (b @ d) s = Some s' \<and> ring (batch_buf s')
    \<and> (if contents (batch_buf (with_batch b s)) \<noteq> [] then contents (batch_buf s') = contents (batch_buf (with_batch b s))
       else room (batch_buf s') = 0)
    \<and> nt_Print_Queue_Sem s' = nt_Print_Queue_Sem s \<and> nt_Batch_Rec_Sem s' = nt_Batch_Rec_Sem s \<and> nt_sent s' = nt_sent s"
proof -
  have b: "length b = 20" using assms(1) by (simp add: batch_frame_def)
  note t = with_batch_table [OF b assms(4)]
  have "d \<noteq> []" using assms(6) by (auto simp: batch_data_def)
  moreover have "\<exists>s'. receive_data res speed health d (with_batch b s) = Some s' \<and> same_batch (with_batch b s) s' \<and> ring (batch_buf s')
    \<and> (if contents (batch_buf (with_batch b s)) \<noteq> [] then contents (batch_buf s') = contents (batch_buf (with_batch b s))
       else room (batch_buf s') = 0)"
  proof (rule orders_rejected [OF assms(6)])
    show "nt_batch_flag (with_batch b s)" "nt_max_length (with_batch b s) = 0" using t(3) assms(5) by (simp_all add: with_batch_fields)
    fix buf and index :: u32
    assume *: "ring buf" "contents buf = contents (batch_buf (with_batch b s)) @ d"
      "unat index = ring_pos buf (used (batch_buf (with_batch b s)))" "sq_MAX buf = sq_MAX (batch_buf (with_batch b s))"
    show "checkBufData buf index = Some 1"
      using assms(6-8) * by (intro checkBufData_bad [of _ "contents (batch_buf (with_batch b s))" d]) (simp_all add: batch_data_def)
  qed
  ultimately show ?thesis
    using batch_read [OF assms(1-3), of res speed health d] by (auto simp: with_batch_fields same_batch_def)
qed

text \<open>C28. A packet with a batch message of a new number and well-formed orders of exactly the announced
  length puts the orders, in order, behind the contents of the buffer the batch asks for (urgent or common),
  posts the semaphores of the print queue and of the batch, and sends the frame that the batch entered the
  buffer when lwIP accepts it within the tries.\<close>

theorem batch_received:
  assumes "batch_frame b" "nt_max_length s = 0" "length (nt_batch s) = 21" "length (nt_batch_info_table s) = MAX_BATCH_NUM"
    "be16 (b ! 4) (b ! 5) \<noteq> nt_batch_number s" "batch_fits (with_batch b s) fs"
  shows "\<exists>s'. receive_data res speed health (b @ concat fs) s = Some s'
    \<and> contents (batch_buf s') = contents (batch_buf (with_batch b s)) @ concat fs \<and> ring (batch_buf s')
    \<and> nt_Print_Queue_Sem s' = OSSemPost (nt_Print_Queue_Sem s) \<and> nt_Batch_Rec_Sem s' = OSSemPost (nt_Batch_Rec_Sem s)
    \<and> nt_max_length s' = 0 \<and> \<not> nt_batch_flag s'
    \<and> (\<exists>frame. request_frame batch_status BATCH_ENTER_BUF (ucast (be16 (b ! 4) (b ! 5))) = Some frame
         \<and> nt_sent s' = nt_sent s @ (if snd (write_tries res batch_status 0) then [frame] else []))"
  using assms by (rule batch_received_aux)

definition sample_net :: net_state where
  "sample_net = \<lparr>nt_contract = replicate 29 0, nt_batch = replicate 21 0,
     nt_contract_information = \<lparr>ci_contract_type = 0, ci_sever_send_time = 0, ci_contract_number = 0, ci_mcu_id = 0,
       ci_mcu_speed = 0, ci_mcu_max_buf_size = 0, ci_mcu_health = 0, ci_check_sum = 0, ci_next_print_node = 0\<rparr>,
     nt_contract_partner = 0, nt_batch_number = 0, nt_last_bacth_number = 0, nt_batch_flag = False, nt_batch_table_hash = 0,
     nt_batch_info_table = replicate 10 \<lparr>bi_sever_send_time = 0, bi_order_number = 0, bi_batch_length = 0, bi_batch_number = 0,
       bi_check_sum = 0, bi_preservation = 0, bi_num_printed_order = 0, bi_num_order_que = 0\<rparr>,
     nt_max_length = 0, nt_queue = init_SqQueue MAXQSIZE, nt_urgent = init_SqQueue MAXUSIZE, nt_capacity = 20480,
     nt_Print_Queue_Sem = 0, nt_Batch_Rec_Sem = 0, nt_sent = []\<rparr>"

definition sample_batch :: "u8 \<Rightarrow> u8 \<Rightarrow> u8 list" where
  "sample_batch len urg = [0xaa, 0x55, 0, 2, 0, 5, 0, len, 0, 0, 0, 0, 0, 0, 0, urg, 0, 0, 0x55, 0xaa]"

definition small_frame :: "u8 \<Rightarrow> u8 \<Rightarrow> u8 list" where
  "small_frame c e = [0x3e, 0x11, 0, 1] @ replicate 20 0 @ [c, 0, 0, 0x11, e]"

lemma sample_dims:
  "nt_max_length sample_net = 0" "length (nt_batch sample_net) = 21" "length (nt_batch_info_table sample_net) = MAX_BATCH_NUM"
  "sq_MAX (init_SqQueue n) = of_nat n"
  by (simp_all add: sample_net_def init_SqQueue_def)

lemma sample_batch_frame: "batch_frame (sample_batch len urg)"
  by (simp add: batch_frame_def sample_batch_def)

lemma sample_batch_fields:
  "bi_batch_length (cur_batch (with_batch (sample_batch len urg) sample_net)) = be16 0 len"
  "bi_preservation (cur_batch (with_batch (sample_batch len urg) sample_net)) = be16 0 urg"
  using with_batch_table(1,2) [of "sample_batch len urg" sample_net] by (simp_all add: sample_batch_def sample_net_def)

lemma sample_batch_buf: "batch_buf (with_batch (sample_batch len urg) sample_net) = init_SqQueue 10240"
  unfolding batch_buf_def with_batch_fields by (simp add: sample_net_def)

lemma small_frame_nth:
  "length (small_frame c e) = 29" "small_frame c e ! 0 = 0x3e" "small_frame c e ! 1 = 0x11" "small_frame c e ! 2 = 0"
  "small_frame c e ! 3 = 1" "small_frame c e ! 27 = 0x11" "small_frame c e ! 28 = e"
  by (simp_all add: small_frame_def nth_append)

lemma init_room: "n < 65536 \<Longrightarrow> room (init_SqQueue n) = n"
  by (simp add: room_def used_def init_SqQueue_def unat_of_nat take_bit_nat_eq_self)

theorem batch_received_witness:
  "\<exists>s'. receive_data (\<lambda>i. Written) 0 0 (sample_batch 78 1 @ concat [small_frame 1 0xe3, small_frame 2 0xe3]) sample_net = Some s'
    \<and> contents (batch_buf s') = small_frame 1 0xe3 @ small_frame 2 0xe3"
proof -
  have f: "order_frame (small_frame c 0xe3)" for c by (simp add: order_frame_def small_frame_nth be16_def del: One_nat_def)
  have fits: "batch_fits (with_batch (sample_batch 78 1) sample_net) [small_frame 1 0xe3, small_frame 2 0xe3]"
    using f by (simp add: batch_fits_def sample_batch_buf sample_batch_fields init_ring init_room small_frame_nth be16_def)
  have n: "be16 (sample_batch 78 1 ! 4) (sample_batch 78 1 ! 5) \<noteq> nt_batch_number sample_net"
    by (simp add: sample_batch_def sample_net_def be16_def)
  show ?thesis
    using batch_received [OF sample_batch_frame _ _ _ n fits, of "\<lambda>i. Written" 0 0]
    by (auto simp: sample_batch_buf init_ring sample_dims)
qed

text \<open>C29. When the first order of a new batch lacks its end mark, the orders are taken back: no semaphore is
  posted and nothing is sent.  If the buffer held something before, its contents are as before; if it was
  empty, the flag still says not empty with equal indices, so that the buffer counts as full.\<close>

theorem bad_batch_refused:
  assumes "batch_frame b" "nt_max_length s = 0" "length (nt_batch s) = 21" "length (nt_batch_info_table s) = MAX_BATCH_NUM"
    "be16 (b ! 4) (b ! 5) \<noteq> nt_batch_number s" "batch_data (with_batch b s) d" "bad_tail d"
    "length d < unat (sq_MAX (batch_buf (with_batch b s)))"
  shows "\<exists>s'. receive_data res speed health (b @ d) s = Some s' \<and> ring (batch_buf s')
    \<and> (if contents (batch_buf (with_batch b s)) \<noteq> [] then contents (batch_buf s') = contents (batch_buf (with_batch b s))
       else room (batch_buf s') = 0)
    \<and> nt_Print_Queue_Sem s' = nt_Print_Queue_Sem s \<and> nt_Batch_Rec_Sem s' = nt_Batch_Rec_Sem s \<and> nt_sent s' = nt_sent s"
  using assms by (rule bad_batch_refused_aux)

theorem bad_batch_refused_witness:
  "\<exists>s'. receive_data (\<lambda>i. Written) 0 0 (sample_batch 49 0 @ small_frame 1 0) sample_net = Some s' \<and> room (batch_buf s') = 0"
proof -
  have d: "batch_data (with_batch (sample_batch 49 0) sample_net) (small_frame 1 0)"
    by (simp add: batch_data_def sample_batch_buf sample_batch_fields init_ring init_room small_frame_nth be16_def del: One_nat_def)
  have bad: "bad_tail (small_frame 1 0)" by (simp add: bad_tail_def small_frame_nth be16_def)
  have n: "be16 (sample_batch 49 0 ! 4) (sample_batch 49 0 ! 5) \<noteq> nt_batch_number sample_net"
    by (simp add: sample_batch_def sample_net_def be16_def)
  show ?thesis
    using bad_batch_refused [OF sample_batch_frame _ _ _ n d bad, of "\<lambda>i. Written" 0 0]
    by (auto simp: sample_batch_buf init_ring small_frame_nth sample_dims)
qed

end
