(* ===== verification/Local_Conf.thy ===== *)
theory Local_Conf
  imports Net_Receive
begin

text \<open>
  The serial connection, \<^verbatim>\<open>User/src/local_conf.c\<close>: the receive interrupt, reading and clearing the
  serial buffer, statuses and acknowledgements, and the reception of orders and acknowledgements.  Bytes and
  answers that arrive while a task sleeps are the environment: the \<open>n\<close>th sleep brings \<open>le_bytes env n\<close>.  The
  buffer is read as a linear array, as the code does; \<^term>\<open>None\<close> is an access out of range or a wait that
  does not end.
\<close>

section \<open>State\<close>

record local_state =
  lc_buf :: SqQueue
  lc_last_order_number :: u32
  lc_current_order_number :: u32
  lc_printerAckNum :: u32
  lc_orderAckNum :: u32
  lc_Ack_Rec_Printer_Sem :: u16
  lc_Ack_Rec_Order_Sem :: u16
  lc_Print_Queue_Sem :: u16
  lc_Local_Rec_Data_Sem :: u16
  lc_urgent :: SqQueue
  lc_capacity :: u32
  lc_sent :: "u8 list list"
  lc_time :: nat

record local_env =
  le_bytes :: "nat \<Rightarrow> u8 list"
  le_order_acks :: "nat \<Rightarrow> nat"
  le_printer_acks :: "nat \<Rightarrow> nat"
  le_stack :: "u8 list"

abbreviation (input) "READ_MAX_SIZE \<equiv> (10240 :: u16)"
abbreviation (input) "ORDER_HEAD_LENGTH \<equiv> (28 :: nat)"
abbreviation (input) "ORDER_HEAD_LAST_OFFSET \<equiv> (2 :: nat)"
abbreviation (input) "ORDER_NUM_HEAD_OFFSET \<equiv> (12 :: nat)"
abbreviation (input) "ORDER_ACK_LOCAL \<equiv> (0 :: u32)"
abbreviation (input) "PRINTER_ACK_LOCAL \<equiv> (1 :: u8)"
abbreviation (input) "ORDER_DATA_ERR \<equiv> (4 :: u8)"

section \<open>The buffer\<close>

definition USART3_Hook :: "local_state \<Rightarrow> u8 \<Rightarrow> local_state" where
  "USART3_Hook s ch =
     (if (sq_write (lc_buf s) + 1) mod sq_MAX (lc_buf s) = sq_read (lc_buf s) then s
      else let s' = s\<lparr>lc_buf := put_byte (lc_buf s) ch\<rparr>
           in if sq_buf_empty (lc_buf s) \<noteq> 0
              then s'\<lparr>lc_Local_Rec_Data_Sem := OSSemPost (lc_Local_Rec_Data_Sem s)\<rparr> else s')"

text \<open>A sleep of a task, with the interrupts and the answers that come during it.\<close>

definition delay :: "local_env \<Rightarrow> local_state \<Rightarrow> local_state" where
  "delay env s =
     (let s' = foldl USART3_Hook s (le_bytes env (lc_time s))
      in s'\<lparr>lc_Ack_Rec_Order_Sem := (OSSemPost ^^ le_order_acks env (lc_time s)) (lc_Ack_Rec_Order_Sem s'),
            lc_Ack_Rec_Printer_Sem := (OSSemPost ^^ le_printer_acks env (lc_time s)) (lc_Ack_Rec_Printer_Sem s'),
            lc_time := lc_time s + 1\<rparr>)"

definition GetBufLen :: "SqQueue \<Rightarrow> u32" where "GetBufLen buf = sq_write buf - sq_read buf"

definition copy_linear :: "SqQueue \<Rightarrow> u16 \<Rightarrow> u8 list option" where
  "copy_linear buf n =
     (if \<forall>i < unat n. unat (sq_read buf + of_nat i) < length (sq_base buf)
      then Some (map (\<lambda>i. sq_base buf ! unat (sq_read buf + of_nat i)) [0 ..< unat n]) else None)"

definition ReadBytes :: "SqQueue \<Rightarrow> (u8 list \<times> u16) option" where
  "ReadBytes buf =
     (let buf_len = (if sq_buf_empty buf = 0 then min (ucast (GetBufLen buf)) READ_MAX_SIZE else 0)
      in map_option (\<lambda>data. (data, buf_len)) (copy_linear buf buf_len))"

partial_function (option) ReadAssignBytes :: "local_env \<Rightarrow> u16 \<Rightarrow> local_state \<Rightarrow> (u8 list \<times> local_state) option" where
  "ReadAssignBytes env len s =
     (if sq_buf_empty (lc_buf s) = 0 \<and> len \<le> ucast (GetBufLen (lc_buf s))
      then map_option (\<lambda>data. (data, s)) (copy_linear (lc_buf s) len)
      else ReadAssignBytes env len (delay env s))"

definition ClearBuf :: "SqQueue \<Rightarrow> SqQueue" where
  "ClearBuf buf = buf\<lparr>sq_read := 0, sq_write := 0, sq_buf_empty := 1\<rparr>"

text \<open>\<^verbatim>\<open>buf_err\<close> of \<^verbatim>\<open>DeleteBuf\<close> is not initialised: \<open>junk\<close> is its value.\<close>

definition DeleteBuf :: "int \<Rightarrow> u16 \<Rightarrow> SqQueue \<Rightarrow> int \<times> SqQueue" where
  "DeleteBuf junk len buf =
     (let buf_err = (if sq_buf_empty buf \<noteq> 0 then BUF_ARG_ERR else junk);
          buf_err = (if (ucast (GetBufLen buf) :: u16) < len then BUF_ARG_ERR else buf_err)
      in if buf_err = BUF_ARG_ERR then (buf_err, buf)
         else let buf = buf\<lparr>sq_read := sq_read buf + ucast len\<rparr>
              in (BUF_OK, if sq_read buf = sq_write buf then buf\<lparr>sq_read := 0, sq_write := 0, sq_buf_empty := 1\<rparr> else buf))"

section \<open>Sending\<close>

lemma unat_inc: "r \<noteq> - 1 \<Longrightarrow> unat (r + 1 :: 'a::len word) = unat r + 1"
  by (metis Suc_eq_plus1 add.commute add_diff_cancel_right' diff_0 unatSuc)

lemma minus_one: "(- 1 :: u8) = 255" "(- 1 :: u16) = 65535"
  by simp_all

definition LocalSendData :: "u8 list \<Rightarrow> nat \<Rightarrow> local_state \<Rightarrow> local_state" where
  "LocalSendData data len s = s\<lparr>lc_sent := lc_sent s @ [take len data]\<rparr>"

definition accept_ack :: "bool \<Rightarrow> local_state \<Rightarrow> u16 \<times> local_state" where
  "accept_ack printer s =
     (if printer
      then (case OSSemAccept (lc_Ack_Rec_Printer_Sem s) of (n, c) \<Rightarrow> (n, s\<lparr>lc_Ack_Rec_Printer_Sem := c\<rparr>))
      else (case OSSemAccept (lc_Ack_Rec_Order_Sem s) of (n, c) \<Rightarrow> (n, s\<lparr>lc_Ack_Rec_Order_Sem := c\<rparr>)))"

text \<open>The inner loop: true when the flag of an answer is set, false after \<open>delayTimes\<close> turns.\<close>

function await_ack :: "local_env \<Rightarrow> bool \<Rightarrow> u8 \<Rightarrow> u8 \<Rightarrow> local_state \<Rightarrow> bool \<times> local_state" where
  "await_ack env printer delayTimes timeCounter s =
     (if timeCounter + 1 = delayTimes then (False, s)
      else case accept_ack printer (delay env s) of (n, s') \<Rightarrow>
        if 1 > n then (True, s') else await_ack env printer delayTimes (timeCounter + 1) s')"
  by pat_completeness auto
termination
proof (relation "measure (\<lambda>(env, printer, d, t, s). if d = t then 256 else unat (d - t))")
  fix env :: local_env and printer :: bool and d t :: u8 and s :: local_state and n s' and x
  assume "t + 1 \<noteq> d"
  have "unat (d - (t + 1)) < 256" by (rule unat_u8)
  moreover have "unat (d - (t + 1)) < unat (d - t)" if "d \<noteq> t"
  proof -
    have "d - t \<noteq> 0" using that by simp
    then have "unat (d - t - 1) = unat (d - t) - 1" "0 < unat (d - t)" by (rule unat_minus_one) (use that in \<open>simp add: unat_gt_0\<close>)
    then show ?thesis by (simp add: diff_diff_eq)
  qed
  ultimately show "((env, printer, d, t + 1, s'), (env, printer, d, t, s)) \<in> measure (\<lambda>(env, printer, d, t, s). if d = t then 256 else unat (d - t))"
    using \<open>t + 1 \<noteq> d\<close> by auto
qed simp_all

declare await_ack.simps [simp del]

function send_tries :: "local_env \<Rightarrow> bool \<Rightarrow> u8 \<Rightarrow> u8 list \<Rightarrow> u8 \<Rightarrow> local_state \<Rightarrow> local_state" where
  "send_tries env printer delayTimes sent_data reSendTimes s =
     (case await_ack env printer delayTimes 0 (LocalSendData sent_data SEND_DATA_SIZE s) of (accFlag, s') \<Rightarrow>
        let r = (if accFlag then reSendTimes else reSendTimes + 1)
        in if r > 3 then s' else if accFlag then s' else send_tries env printer delayTimes sent_data r s')"
  by pat_completeness auto
termination
proof (relation "measure (\<lambda>(env, printer, d, m, r, s). if r = 255 then 5 else 4 - unat r)")
  fix env :: local_env and printer :: bool and d r x :: u8 and sent_data :: "u8 list" and s :: local_state
    and p and accFlag :: bool and s' :: local_state
  assume "x = (if accFlag then r else r + 1)" "\<not> x > 3" "\<not> accFlag"
  then have x: "x = r + 1" "unat (r + 1) \<le> 3" by (simp_all add: word_less_nat_alt)
  have "unat (r + 1) = unat r + 1" if "r \<noteq> 255"
    by (rule unat_inc) (use that in \<open>simp add: minus_one\<close>)
  then show "((env, printer, d, sent_data, x, s'), (env, printer, d, sent_data, r, s)) \<in> measure (\<lambda>(env, printer, d, m, r, s). if r = 255 then 5 else 4 - unat r)"
    using x by auto
qed simp_all

declare send_tries.simps [simp del]

definition SendStatusToLocal :: "local_env \<Rightarrow> req_type \<Rightarrow> u8 \<Rightarrow> u32 \<Rightarrow> local_state \<Rightarrow> local_state option" where
  "SendStatusToLocal env type symbol preservation s =
     (let sent_data = replicate SEND_DATA_SIZE 0
      in if type = printer_status
         then map_option (\<lambda>sent_data. send_tries env True 4 sent_data 0 s)
                (Pack_Req_Or_Status_Message sent_data PRINTER_STATUS symbol Get_MCU_ID 0 preservation)
         else if type = order_status
         then map_option (\<lambda>sent_data. send_tries env False 20 sent_data 0 s)
                (Pack_Req_Or_Status_Message sent_data ORDER_STATUS symbol Get_MCU_ID (Get_Order_Unix_Time preservation) preservation)
         else None)"

definition AckToLocal :: "u32 \<Rightarrow> local_state \<Rightarrow> local_state option" where
  "AckToLocal orderNum s =
     map_option (\<lambda>sent_data. LocalSendData sent_data SEND_DATA_SIZE s)
       (Pack_Req_Or_Status_Message (replicate SEND_DATA_SIZE 0) ACK_STATUS 0 Get_MCU_ID ORDER_ACK_LOCAL orderNum)"

section \<open>Receiving\<close>

definition GetTypeOfAck :: "u8 list \<Rightarrow> u8" where "GetTypeOfAck data = data ! 11"

definition GetAckNumber :: "u8 list \<Rightarrow> u32" where
  "GetAckNumber data = push_bit 24 (ucast (data ! 12)) + push_bit 16 (ucast (data ! 13))
     + push_bit 8 (ucast (data ! 14)) + ucast (data ! 15)"

definition DealAckFromLocal :: "u8 list \<Rightarrow> local_state \<Rightarrow> local_state" where
  "DealAckFromLocal ack s =
     (let tmpAckNum = GetAckNumber ack
      in if GetTypeOfAck ack = PRINTER_ACK_LOCAL
         then if lc_printerAckNum s \<noteq> tmpAckNum
              then s\<lparr>lc_printerAckNum := tmpAckNum, lc_Ack_Rec_Printer_Sem := OSSemPost (lc_Ack_Rec_Printer_Sem s)\<rparr> else s
         else if lc_orderAckNum s \<noteq> tmpAckNum
              then s\<lparr>lc_orderAckNum := tmpAckNum, lc_Ack_Rec_Order_Sem := OSSemPost (lc_Ack_Rec_Order_Sem s)\<rparr> else s)"

partial_function (option) wait_head :: "local_env \<Rightarrow> u16 \<Rightarrow> local_state \<Rightarrow> local_state option" where
  "wait_head env len s =
     (if len < 20 then wait_head env (ucast (GetBufLen (lc_buf s))) (delay env s) else Some s)"

function wait_order :: "local_env \<Rightarrow> u16 \<Rightarrow> u16 \<Rightarrow> local_state \<Rightarrow> u16 \<times> local_state" where
  "wait_order env order_len timeCount s =
     (if ucast order_len > GetBufLen (lc_buf s) \<and> timeCount < 40
      then wait_order env order_len (timeCount + 1) (delay env s) else (timeCount, s))"
  by pat_completeness auto
termination
proof (relation "measure (\<lambda>(env, l, t, s). 40 - unat t)")
  fix env :: local_env and order_len t :: u16 and s :: local_state
  assume "ucast order_len > GetBufLen (lc_buf s) \<and> t < 40"
  then have "unat t < 40" by (simp add: word_less_nat_alt)
  moreover from this have "unat (t + 1) = unat t + 1" by (intro unat_inc) (auto simp: minus_one)
  ultimately show "((env, order_len, t + 1, delay env s), (env, order_len, t, s)) \<in> measure (\<lambda>(env, l, t, s). 40 - unat t)" by simp
qed simp

declare wait_order.simps [simp del]

text \<open>The order at the position \<open>pos\<close> of the array.\<close>

definition recOrder :: "local_env \<Rightarrow> nat \<Rightarrow> u16 \<Rightarrow> local_state \<Rightarrow> local_state option" where
  "recOrder env pos len s =
     (case wait_head env len s of None \<Rightarrow> None
      | Some s \<Rightarrow>
          if length (sq_base (lc_buf s)) < pos + ORDER_NUM_HEAD_OFFSET + 4 then None
          else let order_total_len = (ANALYZE_DATA_2B (drop pos (sq_base (lc_buf s))) ORDER_HEAD_LAST_OFFSET :: u16);
                   order_len = order_total_len + of_nat ORDER_HEAD_LENGTH
               in (case wait_order env order_len 0 s of (timeCount, s) \<Rightarrow>
                  let data = drop pos (sq_base (lc_buf s)) in
                  (case (if timeCount < 40 then CheckRec data (unat order_len) else Some False) of None \<Rightarrow> None
                   | Some ok \<Rightarrow>
                       if ok
                       then let number = ANALYZE_DATA_4B data ORDER_NUM_HEAD_OFFSET;
                                s = s\<lparr>lc_current_order_number := number\<rparr>
                            in if number \<noteq> lc_last_order_number s
                               then (case (if length data < unat order_len then None
                                       else put_data (take (unat order_len) data) (lc_urgent s) (lc_capacity s)) of None \<Rightarrow> None
                                 | Some (buf, cap) \<Rightarrow>
                                     map_option (\<lambda>s. s\<lparr>lc_last_order_number := number, lc_Print_Queue_Sem := OSSemPost (lc_Print_Queue_Sem s)\<rparr>)
                                       (AckToLocal number (s\<lparr>lc_urgent := buf, lc_capacity := cap, lc_buf := ClearBuf (lc_buf s)\<rparr>)))
                               else AckToLocal number (s\<lparr>lc_buf := ClearBuf (lc_buf s)\<rparr>)
                       else SendStatusToLocal env order_status ORDER_DATA_ERR 0 (s\<lparr>lc_buf := ClearBuf (lc_buf s)\<rparr>))))"

definition recAck :: "nat \<Rightarrow> local_state \<Rightarrow> (bool \<times> local_state) option" where
  "recAck offset s =
     (let data = drop offset (sq_base (lc_buf s))
      in case CheckRec data REC_DATA_SIZE of None \<Rightarrow> None
         | Some ok \<Rightarrow>
             if ok
             then if ACK_STATUS = data ! STATUS_TYPE_OFFSET
                  then let s = DealAckFromLocal data s in Some (True, s\<lparr>lc_buf := ClearBuf (lc_buf s)\<rparr>)
                  else Some (False, s)
             else Some (False, s))"

partial_function (option) wait_two :: "local_env \<Rightarrow> local_state \<Rightarrow> local_state option" where
  "wait_two env s = (if (ucast (GetBufLen (lc_buf s)) :: u16) < 2 then wait_two env (delay env s) else Some s)"

text \<open>
  One turn of the loop of \<^verbatim>\<open>local_receive\<close>.  The search for the mark of an acknowledgement runs over as
  many bytes as the serial buffer holds, beyond the twenty that were copied: \<open>le_stack\<close> holds the bytes
  after them.  The search for an order starts at the beginning of the array.
\<close>

definition local_receive :: "local_env \<Rightarrow> local_state \<Rightarrow> local_state option" where
  "local_receive env s =
     (case OSSemPend (lc_Local_Rec_Data_Sem s) of None \<Rightarrow> None
      | Some c \<Rightarrow>
     (case wait_two env (s\<lparr>lc_Local_Rec_Data_Sem := c\<rparr>) of None \<Rightarrow> None
      | Some s \<Rightarrow>
     (case ReadAssignBytes env 20 s of None \<Rightarrow> None
      | Some (readFromBuf, s) \<Rightarrow>
        let len = unat (ucast (GetBufLen (lc_buf s)) :: u16);
            data = readFromBuf @ le_stack env
        in if length data < len then None
           else (case (if find_substr_head data [0xCF, 0xFC] len 2 \<noteq> None then recAck 0 s else Some (False, s)) of
                None \<Rightarrow> None
              | Some (True, s) \<Rightarrow> Some s
              | Some (False, s) \<Rightarrow>
                  let len = unat (ucast (GetBufLen (lc_buf s)) :: u16)
                  in if length (sq_base (lc_buf s)) < len then None
                     else (case find_substr_head (sq_base (lc_buf s)) [0x3e, 0x11] len 2 of
                       Some (pos, len) \<Rightarrow> recOrder env pos (of_nat len) s
                     | None \<Rightarrow> Some (s\<lparr>lc_buf := ClearBuf (lc_buf s)\<rparr>))))))"

section \<open>Statuses and their answers\<close>

lemma OSSemPost_pos: "0 < OSSemPost c"
proof (cases "c < 65535")
  case True
  then have "c \<noteq> - 1" by (auto simp: minus_one)
  then have "unat (c + 1) = unat c + 1" by (rule unat_inc)
  then have "c + 1 \<noteq> 0" by (metis Suc_eq_plus1 Zero_not_Suc unsigned_0)
  then show ?thesis using True by (simp add: OSSemPost_def word_gt_0)
next
  case False
  then have "c \<noteq> 0" by auto
  then show ?thesis using False by (simp add: OSSemPost_def word_gt_0)
qed

text \<open>No sleep passes without an answer of the kind that is waited for, or the first one passes without any.\<close>

definition ack_sem :: "bool \<Rightarrow> local_state \<Rightarrow> u16" where
  "ack_sem printer s = (if printer then lc_Ack_Rec_Printer_Sem s else lc_Ack_Rec_Order_Sem s)"

definition answers :: "bool \<Rightarrow> local_env \<Rightarrow> nat \<Rightarrow> nat" where
  "answers printer env = (if printer then le_printer_acks env else le_order_acks env)"

lemma hooks_acks:
  "lc_sent (foldl USART3_Hook s cs) = lc_sent s" "ack_sem printer (foldl USART3_Hook s cs) = ack_sem printer s"
  by (induction cs arbitrary: s) (simp_all add: USART3_Hook_def Let_def ack_sem_def)

lemma delay_acks:
  "lc_sent (delay env s) = lc_sent s"
  "ack_sem printer (delay env s) = (OSSemPost ^^ answers printer env (lc_time s)) (ack_sem printer s)"
  using hooks_acks(1) [of s "le_bytes env (lc_time s)"] hooks_acks(2) [of True s "le_bytes env (lc_time s)"]
    hooks_acks(2) [of False s "le_bytes env (lc_time s)"]
  by (simp_all add: delay_def Let_def ack_sem_def answers_def)

lemma delay_time: "lc_time (delay env s) = lc_time s + 1"
  by (simp add: delay_def Let_def)

lemma accept_ack_simps:
  "fst (accept_ack printer s) = ack_sem printer s" "lc_sent (snd (accept_ack printer s)) = lc_sent s"
  by (simp_all add: accept_ack_def OSSemAccept_def ack_sem_def)

lemma answered:
  assumes "0 < answers printer env (lc_time s)"
  shows "0 < fst (accept_ack printer (delay env s))"
proof -
  obtain n where "answers printer env (lc_time s) = Suc n" using assms by (cases "answers printer env (lc_time s)") auto
  then show ?thesis by (simp add: accept_ack_simps delay_acks OSSemPost_pos)
qed

lemma await_answered:
  "\<forall>n. 0 < answers printer env n \<Longrightarrow> \<not> fst (await_ack env printer d t s) \<and> lc_sent (snd (await_ack env printer d t s)) = lc_sent s"
proof (induction env printer d t s rule: await_ack.induct)
  case (1 env printer d t s)
  obtain n s' where a: "accept_ack printer (delay env s) = (n, s')" by fastforce
  then have "0 < n" "lc_sent s' = lc_sent s"
    using answered [of printer env s] accept_ack_simps [of printer "delay env s"] "1.prems" by (simp_all add: delay_acks)
  moreover have "\<not> 1 > n" using \<open>0 < n\<close> by (simp add: word_less_1)
  ultimately show ?case using "1.IH" [OF _ a [symmetric]] "1.prems" a by (subst (1 2) await_ack.simps) simp
qed

lemma posts_le: "unat ((OSSemPost ^^ n) c) \<le> unat c + n"
proof (induction n)
  case (Suc n)
  have "unat (OSSemPost x) \<le> unat x + 1" for x :: u16
    by (simp add: OSSemPost_def unat_word_ariths)
  from this [of "(OSSemPost ^^ n) c"] show ?case using Suc by simp
qed simp

text \<open>When fewer answers wait and come than there are waits, one of the waits finds none.\<close>

lemma await_short:
  "unat (ack_sem printer s) + (\<Sum>i < k. answers printer env (lc_time s + i)) < k \<Longrightarrow> unat t + k < unat d \<Longrightarrow>
   fst (await_ack env printer d t s) \<and> lc_sent (snd (await_ack env printer d t s)) = lc_sent s"
proof (induction k arbitrary: t s)
  case (Suc k)
  let ?a = "answers printer env (lc_time s)"
  obtain n s' where a: "accept_ack printer (delay env s) = (n, s')" by fastforce
  have n: "n = (OSSemPost ^^ ?a) (ack_sem printer s)" "lc_sent s' = lc_sent s"
    using a accept_ack_simps [of printer "delay env s"] by (simp_all add: delay_acks)
  have le: "unat n \<le> unat (ack_sem printer s) + ?a" using posts_le n(1) by simp
  have t: "t \<noteq> - 1" using Suc.prems(2) unat_u8 [of d] by (auto simp: minus_one)
  then have t1: "unat (t + 1) = unat t + 1" by (rule unat_inc)
  then have d: "t + 1 \<noteq> d" using Suc.prems(2) by auto
  show ?case
  proof (cases "n = 0")
    case True
    then show ?thesis using a d n(2) by (subst (1 2) await_ack.simps) simp
  next
    case False
    have "ack_sem printer (delay env s) = n" by (simp add: delay_acks n(1))
    then have s': "ack_sem printer s' = n - 1" "lc_time s' = lc_time s + 1"
      using a False by (auto simp: accept_ack_def OSSemAccept_def ack_sem_def delay_time word_gt_0 split: if_splits)
    have u: "unat (n - 1) = unat n - 1" using False by (simp add: unat_minus_one)
    have "0 < unat n" using False by (simp add: unat_gt_0)
    then have "unat (ack_sem printer s') + (\<Sum>i < k. answers printer env (lc_time s' + i)) < k"
      using Suc.prems(1) le s' u by (simp add: sum.lessThan_Suc_shift del: sum.lessThan_Suc)
    then have "fst (await_ack env printer d (t + 1) s') \<and> lc_sent (snd (await_ack env printer d (t + 1) s')) = lc_sent s'"
      using Suc.prems(2) t1 by (intro Suc.IH) auto
    moreover have "\<not> 1 > n" using False by (simp add: word_less_1)
    ultimately show ?thesis using a d n(2) by (subst (1 2) await_ack.simps) simp
  qed
qed simp

lemma send_short:
  assumes "unat (ack_sem printer s) + (\<Sum>i < k. answers printer env (lc_time s + i)) < k" "k < unat d"
  shows "lc_sent (send_tries env printer d m 0 s) = lc_sent s @ [take 20 m]"
proof -
  let ?s = "LocalSendData m 20 s"
  have "ack_sem printer ?s = ack_sem printer s" "lc_time ?s = lc_time s"
    by (cases printer; simp add: LocalSendData_def ack_sem_def)+
  then have "fst (await_ack env printer d 0 ?s)" "lc_sent (snd (await_ack env printer d 0 ?s)) = lc_sent s @ [take 20 m]"
    using await_short [of printer ?s env k 0 d] assms by (simp_all add: LocalSendData_def)
  then show ?thesis by (subst send_tries.simps) (simp add: split_beta Let_def)
qed

lemma replicate_app: "x # replicate n y = [x] @ replicate n y" "replicate 2 x = [x, x]" "replicate 3 x = [x, x, x]" "replicate 4 x = [x, x, x, x]"
  by (simp_all add: eval_nat_numeral)

lemma send_answered:
  "\<forall>n. 0 < answers printer env n \<Longrightarrow> r \<in> {0, 1, 2, 3} \<Longrightarrow>
   lc_sent (send_tries env printer d m r s) = lc_sent s @ replicate (4 - unat r) (take 20 m)"
proof -
  assume a: "\<forall>n. 0 < answers printer env n" and r: "r \<in> {0, 1, 2, 3}"
  have step: "lc_sent (send_tries env printer d m r s) =
    (if r + 1 > 3 then lc_sent s @ [take 20 m]
     else lc_sent (send_tries env printer d m (r + 1) (snd (await_ack env printer d 0 (LocalSendData m 20 s)))))" for r s
    using await_answered [OF a, of d 0 "LocalSendData m 20 s"]
    by (subst send_tries.simps) (simp add: split_beta Let_def LocalSendData_def)
  have sent: "lc_sent (snd (await_ack env printer d 0 (LocalSendData m 20 s))) = lc_sent s @ [take 20 m]" for s
    using await_answered [OF a, of d 0 "LocalSendData m 20 s"] by (simp add: LocalSendData_def)
  have 3: "lc_sent (send_tries env printer d m 3 s) = lc_sent s @ [take 20 m]" for s by (subst step) simp
  have 2: "lc_sent (send_tries env printer d m 2 s) = lc_sent s @ replicate 2 (take 20 m)" for s
    by (subst step) (simp add: 3 sent replicate_app)
  have 1: "lc_sent (send_tries env printer d m 1 s) = lc_sent s @ replicate 3 (take 20 m)" for s
    by (subst step) (simp add: 2 sent replicate_app)
  have 0: "lc_sent (send_tries env printer d m 0 s) = lc_sent s @ replicate 4 (take 20 m)" for s
    by (subst step) (simp add: 1 sent replicate_app)
  show ?thesis using r 0 1 2 3 by auto
qed

definition status_code :: "req_type \<Rightarrow> u8" where
  "status_code type = (if type = printer_status then PRINTER_STATUS else ORDER_STATUS)"

lemma pack_length:
  assumes "Pack_Req_Or_Status_Message m type symbol i t p = Some f" "length m = 20"
  shows "length f = 20"
  using assms by (auto simp: Pack_Req_Or_Status_Message_def Let_def set_data_defs split: option.splits)

lemma status_resent:
  assumes "type = printer_status \<or> type = order_status"
  shows "\<exists>s' frame. SendStatusToLocal env type symbol num s = Some s'
    \<and> Pack_Req_Or_Status_Message (replicate 20 0) (status_code type) symbol Get_MCU_ID 0 num = Some frame
    \<and> (unat (ack_sem (type = printer_status) s)
           + (\<Sum>i < (if type = printer_status then 3 else 19). answers (type = printer_status) env (lc_time s + i))
         < (if type = printer_status then 3 else 19) \<longrightarrow> lc_sent s' = lc_sent s @ [frame])
    \<and> ((\<forall>n. 0 < answers (type = printer_status) env n) \<longrightarrow> lc_sent s' = lc_sent s @ replicate 4 frame)"
proof -
  let ?p = "type = printer_status"
  define d where "d = (if ?p then 4 else 20 :: u8)"
  obtain frame where fr: "Pack_Req_Or_Status_Message (replicate 20 0) (status_code type) symbol Get_MCU_ID 0 num = Some frame"
    using pack_defined [of "replicate 20 0" "status_code type" symbol Get_MCU_ID 0 num] by auto
  have l: "take 20 frame = frame" using pack_length [OF fr] by simp
  have "SendStatusToLocal env type symbol num s = Some (send_tries env ?p d frame 0 s)"
    using assms fr by (auto simp: SendStatusToLocal_def status_code_def Get_Order_Unix_Time_def d_def)
  moreover have "(if ?p then 3 else 19 :: nat) < unat d" by (simp add: d_def)
  ultimately show ?thesis
    using fr send_short [of ?p s env "if ?p then 3 else 19" d frame] send_answered [of ?p env 0 d frame s] l by auto
qed

section \<open>The buffer as a linear array\<close>

definition linear :: "SqQueue \<Rightarrow> u8 list \<Rightarrow> bool" where
  "linear buf d \<longleftrightarrow> sq_read buf = 0 \<and> unat (sq_write buf) = length d \<and> take (length d) (sq_base buf) = d
     \<and> length (sq_base buf) = unat (sq_MAX buf) \<and> unat (sq_MAX buf) < 65536 \<and> length d < unat (sq_MAX buf)
     \<and> (sq_buf_empty buf = 0 \<longleftrightarrow> d \<noteq> [])"

text \<open>What a sleep of the receiving task does not change.\<close>

definition same_local :: "local_state \<Rightarrow> local_state \<Rightarrow> bool" where
  "same_local s s' \<longleftrightarrow> sq_MAX (lc_buf s') = sq_MAX (lc_buf s) \<and> lc_last_order_number s' = lc_last_order_number s
     \<and> lc_Print_Queue_Sem s' = lc_Print_Queue_Sem s \<and> lc_urgent s' = lc_urgent s \<and> lc_capacity s' = lc_capacity s
     \<and> lc_sent s' = lc_sent s"

lemma same_local_trans: "same_local a b \<Longrightarrow> same_local b c \<Longrightarrow> same_local a c"
  by (simp add: same_local_def)

lemma linear_clear: "linear buf d \<Longrightarrow> linear (ClearBuf buf) []"
  by (auto simp: linear_def ClearBuf_def)

lemma linear_nth: "linear buf d \<Longrightarrow> i < length d \<Longrightarrow> sq_base buf ! i = d ! i"
  unfolding linear_def by (metis nth_take)

lemma linear_len:
  assumes "linear buf d"
  shows "unat (GetBufLen buf) = length d" "unat (ucast (GetBufLen buf) :: u16) = length d" "length d \<le> length (sq_base buf)"
  using assms by (simp_all add: linear_def GetBufLen_def unsigned_ucast_eq take_bit_nat_eq_self)

lemma hook_linear:
  assumes "linear (lc_buf s) d" "length d + 1 < unat (sq_MAX (lc_buf s))"
  shows "linear (lc_buf (USART3_Hook s c)) (d @ [c])" "same_local s (USART3_Hook s c)"
proof -
  let ?b = "lc_buf s"
  have w: "unat (sq_write ?b + 1) = length d + 1"
    using assms by (subst unat_add_lem [THEN iffD1]) (simp_all add: linear_def)
  then have m: "unat ((sq_write ?b + 1) mod sq_MAX ?b) = length d + 1" using assms(2) by (simp add: unat_mod_distrib)
  then have f: "(sq_write ?b + 1) mod sq_MAX ?b \<noteq> sq_read ?b"
    using assms(1) by (metis Suc_eq_plus1 Zero_not_Suc linear_def unsigned_0)
  have b: "lc_buf (USART3_Hook s c) = put_byte ?b c" using f by (simp add: USART3_Hook_def Let_def)
  have "take (length d + 1) ((sq_base ?b)[length d := c]) = d @ [c]"
    using assms by (simp add: linear_def take_Suc_conv_app_nth)
  then show "linear (lc_buf (USART3_Hook s c)) (d @ [c])"
    unfolding b using assms m by (simp add: linear_def put_byte_def)
  show "same_local s (USART3_Hook s c)" using f by (simp add: same_local_def USART3_Hook_def Let_def put_byte_def)
qed

lemma hooks_linear:
  "linear (lc_buf s) d \<Longrightarrow> length d + length cs < unat (sq_MAX (lc_buf s)) \<Longrightarrow>
   linear (lc_buf (foldl USART3_Hook s cs)) (d @ cs) \<and> same_local s (foldl USART3_Hook s cs)"
proof (induction cs arbitrary: s d)
  case (Cons c cs)
  have h: "linear (lc_buf (USART3_Hook s c)) (d @ [c])" "same_local s (USART3_Hook s c)"
    using hook_linear [OF Cons.prems(1)] Cons.prems(2) by simp_all
  then show ?case
    using Cons.IH [OF h(1)] Cons.prems(2) same_local_trans [OF h(2)] by (simp add: same_local_def)
qed (simp add: same_local_def)

lemma delay_linear:
  assumes "linear (lc_buf s) d" "length d + length (le_bytes env (lc_time s)) < unat (sq_MAX (lc_buf s))"
  shows "linear (lc_buf (delay env s)) (d @ le_bytes env (lc_time s))" "same_local s (delay env s)" "lc_time (delay env s) = lc_time s + 1"
  using hooks_linear [OF assms] by (simp_all add: delay_def Let_def same_local_def)

lemma wait_order_done:
  assumes "linear (lc_buf s) d" "d @ concat (map (le_bytes env) [lc_time s ..< lc_time s + m]) = f"
    "length f = unat L" "length f < unat (sq_MAX (lc_buf s))" "unat t + m < 40"
  shows "\<exists>t' s'. wait_order env L t s = (t', s') \<and> t' < 40 \<and> linear (lc_buf s') f \<and> same_local s s'"
  using assms
proof (induction m arbitrary: s d t)
  case 0
  have "\<not> ucast L > GetBufLen (lc_buf s)"
    using 0 linear_len(1) [OF "0.prems"(1)] by (simp add: word_less_nat_alt)
  then show ?case using 0 by (simp add: wait_order.simps [of env L t s] same_local_def word_less_nat_alt)
next
  case (Suc m)
  show ?case
  proof (cases "length d = unat L")
    case True
    then have "\<not> ucast L > GetBufLen (lc_buf s)"
      using linear_len(1) [OF Suc.prems(1)] by (simp add: word_less_nat_alt)
    moreover have "d = f" using True Suc.prems(2,3) by (metis append_eq_append_conv append_Nil2)
    ultimately show ?thesis using Suc.prems by (simp add: wait_order.simps [of env L t s] same_local_def word_less_nat_alt)
  next
    case False
    have f: "(d @ le_bytes env (lc_time s)) @ concat (map (le_bytes env) [lc_time s + 1 ..< lc_time s + 1 + m]) = f"
      using Suc.prems(2) upt_conv_Cons [of "lc_time s" "lc_time s + Suc m"] by (simp del: upt_Suc)
    then have l: "length d + length (le_bytes env (lc_time s)) \<le> length f" by (metis length_append le_add1)
    then have "length d + length (le_bytes env (lc_time s)) < unat (sq_MAX (lc_buf s))" using Suc.prems(4) by simp
    note dl = delay_linear [OF Suc.prems(1) this]
    have "ucast L > GetBufLen (lc_buf s)"
      using linear_len(1) [OF Suc.prems(1)] False l Suc.prems(3) by (simp add: word_less_nat_alt)
    moreover have "t < 40" using Suc.prems(5) by (simp add: word_less_nat_alt)
    moreover have t: "unat (t + 1) = unat t + 1" using Suc.prems(5) by (intro unat_inc) (auto simp: minus_one)
    moreover have "\<exists>t' s'. wait_order env L (t + 1) (delay env s) = (t', s') \<and> t' < 40 \<and> linear (lc_buf s') f \<and> same_local (delay env s) s'"
      using dl f Suc.prems(3-5) t by (intro Suc.IH [of _ "d @ le_bytes env (lc_time s)"]) (simp_all add: same_local_def del: upt_Suc)
    ultimately show ?thesis
      using dl(2) same_local_trans by (subst wait_order.simps) auto
  qed
qed

section \<open>Receiving an order\<close>

lemma check_sum_loop_take:
  "n \<le> length data \<Longrightarrow> check_sum_loop acc (take n data) n = check_sum_loop acc data n"
proof (induction acc data n rule: check_sum_loop.induct)
  case (1 acc a b data len)
  then show ?case by (cases len; cases "len - 1") (auto simp: take_Cons')
qed (auto simp: take_Cons')

lemma linear_take: "linear buf d \<Longrightarrow> n \<le> length d \<Longrightarrow> take n (sq_base buf) = take n d"
  unfolding linear_def by (metis min.absorb1 take_take)

lemma CheckRec_linear: "linear buf d \<Longrightarrow> n \<le> length d \<Longrightarrow> CheckRec (sq_base buf) n = CheckRec d n"
  using linear_take [of buf d n] linear_len(3) [of buf d]
  by (metis CheckRec_def Check_Sum_def check_sum_loop_take le_trans)

definition order_number :: "u8 list \<Rightarrow> u32" where
  "order_number f = be32 (f ! 12) (f ! 13) (f ! 14) (f ! 15)"

definition order_ack :: "u8 list \<Rightarrow> u8 list option" where
  "order_ack f = Pack_Req_Or_Status_Message (replicate SEND_DATA_SIZE 0) ACK_STATUS 0 Get_MCU_ID ORDER_ACK_LOCAL (order_number f)"

lemma order_ack_defined: "\<exists>frame. order_ack f = Some frame \<and> length frame = 20"
  unfolding order_ack_def using pack_defined [of "replicate 20 0" ACK_STATUS 0 Get_MCU_ID 0 "order_number f"]
  by (auto simp: Pack_Req_Or_Status_Message_def Let_def set_data_defs split: option.splits)

definition order_taken :: "u8 list \<Rightarrow> local_state \<Rightarrow> local_state \<Rightarrow> bool" where
  "order_taken f s s' \<longleftrightarrow> (\<exists>frame. order_ack f = Some frame \<and> lc_sent s' = lc_sent s @ [frame]) \<and> linear (lc_buf s') []
     \<and> lc_last_order_number s' = order_number f
     \<and> (if order_number f \<noteq> lc_last_order_number s
        then contents (lc_urgent s') = contents (lc_urgent s) @ f \<and> lc_Print_Queue_Sem s' = OSSemPost (lc_Print_Queue_Sem s)
        else lc_urgent s' = lc_urgent s \<and> lc_Print_Queue_Sem s' = lc_Print_Queue_Sem s)"

lemma recOrder_taken:
  assumes "linear (lc_buf s) d" "20 \<le> length d" "d @ concat (map (le_bytes env) [lc_time s ..< lc_time s + m]) = f" "m < 40"
    "order_frame f" "CheckRec f (length f) = Some True" "length f < unat (sq_MAX (lc_buf s))"
    "ring (lc_urgent s)" "length f \<le> room (lc_urgent s)" "20 \<le> len"
  shows "\<exists>s'. recOrder env 0 len s = Some s' \<and> order_taken f s s'"
proof -
  have lf: "length f = 28 + unat (be16 (f ! 2) (f ! 3))" using assms(5) by (simp add: order_frame_def)
  have l: "length d \<le> length f" using assms(3) by (metis length_append le_add1)
  have M: "length (sq_base (lc_buf s)) = unat (sq_MAX (lc_buf s))" "unat (sq_MAX (lc_buf s)) < 65536" using assms(1) by (simp_all add: linear_def)
  define L where "L = (be16 (f ! 2) (f ! 3) + 28 :: u16)"
  have L: "unat L = length f"
    using lf assms(7) M(2) unfolding L_def by (subst unat_add_lem [THEN iffD1]) simp_all
  have d: "sq_base (lc_buf s) ! i = f ! i" if "i < 20" for i
    using linear_nth [OF assms(1), of i] that assms(2) by (simp add: nth_append flip: assms(3))
  obtain t' s1 where s1: "wait_order env L 0 s = (t', s1)" "t' < 40" "linear (lc_buf s1) f" "same_local s s1"
    using wait_order_done [OF assms(1,3), of L 0] L assms(4,7) by auto
  have d1: "sq_base (lc_buf s1) ! i = f ! i" if "i < 20" for i
    using linear_nth [OF s1(3), of i] that lf by simp
  have num: "ANALYZE_DATA_4B (sq_base (lc_buf s1)) 12 = order_number f"
    by (simp add: ANALYZE_4B_be32 order_number_def d1)
  have hd: "ANALYZE_DATA_2B (sq_base (lc_buf s)) 2 + 28 = L" by (simp add: ANALYZE_2B_be16 L_def d)
  have chk: "CheckRec (sq_base (lc_buf s1)) (unat L) = Some True" using CheckRec_linear [OF s1(3)] assms(6) L by simp
  have tk: "take (unat L) (sq_base (lc_buf s1)) = f" using linear_take [OF s1(3)] L by simp
  have same: "lc_last_order_number s1 = lc_last_order_number s" "lc_Print_Queue_Sem s1 = lc_Print_Queue_Sem s"
    "lc_urgent s1 = lc_urgent s" "lc_capacity s1 = lc_capacity s" "lc_sent s1 = lc_sent s" using s1(4) by (simp_all add: same_local_def)
  obtain frame where fr: "order_ack f = Some frame" "length frame = 20" using order_ack_defined by blast
  have ack: "AckToLocal (order_number f) x = Some (x\<lparr>lc_sent := lc_sent x @ [frame]\<rparr>)" for x
    using fr by (simp add: AckToLocal_def order_ack_def LocalSendData_def)
  have pos: "0 < length f" using lf by simp
  obtain buf where buf: "put_data f (lc_urgent s) (lc_capacity s) = Some (buf, lc_capacity s - of_nat (length f))"
    "contents buf = contents (lc_urgent s) @ f"
    using put_data_appends [OF assms(8) pos assms(9), of "lc_capacity s"] by blast
  have w: "wait_head env len s = Some s" using leD [OF assms(10)] by (subst wait_head.simps) simp
  have base: "\<not> length (sq_base (lc_buf s)) < 16" using M(1) assms(7) lf by simp
  have base1: "\<not> length (sq_base (lc_buf s1)) < unat L" using linear_len(3) [OF s1(3)] L by simp
  note facts = s1(1,2) chk num base base1 linear_clear [OF s1(3)]
  show ?thesis
  proof (cases "order_number f = lc_last_order_number s")
    case True
    show ?thesis
      unfolding recOrder_def w option.case drop_0 add_0 hd Let_def of_nat_numeral using facts True
      by (simp add: hd same ack [unfolded True] fr(1) order_taken_def)
  next
    case False
    show ?thesis
      unfolding recOrder_def w option.case drop_0 add_0 hd Let_def of_nat_numeral using facts False
      by (simp add: hd same tk buf ack fr(1) order_taken_def)
  qed
qed

lemma match_two: "i < 1 \<Longrightarrow> match_from d [x, y] i len 2 \<longleftrightarrow> i + 1 < len \<and> d ! i = x \<and> d ! (i + 1) = y"
  by (subst match_from.simps, subst match_from.simps) auto

lemma head_at_0: "data ! 0 = x \<Longrightarrow> data ! 1 = y \<Longrightarrow> 2 \<le> len \<Longrightarrow> find_substr_head data [x, y] len 2 = Some (0, len)"
  unfolding find_substr_head_def by (subst find_substr_head_loop.simps) (simp add: match_two)

lemma copy_linear_prefix:
  assumes "linear buf d" "unat n \<le> length d"
  shows "copy_linear buf n = Some (take (unat n) d)"
proof -
  have u: "unat (of_nat i :: u32) = i" if "i < unat n" for i
    using that unat_u16 [of n] by (simp add: unat_of_nat take_bit_nat_eq_self)
  have "map (\<lambda>i. sq_base buf ! unat (sq_read buf + of_nat i)) [0 ..< unat n] = take (unat n) d"
    using assms u linear_nth [OF assms(1)] by (intro nth_equalityI) (simp_all add: linear_def)
  then show ?thesis using assms u linear_len(3) [OF assms(1)] by (simp add: copy_linear_def linear_def)
qed

text \<open>The beginning of an order is not an acknowledgement.\<close>

lemma recAck_order:
  assumes "linear (lc_buf s) d" "20 \<le> length d" "unat (d ! 2) < 160"
  shows "recAck 0 s = Some (False, s)"
proof -
  have "sq_base (lc_buf s) ! 2 = d ! 2" using linear_nth [OF assms(1), of 2] assms(2) by simp
  then have "ACK_STATUS \<noteq> sq_base (lc_buf s) ! 2" using assms(3) by auto
  moreover obtain ok where "CheckRec (sq_base (lc_buf s)) 20 = Some ok"
    using Check_Sum_defined [of 20 "sq_base (lc_buf s)"] assms(2) linear_len(3) [OF assms(1)] by (auto simp: CheckRec_def)
  ultimately show ?thesis by (auto simp: recAck_def Let_def)
qed

lemma local_order_aux:
  assumes "linear (lc_buf s) d" "20 \<le> length d" "d @ concat (map (le_bytes env) [lc_time s ..< lc_time s + m]) = f" "m < 40"
    "order_frame f" "CheckRec f (length f) = Some True" "length f < unat (sq_MAX (lc_buf s))" "unat (sq_MAX (lc_buf s)) \<le> 10240"
    "ring (lc_urgent s)" "length f \<le> room (lc_urgent s)"
    "0 < lc_Local_Rec_Data_Sem s" "length d \<le> 20 + length (le_stack env)"
  shows "\<exists>s'. local_receive env s = Some s' \<and> order_taken f s s'"
proof -
  define s0 where "s0 = s\<lparr>lc_Local_Rec_Data_Sem := lc_Local_Rec_Data_Sem s - 1\<rparr>"
  have s0: "lc_buf s0 = lc_buf s" "lc_time s0 = lc_time s" "lc_urgent s0 = lc_urgent s"
    "lc_last_order_number s0 = lc_last_order_number s" "lc_Print_Queue_Sem s0 = lc_Print_Queue_Sem s" "lc_sent s0 = lc_sent s"
    by (simp_all add: s0_def)
  note lin = assms(1) [folded s0(1)]
  have len: "unat (ucast (GetBufLen (lc_buf s0)) :: u16) = length d" using linear_len(2) [OF lin] .
  have pend: "OSSemPend (lc_Local_Rec_Data_Sem s) = Some (lc_Local_Rec_Data_Sem s - 1)" using assms(11) by (simp add: OSSemPend_def)
  have two: "wait_two env s0 = Some s0"
    using assms(2) len by (subst wait_two.simps) (simp add: word_less_nat_alt)
  have "d \<noteq> []" using assms(2) by auto
  then have "sq_buf_empty (lc_buf s0) = 0" using lin by (simp add: linear_def)
  moreover have "(20 :: u16) \<le> ucast (GetBufLen (lc_buf s0))" using assms(2) len by (simp add: word_le_nat_alt)
  ultimately have read: "ReadAssignBytes env 20 s0 = Some (take 20 d, s0)"
    using copy_linear_prefix [OF lin, of 20] assms(2) by (subst ReadAssignBytes.simps) simp
  have fd: "f ! i = d ! i" if "i < 20" for i using that assms(2) by (simp add: nth_append flip: assms(3))
  have f: "28 \<le> length f" "f ! 0 = 0x3e" "f ! 1 = 0x11" "length f = 28 + unat (be16 (f ! 2) (f ! 3))"
    using assms(5) unfolding order_frame_def by blast+
  have "256 * unat (f ! 2) < 10240" using f(4) assms(7,8) by (simp add: unat_be16)
  then have "unat (d ! 2) < 160" using fd [of 2] by simp
  then have ack: "recAck 0 s0 = Some (False, s0)" by (rule recAck_order [OF lin assms(2)])
  have head: "find_substr_head (sq_base (lc_buf s0)) [0x3e, 0x11] (length d) 2 = Some (0, length d)"
  proof (rule head_at_0)
    have "0 < length d" "1 < length d" using assms(2) by linarith+
    then show "sq_base (lc_buf s0) ! 0 = 0x3e" "sq_base (lc_buf s0) ! 1 = 0x11" "2 \<le> length d"
      using linear_nth [OF lin] fd [of 0] fd [of 1] f(2,3) assms(2) by simp_all
  qed
  have M: "length (sq_base (lc_buf s)) = unat (sq_MAX (lc_buf s))" using assms(1) by (simp add: linear_def)
  have ld: "length d \<le> length f" using assms(3) by (metis length_append le_add1)
  have u: "unat (of_nat (length d) :: u16) = length d" using assms(7,8) ld by (simp add: unat_of_nat take_bit_nat_eq_self)
  have "(20 :: u16) \<le> of_nat (length d)" using assms(2) u by (simp add: word_le_nat_alt)
  then obtain s' where s': "recOrder env 0 (of_nat (length d)) s0 = Some s'" "order_taken f s0 s'"
    using recOrder_taken [OF lin assms(2), of env m f "of_nat (length d)"] assms(3-7,9,10) s0 by auto
  have "local_receive env s = Some s'"
    unfolding local_receive_def pend option.case s0_def [symmetric] two read Let_def prod.case len
    using assms(2,7,12) M ld ack head s'(1) by (simp add: s0(1) len [unfolded s0(1)])
  then show ?thesis using s'(2) by (auto simp: order_taken_def s0)
qed

text \<open>C31. A status over the serial line is sent once and not again when fewer answers wait and come than
  there are waits between two sendings (three for a printer, nineteen for an order), in particular when none comes at
  all, because a count of 0 is taken for an answer; when an answer comes during every wait it is sent
  four times.\<close>

theorem local_status_inverted:
  assumes "type = printer_status \<or> type = order_status"
  shows "\<exists>s' frame. SendStatusToLocal env type symbol num s = Some s'
    \<and> Pack_Req_Or_Status_Message (replicate 20 0) (status_code type) symbol Get_MCU_ID 0 num = Some frame
    \<and> (unat (ack_sem (type = printer_status) s)
           + (\<Sum>i < (if type = printer_status then 3 else 19). answers (type = printer_status) env (lc_time s + i))
         < (if type = printer_status then 3 else 19) \<longrightarrow> lc_sent s' = lc_sent s @ [frame])
    \<and> ((\<forall>n. 0 < answers (type = printer_status) env n) \<longrightarrow> lc_sent s' = lc_sent s @ replicate 4 frame)"
  using assms by (rule status_resent)

text \<open>C30. An order of which at least twenty bytes are in the serial buffer and the rest arrives within 39
  sleeps is acknowledged with its number and the buffer is cleared; its bytes go behind those of the urgent buffer
  and the print queue is told exactly when its number is not that of the order acknowledged last, whose number is 0
  at the start.  So only an immediate repetition is recognised, and a first order numbered 0 is acknowledged without
  being stored.\<close>

theorem local_order_received:
  assumes "linear (lc_buf s) d" "20 \<le> length d" "d @ concat (map (le_bytes env) [lc_time s ..< lc_time s + m]) = f" "m < 40"
    "order_frame f" "CheckRec f (length f) = Some True" "length f < unat (sq_MAX (lc_buf s))" "unat (sq_MAX (lc_buf s)) \<le> 10240"
    "ring (lc_urgent s)" "length f \<le> room (lc_urgent s)"
    "0 < lc_Local_Rec_Data_Sem s" "length d \<le> 20 + length (le_stack env)"
  shows "\<exists>s'. local_receive env s = Some s' \<and> order_taken f s s'"
  using assms by (rule local_order_aux)

definition local_init :: local_state where
  "local_init = \<lparr>lc_buf = init_SqQueue MAXUSIZE, lc_last_order_number = 0, lc_current_order_number = 0, lc_printerAckNum = 0,
     lc_orderAckNum = 0, lc_Ack_Rec_Printer_Sem = 0, lc_Ack_Rec_Order_Sem = 0, lc_Print_Queue_Sem = 0, lc_Local_Rec_Data_Sem = 0,
     lc_urgent = init_SqQueue MAXUSIZE, lc_capacity = 20480, lc_sent = [], lc_time = 0\<rparr>"

text \<open>An order of one byte with the number 7: its checksum is that of its other bytes.\<close>

definition serial_order :: "u8 list" where
  "serial_order = [0x3e, 0x11, 0, 2] @ replicate 8 0 @ [0, 0, 0, 7] @ replicate 6 0 @ [0xaf, 0, 1, 2, 0, 0, 0x11, 0xe3]"

definition serial_env :: local_env where
  "serial_env = \<lparr>le_bytes = (\<lambda>n. if n = 2 then drop 24 serial_order else []), le_order_acks = (\<lambda>n. 0), le_printer_acks = (\<lambda>n. 0),
     le_stack = replicate 100 0\<rparr>"

definition serial_state :: local_state where
  "serial_state = foldl USART3_Hook local_init (take 24 serial_order)"

lemma serial_bytes: "length serial_order = 30" "serial_order ! 0 = 0x3e" "serial_order ! 1 = 0x11" "serial_order ! 2 = 0"
  "serial_order ! 3 = 2" "serial_order ! 28 = 0x11" "serial_order ! 29 = 0xe3" "order_number serial_order = 7"
  by (simp_all add: serial_order_def nth_append order_number_def be32_def)

lemma serial_frame: "order_frame serial_order"
  by (simp add: order_frame_def serial_bytes be16_def del: One_nat_def)

lemma serial_check: "CheckRec serial_order 30 = Some True"
  by code_simp

lemma serial_linear: "linear (lc_buf serial_state) (take 24 serial_order) \<and> same_local local_init serial_state"
  unfolding serial_state_def
  using hooks_linear [of local_init "[]" "take 24 serial_order"]
  by (simp add: local_init_def linear_def init_SqQueue_def serial_bytes unat_of_nat)

lemma hook_sem: "0 < lc_Local_Rec_Data_Sem s \<Longrightarrow> 0 < lc_Local_Rec_Data_Sem (USART3_Hook s c)"
  by (simp add: USART3_Hook_def Let_def OSSemPost_pos)

lemma hooks_sem: "0 < lc_Local_Rec_Data_Sem s \<Longrightarrow> 0 < lc_Local_Rec_Data_Sem (foldl USART3_Hook s cs)"
  by (induction cs arbitrary: s) (simp_all add: hook_sem)

lemma hooks_time: "lc_time (foldl USART3_Hook s cs) = lc_time s"
  by (induction cs arbitrary: s) (simp_all add: USART3_Hook_def Let_def)

lemma serial_sem: "lc_time serial_state = 0" "0 < lc_Local_Rec_Data_Sem serial_state"
proof -
  show "lc_time serial_state = 0" by (simp add: serial_state_def hooks_time local_init_def)
  have "0 < lc_Local_Rec_Data_Sem (USART3_Hook local_init 0x3e)"
    by (simp add: USART3_Hook_def Let_def local_init_def init_SqQueue_def OSSemPost_def)
  moreover have "take 24 serial_order = 0x3e # drop 1 (take 24 serial_order)" by (simp add: serial_order_def)
  ultimately show "0 < lc_Local_Rec_Data_Sem serial_state"
    unfolding serial_state_def by (metis foldl_Cons hooks_sem)
qed

theorem local_order_received_witness:
  "\<exists>s'. local_receive serial_env serial_state = Some s' \<and> order_taken serial_order serial_state s'"
proof (rule local_order_received [of _ "take 24 serial_order" _ 3])
  show "linear (lc_buf serial_state) (take 24 serial_order)" using serial_linear by blast
qed (use serial_linear serial_frame serial_check serial_sem in
  \<open>simp_all add: serial_bytes serial_env_def same_local_def local_init_def init_ring init_room upt_rec init_SqQueue_def [of 10240, THEN arg_cong [of _ _ sq_MAX]]\<close>)

text \<open>No answer, a single one during the second sleep, and one during every sleep.\<close>

theorem local_status_inverted_witness:
  "(\<exists>s'. SendStatusToLocal serial_env order_status 4 7 local_init = Some s' \<and> length (lc_sent s') = 1)
   \<and> (\<exists>s'. SendStatusToLocal (serial_env\<lparr>le_order_acks := \<lambda>n. if n = 1 then 1 else 0\<rparr>) order_status 4 7 local_init = Some s'
        \<and> length (lc_sent s') = 1)
   \<and> (\<exists>s'. SendStatusToLocal (serial_env\<lparr>le_order_acks := \<lambda>n. 1\<rparr>) order_status 4 7 local_init = Some s' \<and> length (lc_sent s') = 4)"
proof (intro conjI)
  show "\<exists>s'. SendStatusToLocal serial_env order_status 4 7 local_init = Some s' \<and> length (lc_sent s') = 1"
    using local_status_inverted [of order_status serial_env 4 7 local_init]
    by (auto simp: ack_sem_def answers_def serial_env_def local_init_def)
  let ?one = "serial_env\<lparr>le_order_acks := \<lambda>n. if n = 1 then 1 else 0\<rparr>"
  have "(\<Sum>i < 19. answers False ?one (lc_time local_init + i)) = 1"
    by (simp add: answers_def local_init_def numeral_eq_Suc)
  then show "\<exists>s'. SendStatusToLocal ?one order_status 4 7 local_init = Some s' \<and> length (lc_sent s') = 1"
    using local_status_inverted [of order_status ?one 4 7 local_init] by (auto simp: ack_sem_def local_init_def)
  have "\<forall>n. 0 < answers False (serial_env\<lparr>le_order_acks := \<lambda>n. 1\<rparr>) n" by (simp add: answers_def)
  then show "\<exists>s'. SendStatusToLocal (serial_env\<lparr>le_order_acks := \<lambda>n. 1\<rparr>) order_status 4 7 local_init = Some s' \<and> length (lc_sent s') = 4"
    using local_status_inverted [of order_status "serial_env\<lparr>le_order_acks := \<lambda>n. 1\<rparr>" 4 7 local_init]
    by (auto simp: local_init_def)
qed

end
