(* ===== verification/Wifi_Conf.thy ===== *)
theory Wifi_Conf
  imports Local_Conf Request_Heap
begin

text \<open>
  The wifi connection, \<^verbatim>\<open>User/src/wifi_conf.c\<close>: the receive interrupt, reading and deleting from
  the wifi ring buffer, the reception of requests and orders, and the statuses sent.  The environment gives the
  bytes that arrive during the \<open>n\<close>th sleep, and what the code takes from memory it has not written:
  the error code of \<^verbatim>\<open>WifiDeleteBuf\<close>, the result of \<^verbatim>\<open>recReq\<close> where it has no return statement, the
  array on the stack, and the memory after the buffer.  \<^term>\<open>None\<close> is an access out of range or a wait
  that does not end.
\<close>

section \<open>State\<close>

record wifi_conf =
  wc_buf :: SqQueue
  wc_last_order_number :: u32
  wc_current_order_number :: u32
  wc_heap :: Heap
  wc_Rec_Wifi_Req_Sem :: u16
  wc_Capacity_Change_Sem :: u16
  wc_Print_Queue_Sem :: u16
  wc_Wifi_Rec_Data_Sem :: u16
  wc_urgent :: SqQueue
  wc_capacity :: u32
  wc_sent :: "u8 list list"
  wc_time :: nat

record wifi_env =
  we_bytes :: "nat \<Rightarrow> u8 list"
  we_buf_err :: int
  we_ret :: bool
  we_stack :: "u8 list"
  we_after :: "u8 list"

abbreviation (input) "ORDER_CREATE_TIME \<equiv> (4 :: nat)"
abbreviation (input) "ORDER_REQ_LENGTH \<equiv> (12 :: nat)"
abbreviation (input) "IPADD_OFFSET \<equiv> (8 :: nat)"
abbreviation (input) "ACK_LENGTH \<equiv> (20 :: nat)"

section \<open>The buffer\<close>

definition UART6_Hook :: "wifi_conf \<Rightarrow> u8 \<Rightarrow> wifi_conf" where
  "UART6_Hook s ch =
     (if (sq_write (wc_buf s) + 1) mod sq_MAX (wc_buf s) = sq_read (wc_buf s) then s
      else let s' = s\<lparr>wc_buf := put_byte (wc_buf s) ch\<rparr>
           in if sq_buf_empty (wc_buf s) = 1
              then s'\<lparr>wc_Wifi_Rec_Data_Sem := OSSemPost (wc_Wifi_Rec_Data_Sem s)\<rparr> else s')"

definition wifi_delay :: "wifi_env \<Rightarrow> wifi_conf \<Rightarrow> wifi_conf" where
  "wifi_delay env s = (foldl UART6_Hook s (we_bytes env (wc_time s)))\<lparr>wc_time := wc_time s + 1\<rparr>"

definition WifiBufLen :: "SqQueue \<Rightarrow> u32" where
  "WifiBufLen buf = (sq_write buf + sq_MAX buf - sq_read buf) mod sq_MAX buf"

definition WifiReadBytes :: "SqQueue \<Rightarrow> u8 list \<times> u16" where
  "WifiReadBytes buf =
     (let buf_len = (if sq_buf_empty buf = 0 then min (ucast (WifiBufLen buf)) READ_MAX_SIZE else 0)
      in (map (peek buf) [0 ..< unat buf_len], buf_len))"

partial_function (option) WifiReadAssignBytes ::
  "wifi_env \<Rightarrow> u8 list \<Rightarrow> u16 \<Rightarrow> u16 \<Rightarrow> wifi_conf \<Rightarrow> (int \<times> u8 list \<times> wifi_conf) option" where
  "WifiReadAssignBytes env data len timeCount s =
     (if sq_buf_empty (wc_buf s) = 0
      then if ucast (WifiBufLen (wc_buf s)) < len
           then if timeCount + 1 \<ge> 5 then Some (BUF_ARG_ERR, data, s)
                else WifiReadAssignBytes env data len (timeCount + 1) (wifi_delay env s)
           else Some (BUF_OK, map (peek (wc_buf s)) [0 ..< unat len] @ drop (unat len) data, s)
      else WifiReadAssignBytes env data len timeCount (wifi_delay env s))"

definition WifiDeleteBuf :: "wifi_env \<Rightarrow> u16 \<Rightarrow> SqQueue \<Rightarrow> int \<times> SqQueue" where
  "WifiDeleteBuf env len buf =
     (let buf_err = (if sq_buf_empty buf \<noteq> 0 then BUF_ARG_ERR else we_buf_err env);
          buf_err = (if (ucast (WifiBufLen buf) :: u16) < len then BUF_ARG_ERR else buf_err)
      in if buf_err = BUF_ARG_ERR then (buf_err, ClearBuf buf)
         else let buf = buf\<lparr>sq_read := (sq_read buf + ucast len) mod sq_MAX buf\<rparr>
              in (BUF_OK, if sq_read buf = sq_write buf then buf\<lparr>sq_buf_empty := 1\<rparr> else buf))"

section \<open>Sending\<close>

definition WifiSendData :: "u8 list \<Rightarrow> nat \<Rightarrow> wifi_conf \<Rightarrow> wifi_conf" where
  "WifiSendData data len s = s\<lparr>wc_sent := wc_sent s @ [take len data]\<rparr>"

definition SendStatusToWifi :: "req_type \<Rightarrow> u8 \<Rightarrow> u32 \<Rightarrow> u32 \<Rightarrow> wifi_conf \<Rightarrow> wifi_conf option" where
  "SendStatusToWifi type symbol IPadd preservation s =
     (let sent_data = replicate SEND_DATA_SIZE 0
      in map_option (\<lambda>sent_data. WifiSendData sent_data SEND_DATA_SIZE s)
        (if type = printer_status
         then Pack_Req_Or_Status_Message sent_data PRINTER_STATUS symbol Get_MCU_ID 0 preservation
         else if type = order_status
         then Pack_Req_Or_Status_Message sent_data ORDER_STATUS symbol Get_MCU_ID IPadd preservation
         else if type = wifi_order_req
         then Pack_Req_Or_Status_Message sent_data WIFI_REQ_ACK symbol Get_MCU_ID IPadd preservation
         else Some sent_data))"

definition AckToWifi :: "u32 \<Rightarrow> u32 \<Rightarrow> wifi_conf \<Rightarrow> wifi_conf option" where
  "AckToWifi orderNum ipAdd s =
     map_option (\<lambda>sent_data. WifiSendData sent_data SEND_DATA_SIZE s)
       (Pack_Req_Or_Status_Message (replicate SEND_DATA_SIZE 0) ACK_STATUS 0 Get_MCU_ID ipAdd orderNum)"

section \<open>Receiving\<close>

text \<open>The data of an order begin at \<^verbatim>\<open>base + read\<close> and may go on at \<^verbatim>\<open>base\<close>.\<close>

definition WifiCheckRec :: "SqQueue \<Rightarrow> u16 \<Rightarrow> bool option" where
  "WifiCheckRec buf len =
     (let data = drop (unat (sq_read buf)) (sq_base buf);
          subLen = ucast (sq_MAX buf - sq_read buf) :: u16
      in map_option (\<lambda>c. c = 0)
          (if subLen > len then Check_Sum data (unat len)
           else Check_Sum_With_Diff_Part data (unat subLen) (sq_base buf) (unat (len - subLen))))"

definition putbuf :: "u16 \<Rightarrow> wifi_conf \<Rightarrow> wifi_conf option" where
  "putbuf len s =
     (let buf = wc_buf s; data = drop (unat (sq_read buf)) (sq_base buf);
          subLen = ucast (sq_MAX buf - sq_read buf) :: u16;
          put = (\<lambda>d n q. if length d < unat n then None else put_data (take (unat n) d) (fst q) (snd q));
          q = (if subLen > len then put data len (wc_urgent s, wc_capacity s)
               else (case put data subLen (wc_urgent s, wc_capacity s) of None \<Rightarrow> None
                 | Some q \<Rightarrow> put (sq_base buf) (len - subLen) q))
      in map_option (\<lambda>(buf, cap). s\<lparr>wc_urgent := buf, wc_capacity := cap\<rparr>) q)"

function wifi_wait_order :: "wifi_env \<Rightarrow> u16 \<Rightarrow> u16 \<Rightarrow> wifi_conf \<Rightarrow> u16 \<times> wifi_conf" where
  "wifi_wait_order env order_len timeCount s =
     (if ucast order_len > WifiBufLen (wc_buf s) \<and> timeCount < 20
      then wifi_wait_order env order_len (timeCount + 1) (wifi_delay env s) else (timeCount, s))"
  by pat_completeness auto
termination
proof (relation "measure (\<lambda>(env, l, t, s). 20 - unat t)")
  fix env :: wifi_env and order_len t :: u16 and s :: wifi_conf
  assume "ucast order_len > WifiBufLen (wc_buf s) \<and> t < 20"
  then have "unat t < 20" by (simp add: word_less_nat_alt)
  moreover from this have "unat (t + 1) = unat t + 1" by (intro unat_inc) (auto simp: minus_one)
  ultimately show "((env, order_len, t + 1, wifi_delay env s), (env, order_len, t, s)) \<in> measure (\<lambda>(env, l, t, s). 20 - unat t)" by simp
qed simp

declare wifi_wait_order.simps [simp del]

definition WifiRecOrder :: "wifi_env \<Rightarrow> wifi_conf \<Rightarrow> wifi_conf option" where
  "WifiRecOrder env s =
     (case WifiReadAssignBytes env (we_stack env) (of_nat ORDER_HEAD_LENGTH) 0 s of None \<Rightarrow> None
      | Some (_, readFromBuf, s) \<Rightarrow>
        let order_total_len = ANALYZE_DATA_2B readFromBuf ORDER_HEAD_LAST_OFFSET :: u16;
            order_len = order_total_len + of_nat ORDER_HEAD_LENGTH;
            ipAdd = ANALYZE_DATA_4B readFromBuf IPADD_OFFSET
        in (case wifi_wait_order env order_len 0 s of (timeCount, s) \<Rightarrow>
           (case (if timeCount < 20 then WifiCheckRec (wc_buf s) order_len else Some False) of None \<Rightarrow> None
            | Some ok \<Rightarrow>
             (case (if ok
                    then let number = ANALYZE_DATA_4B readFromBuf ORDER_NUM_HEAD_OFFSET
                         in (case putbuf order_len (s\<lparr>wc_current_order_number := number\<rparr>) of None \<Rightarrow> None
                            | Some s \<Rightarrow>
                                map_option (\<lambda>s. s\<lparr>wc_last_order_number := number, wc_Print_Queue_Sem := OSSemPost (wc_Print_Queue_Sem s)\<rparr>)
                                  (AckToWifi number ipAdd s))
                    else SendStatusToWifi order_status ORDER_DATA_ERR ipAdd 0 s) of None \<Rightarrow> None
              | Some s \<Rightarrow>
                  Some (s\<lparr>wc_buf := snd (WifiDeleteBuf env order_len (wc_buf s)), wc_heap := ChangeCpa (wc_heap s) order_len,
                          wc_Capacity_Change_Sem := OSSemPost (wc_Capacity_Change_Sem s)\<rparr>)))))"

text \<open>The result of \<^verbatim>\<open>recReq\<close> is that of its one return statement, or what happens to be returned.\<close>

definition recReq :: "wifi_env \<Rightarrow> u8 list \<Rightarrow> wifi_conf \<Rightarrow> (bool \<times> wifi_conf) option" where
  "recReq env data s =
     (case CheckRec data ACK_LENGTH of None \<Rightarrow> None
      | Some False \<Rightarrow> Some (we_ret env, s)
      | Some True \<Rightarrow>
          if WIFI_ORDER_REQ = data ! STATUS_TYPE_OFFSET
          then let req = \<lparr>rq_orderLen = ANALYZE_DATA_4B data ORDER_REQ_LENGTH, rq_recTime = ANALYZE_DATA_4B data ORDER_CREATE_TIME,
                          rq_ipAdd = ANALYZE_DATA_4B data IPADD_OFFSET\<rparr>
               in if rq_orderLen req > of_nat (10 * KB) then Some (False, s)
                  else (case InsertHeap (wc_heap s) req of None \<Rightarrow> None
                    | Some h \<Rightarrow>
                        Some (we_ret env, s\<lparr>wc_heap := h, wc_Rec_Wifi_Req_Sem := OSSemPost (wc_Rec_Wifi_Req_Sem s),
                                            wc_buf := snd (WifiDeleteBuf env (of_nat ACK_LENGTH) (wc_buf s))\<rparr>))
          else Some (False, s))"

partial_function (option) wifi_wait_head :: "wifi_env \<Rightarrow> wifi_conf \<Rightarrow> wifi_conf option" where
  "wifi_wait_head env s = (if (ucast (WifiBufLen (wc_buf s)) :: u16) < 20 then wifi_wait_head env (wifi_delay env s) else Some s)"

text \<open>The search for a request: the bytes before its mark are deleted and it is read again.\<close>

definition wifi_request :: "wifi_env \<Rightarrow> wifi_conf \<Rightarrow> (bool \<times> wifi_conf) option" where
  "wifi_request env s =
     (case WifiReadAssignBytes env (we_stack env) (of_nat ACK_LENGTH) 0 s of None \<Rightarrow> None
      | Some (_, readFromBuf, s) \<Rightarrow>
         (case find_substr_head readFromBuf [0xCF, 0xFC] ACK_LENGTH 2 of None \<Rightarrow> Some (False, s)
          | Some (pos, len) \<Rightarrow>
              if len < ACK_LENGTH
              then (case WifiReadAssignBytes env readFromBuf (of_nat ACK_LENGTH) 0
                          (s\<lparr>wc_buf := snd (WifiDeleteBuf env (of_nat (ACK_LENGTH - len)) (wc_buf s))\<rparr>) of None \<Rightarrow> None
                | Some (_, readFromBuf, s) \<Rightarrow> recReq env readFromBuf s)
              else recReq env readFromBuf s))"

text \<open>One turn of the inner loop of \<^verbatim>\<open>wifi_receive\<close>, and that loop.\<close>

definition wifi_turn :: "wifi_env \<Rightarrow> wifi_conf \<Rightarrow> wifi_conf option" where
  "wifi_turn env s =
     (case wifi_wait_head env s of None \<Rightarrow> None
      | Some s \<Rightarrow> (case wifi_request env s of None \<Rightarrow> None
      | Some (True, s) \<Rightarrow> Some s
      | Some (False, s) \<Rightarrow>
          let data = drop (unat (sq_read (wc_buf s))) (sq_base (wc_buf s)) @ we_after env;
              len = unat (ucast (WifiBufLen (wc_buf s)) :: u16);
              subLen = (if ORDER_HEAD_LENGTH < len then ORDER_HEAD_LENGTH else len)
          in if length data < subLen then None
             else (case find_substr_head data [0x3e, 0x11] subLen 2 of
                 Some (pos, len) \<Rightarrow> WifiRecOrder env (s\<lparr>wc_buf := snd (WifiDeleteBuf env (of_nat (subLen - len)) (wc_buf s))\<rparr>)
               | None \<Rightarrow> Some (s\<lparr>wc_buf := snd (WifiDeleteBuf env (of_nat subLen) (wc_buf s))\<rparr>))))"

partial_function (option) wifi_receive :: "wifi_env \<Rightarrow> wifi_conf \<Rightarrow> wifi_conf option" where
  "wifi_receive env s =
     (if sq_buf_empty (wc_buf s) = 0
      then (case wifi_turn env s of None \<Rightarrow> None | Some s \<Rightarrow> wifi_receive env s)
      else Some s)"

section \<open>The ring buffer in the code's terms\<close>

lemma WifiBufLen_used:
  assumes "ring buf" "used buf < unat (sq_MAX buf)"
  shows "unat (WifiBufLen buf) = used buf" "unat (ucast (WifiBufLen buf) :: u16) = used buf"
proof -
  note b = ring_bounds [OF assms(1)]
  have "unat (sq_write buf + sq_MAX buf) = unat (sq_write buf) + unat (sq_MAX buf)"
    using b by (subst unat_add_lem [THEN iffD1]) simp_all
  moreover have "sq_read buf \<le> sq_write buf + sq_MAX buf" using b calculation by (simp add: word_le_nat_alt)
  ultimately have "unat (sq_write buf + sq_MAX buf - sq_read buf) = unat (sq_write buf) + unat (sq_MAX buf) - unat (sq_read buf)"
    by (simp add: unat_sub)
  then have m: "unat (WifiBufLen buf) = (unat (sq_write buf) + unat (sq_MAX buf) - unat (sq_read buf)) mod unat (sq_MAX buf)"
    by (simp add: WifiBufLen_def unat_mod_distrib)
  then show u: "unat (WifiBufLen buf) = used buf"
    using assms b by (auto simp: used_def word_less_nat_alt ring_def mod_if split: if_splits)
  show "unat (ucast (WifiBufLen buf) :: u16) = used buf"
    using u used_less [OF assms(1)] by (simp add: unsigned_ucast_eq take_bit_nat_eq_self)
qed

lemma peeks: "map (peek buf) [0 ..< n] = take n (contents buf)" if "n \<le> used buf"
  using that by (simp add: contents_def take_map)

lemma first_part:
  assumes "ring buf" "n \<le> used buf" "unat (sq_read buf) + n \<le> unat (sq_MAX buf)"
  shows "take n (drop (unat (sq_read buf)) (sq_base buf)) = take n (contents buf)"
proof (rule nth_equalityI)
  note b = ring_bounds [OF assms(1)]
  show "length (take n (drop (unat (sq_read buf)) (sq_base buf))) = length (take n (contents buf))"
    using b assms by simp
  fix i assume "i < length (take n (drop (unat (sq_read buf)) (sq_base buf)))"
  then have i: "i < n" by simp
  then show "take n (drop (unat (sq_read buf)) (sq_base buf)) ! i = take n (contents buf) ! i"
    using base_at [OF assms(1), of i] assms(2,3) b by (simp add: ring_pos_def)
qed

lemma second_part:
  assumes "ring buf" "n \<le> used buf" "unat (sq_MAX buf) - unat (sq_read buf) \<le> n" "sq_read buf < sq_MAX buf"
  shows "take (n - (unat (sq_MAX buf) - unat (sq_read buf))) (sq_base buf)
    = drop (unat (sq_MAX buf) - unat (sq_read buf)) (take n (contents buf))"
proof (rule nth_equalityI)
  note b = ring_bounds [OF assms(1)]
  let ?k = "unat (sq_MAX buf) - unat (sq_read buf)"
  have k: "unat (sq_read buf) + ?k = unat (sq_MAX buf)" using b by simp
  have n: "n - ?k \<le> unat (sq_MAX buf)" using used_le [OF assms(1)] assms(2) by simp
  show "length (take (n - ?k) (sq_base buf)) = length (drop ?k (take n (contents buf)))"
    using b assms n by simp
  fix i assume "i < length (take (n - ?k) (sq_base buf))"
  then have i: "i < n - ?k" "i < unat (sq_MAX buf)" using n by simp_all
  have "ring_pos buf (?k + i) = i"
  proof -
    have "ring_pos buf (?k + i) = (unat (sq_MAX buf) + i) mod unat (sq_MAX buf)" unfolding ring_pos_def by (metis add.assoc k)
    then show ?thesis using i(2) by simp
  qed
  then show "take (n - ?k) (sq_base buf) ! i = drop ?k (take n (contents buf)) ! i"
    using base_at [OF assms(1), of "?k + i"] i assms(2) by (simp add: add.commute)
qed

lemma WifiDeleteBuf_skip:
  assumes "ring buf" "used buf < unat (sq_MAX buf)" "unat n \<le> used buf" "0 < used buf" "we_buf_err env \<noteq> BUF_ARG_ERR"
  shows "WifiDeleteBuf env n buf = (BUF_OK, if n = 0 then buf else skip_bytes buf (unat n))"
proof -
  have e: "sq_buf_empty buf = 0" using assms(4) by (auto simp: used_def split: if_splits)
  have l: "\<not> (ucast (WifiBufLen buf) :: u16) < n"
    using WifiBufLen_used(2) [OF assms(1,2)] assms(3) by (simp add: word_less_nat_alt)
  have "sq_read buf < sq_MAX buf" using assms(1) by (simp add: ring_def)
  then have r: "sq_read buf mod sq_MAX buf = sq_read buf"
    by (simp add: word_unat_eq_iff unat_mod_distrib word_less_nat_alt)
  have "sq_read buf \<noteq> sq_write buf" using assms(2,4) e by (auto simp: used_def)
  then show ?thesis using e l r assms(5) by (simp add: WifiDeleteBuf_def skip_bytes_def Let_def of_nat_unat)
qed

section \<open>An order in the ring\<close>

text \<open>The front of the buffer is a whole order; one that reaches the end of the array has pieces of even length.\<close>

definition front_order :: "SqQueue \<Rightarrow> u8 list \<Rightarrow> u8 list \<Rightarrow> bool" where
  "front_order buf f rest \<longleftrightarrow> ring buf \<and> used buf < unat (sq_MAX buf) \<and> contents buf = f @ rest \<and> order_frame f
     \<and> CheckRec f (length f) = Some True \<and> unat (sq_read buf) + 1 < unat (sq_MAX buf)
     \<and> (unat (sq_read buf) + length f < unat (sq_MAX buf) \<or> even (unat (sq_MAX buf) - unat (sq_read buf)) \<and> even (length f))"

lemma front_facts:
  assumes "front_order buf f rest"
  shows "length f \<le> used buf" "28 \<le> length f" "unat (of_nat (length f) :: u16) = length f"
    "take (length f) (contents buf) = f"
    "unat (ucast (sq_MAX buf - sq_read buf) :: u16) = unat (sq_MAX buf) - unat (sq_read buf)"
proof -
  note a = assms [unfolded front_order_def]
  note b = ring_bounds [OF conjunct1 [OF a]]
  show l: "length f \<le> used buf" using arg_cong [of _ _ length, OF conjunct1 [OF conjunct2 [OF conjunct2 [OF a]]]] by simp
  show "28 \<le> length f" using a by (simp add: order_frame_def)
  show "unat (of_nat (length f) :: u16) = length f" using l used_less [of buf] a by (simp add: unat_of_nat take_bit_nat_eq_self)
  show "take (length f) (contents buf) = f" using a by simp
  have "sq_read buf \<le> sq_MAX buf" using b by (simp add: word_le_nat_alt)
  then show "unat (ucast (sq_MAX buf - sq_read buf) :: u16) = unat (sq_MAX buf) - unat (sq_read buf)"
    using b by (simp add: unsigned_ucast_eq unat_sub take_bit_nat_eq_self)
qed

text \<open>The pieces of the order.\<close>

lemma front_parts:
  fixes buf :: SqQueue
  defines "data \<equiv> drop (unat (sq_read buf)) (sq_base buf)" and "k \<equiv> unat (sq_MAX buf) - unat (sq_read buf)"
  assumes "front_order buf f rest"
  shows "length f \<le> k \<Longrightarrow> take (length f) data = f"
    "k \<le> length f \<Longrightarrow> take k data = take k f"
    "k \<le> length f \<Longrightarrow> take (length f - k) (sq_base buf) = drop k f"
    "length data = k" "length f - k \<le> length (sq_base buf)"
proof -
  have r: "ring buf" using assms(3) by (simp add: front_order_def)
  note f = front_facts [OF assms(3)] and b = ring_bounds [OF r]
  show "length data = k" using b by (simp add: data_def k_def)
  show "length f - k \<le> length (sq_base buf)" using f(1) used_le [OF r] b by simp
  show "length f \<le> k \<Longrightarrow> take (length f) data = f"
    using first_part [OF r f(1)] f(4) b by (simp add: data_def k_def)
  show "take k data = take k f" if "k \<le> length f"
  proof -
    have "take k data = take k (contents buf)"
      using first_part [OF r, of k] that f(1) b unfolding data_def k_def by simp
    also have "\<dots> = take k f" using f(4) that by (metis min.absorb1 take_take)
    finally show ?thesis .
  qed
  show "k \<le> length f \<Longrightarrow> take (length f - k) (sq_base buf) = drop k f"
    using second_part [OF r f(1)] f(4) r unfolding k_def by (simp add: ring_def)
qed

lemma wifi_check:
  assumes "front_order buf f rest"
  shows "WifiCheckRec buf (of_nat (length f)) = Some True"
proof -
  define data where "data = drop (unat (sq_read buf)) (sq_base buf)"
  define k where "k = unat (sq_MAX buf) - unat (sq_read buf)"
  note f = front_facts [OF assms] and p = front_parts [OF assms, folded data_def k_def]
  have c: "Check_Sum f (length f) = Some 0" using assms by (auto simp: front_order_def CheckRec_def)
  have cmp: "ucast (sq_MAX buf - sq_read buf) > (of_nat (length f) :: u16) \<longleftrightarrow> length f < k"
    using f(3,5) by (simp add: word_less_nat_alt k_def)
  show ?thesis
  proof (cases "length f < k")
    case True
    have "Check_Sum data (length f) = Check_Sum (take (length f) data) (length f)"
      using p(4) True by (simp add: Check_Sum_def check_sum_loop_take)
    then show ?thesis using True cmp p(1) f(3) c by (simp add: WifiCheckRec_def Let_def data_def [symmetric])
  next
    case False
    then have e: "even k" "even (length f)" using assms by (auto simp: front_order_def k_def)
    have len2: "unat (of_nat (length f) - ucast (sq_MAX buf - sq_read buf) :: u16) = length f - k"
      using False f(3,5) by (subst unat_sub) (simp_all add: word_le_nat_alt k_def)
    have "Check_Sum_With_Diff_Part data k (sq_base buf) (length f - k)
      = Check_Sum (take k data @ take (length f - k) (sq_base buf)) (k + (length f - k))"
      using e p(4,5) by (intro checksum_of_parts) simp_all
    also have "\<dots> = Some 0" using p(2,3) False c by simp
    finally show ?thesis
      using False cmp f(5) len2 by (simp add: WifiCheckRec_def Let_def data_def [symmetric] k_def [symmetric])
  qed
qed

lemma put_data_empty: "put_data [] buf cap = None"
  by (simp add: put_data_def Write_Buf_def Let_def)

lemma wifi_put:
  assumes "front_order (wc_buf s) f rest" "ring (wc_urgent s)" "length f \<le> room (wc_urgent s)"
  shows "if unat (sq_read (wc_buf s)) + length f = unat (sq_MAX (wc_buf s)) then putbuf (of_nat (length f)) s = None
    else \<exists>buf cap. putbuf (of_nat (length f)) s = Some (s\<lparr>wc_urgent := buf, wc_capacity := cap\<rparr>) \<and> ring buf
      \<and> contents buf = contents (wc_urgent s) @ f"
proof -
  let ?b = "wc_buf s"
  define data where "data = drop (unat (sq_read ?b)) (sq_base ?b)"
  define k where "k = unat (sq_MAX ?b) - unat (sq_read ?b)"
  note f = front_facts [OF assms(1)] and p = front_parts [OF assms(1), folded data_def k_def]
  have r: "unat (sq_read ?b) + k = unat (sq_MAX ?b)" "0 < k"
    using assms(1) by (simp_all add: front_order_def k_def)
  have cmp: "ucast (sq_MAX ?b - sq_read ?b) > (of_nat (length f) :: u16) \<longleftrightarrow> length f < k"
    using f(3,5) by (simp add: word_less_nat_alt k_def)
  have pos: "0 < length f" using f(2) by linarith
  consider "length f < k" | "length f = k" | "k < length f" by linarith
  then show ?thesis
  proof cases
    case 1
    obtain buf where b: "put_data f (wc_urgent s) (wc_capacity s) = Some (buf, wc_capacity s - of_nat (length f))"
      "ring buf" "contents buf = contents (wc_urgent s) @ f"
      using put_data_appends [OF assms(2) pos assms(3), of "wc_capacity s"] by blast
    have "putbuf (of_nat (length f)) s = Some (s\<lparr>wc_urgent := buf, wc_capacity := wc_capacity s - of_nat (length f)\<rparr>)"
      using 1 cmp f(3) p(1,4) b(1) by (simp add: putbuf_def Let_def data_def [symmetric])
    then show ?thesis using 1 r b by auto
  next
    case 2
    have "of_nat (length f) = (ucast (sq_MAX ?b - sq_read ?b) :: u16)"
      using f(3,5) 2 unfolding word_unat_eq_iff k_def by metis
    then have z: "of_nat k - ucast (sq_MAX ?b - sq_read ?b) = (0 :: u16)" using 2 by simp
    have "\<not> length data < unat (ucast (sq_MAX ?b - sq_read ?b) :: u16)" using f(5) p(4) by (simp add: k_def)
    then have "putbuf (of_nat (length f)) s = None"
      using 2 cmp by (simp add: putbuf_def Let_def data_def [symmetric] z put_data_empty split: option.split)
    then show ?thesis using 2 r by simp
  next
    case 3
    have len2: "unat (of_nat (length f) - ucast (sq_MAX ?b - sq_read ?b) :: u16) = length f - k"
      using 3 f(3,5) by (subst unat_sub) (simp_all add: word_le_nat_alt k_def)
    have l1: "0 < length (take k f)" "length (take k f) \<le> room (wc_urgent s)" using 3 r(2) assms(3) by auto
    obtain b1 where b1: "put_data (take k f) (wc_urgent s) (wc_capacity s) = Some (b1, wc_capacity s - of_nat (length (take k f)))"
      "ring b1" "contents b1 = contents (wc_urgent s) @ take k f" "sq_MAX b1 = sq_MAX (wc_urgent s)"
      using put_data_appends [OF assms(2) l1, of "wc_capacity s"] by blast
    have "room b1 + length (take k f) = room (wc_urgent s)"
      using arg_cong [OF b1(3), of length] MAX_room [OF b1(2)] MAX_room [OF assms(2)] b1(4) by simp
    then have l2: "0 < length (drop k f)" "length (drop k f) \<le> room b1" using 3 assms(3) by auto
    obtain b2 cap where b2: "put_data (drop k f) b1 (wc_capacity s - of_nat (length (take k f))) = Some (b2, cap)"
      "ring b2" "contents b2 = contents b1 @ drop k f"
      using put_data_appends [OF b1(2) l2, of "wc_capacity s - of_nat (length (take k f))"] by blast
    have "putbuf (of_nat (length f)) s = Some (s\<lparr>wc_urgent := b2, wc_capacity := cap\<rparr>)"
      using 3 cmp f(5) len2 p(2-5) b1(1) b2(1) by (simp add: putbuf_def Let_def data_def [symmetric] k_def [symmetric])
    then show ?thesis using 3 r b1(3) b2 by auto
  qed
qed

lemma wifi_read:
  assumes "ring (wc_buf s)" "used (wc_buf s) < unat (sq_MAX (wc_buf s))" "unat n \<le> used (wc_buf s)" "0 < used (wc_buf s)"
  shows "WifiReadAssignBytes env dst n t s = Some (BUF_OK, take (unat n) (contents (wc_buf s)) @ drop (unat n) dst, s)"
proof -
  have "sq_buf_empty (wc_buf s) = 0" using assms(4) by (auto simp: used_def split: if_splits)
  moreover have "\<not> (ucast (WifiBufLen (wc_buf s)) :: u16) < n"
    using WifiBufLen_used(2) [OF assms(1,2)] assms(3) by (simp add: word_less_nat_alt)
  ultimately show ?thesis using peeks [OF assms(3)] by (subst WifiReadAssignBytes.simps) simp
qed

lemma no_head:
  "\<forall>p < len - 1. \<not> (data ! p = x \<and> data ! (p + 1) = y) \<Longrightarrow> len \<le> length data \<Longrightarrow> find_substr_head data [x, y] len 2 = None"
proof -
  have "find_substr_head_loop data [x, y] pos n 2 = None"
    if "\<forall>p < len - 1. \<not> (data ! p = x \<and> data ! (p + 1) = y)" "pos + n = len" "len \<le> length data" for pos n
    using that
  proof (induction n arbitrary: pos)
    case 0
    then show ?case by (simp add: find_substr_head_loop.simps)
  next
    case (Suc n)
    show ?case
    proof (cases n)
      case 0
      then show ?thesis by (simp add: find_substr_head_loop.simps)
    next
      case (Suc m)
      then have "\<not> match_from (drop pos data) [x, y] 0 (m + 2) 2" using Suc.prems by (simp add: match_two)
      then show ?thesis using Suc Suc.IH [of "pos + 1"] Suc.prems by (subst find_substr_head_loop.simps) simp
    qed
  qed
  then show "\<forall>p < len - 1. \<not> (data ! p = x \<and> data ! (p + 1) = y) \<Longrightarrow> len \<le> length data \<Longrightarrow> find_substr_head data [x, y] len 2 = None"
    by (simp add: find_substr_head_def)
qed

definition order_address :: "u8 list \<Rightarrow> u32" where
  "order_address f = be32 (f ! 8) (f ! 9) (f ! 10) (f ! 11)"

definition wifi_taken :: "u8 list \<Rightarrow> u8 list \<Rightarrow> wifi_conf \<Rightarrow> wifi_conf \<Rightarrow> bool" where
  "wifi_taken f rest s s' \<longleftrightarrow> ring (wc_buf s') \<and> contents (wc_buf s') = rest \<and> ring (wc_urgent s')
     \<and> contents (wc_urgent s') = contents (wc_urgent s) @ f \<and> wc_Print_Queue_Sem s' = OSSemPost (wc_Print_Queue_Sem s)
     \<and> hp_capcity (wc_heap s') = hp_capcity (wc_heap s) + of_nat (length f)
     \<and> wc_Capacity_Change_Sem s' = OSSemPost (wc_Capacity_Change_Sem s)
     \<and> (\<exists>frame. Pack_Req_Or_Status_Message (replicate SEND_DATA_SIZE 0) ACK_STATUS 0 Get_MCU_ID (order_address f) (order_number f) = Some frame
          \<and> wc_sent s' = wc_sent s @ [frame])"

lemma wifi_order_rec:
  assumes "front_order (wc_buf s) f rest" "ring (wc_urgent s)" "length f \<le> room (wc_urgent s)" "we_buf_err env \<noteq> BUF_ARG_ERR"
  shows "if unat (sq_read (wc_buf s)) + length f = unat (sq_MAX (wc_buf s)) then WifiRecOrder env s = None
    else \<exists>s'. WifiRecOrder env s = Some s' \<and> wifi_taken f rest s s'"
proof -
  let ?b = "wc_buf s"
  note f = front_facts [OF assms(1)] and a = assms(1) [unfolded front_order_def]
  have u: "ring ?b" "used ?b < unat (sq_MAX ?b)" "contents ?b = f @ rest" "0 < used ?b" using a f(1,2) by auto
  define h where "h = take 28 f @ drop 28 (we_stack env)"
  have "unat (28 :: u16) \<le> used ?b" using f(1,2) by simp
  then have read: "WifiReadAssignBytes env (we_stack env) 28 0 s = Some (BUF_OK, h, s)"
    using wifi_read [OF u(1,2) _ u(4), of 28 env "we_stack env" 0] u(3) f(2) by (simp add: h_def)
  have hf: "h ! i = f ! i" if "i < 28" for i using that f(2) by (simp add: h_def nth_append)
  have len: "ANALYZE_DATA_2B h 2 + 28 = (of_nat (length f) :: u16)"
  proof -
    have "length f = 28 + unat (be16 (f ! 2) (f ! 3))" using a by (simp add: order_frame_def)
    then have "(of_nat (length f) :: u16) = of_nat (28 + unat (be16 (f ! 2) (f ! 3)))" by metis
    moreover have "ANALYZE_DATA_2B h 2 = be16 (f ! 2) (f ! 3)" using hf [of 2] hf [of 3] by (simp add: ANALYZE_2B_be16)
    ultimately show ?thesis by simp
  qed
  have wait: "wifi_wait_order env (of_nat (length f)) 0 s = (0, s)"
    using WifiBufLen_used(1) [OF u(1,2)] f(1,3) by (subst wifi_wait_order.simps) (simp add: word_less_nat_alt)
  have num: "ANALYZE_DATA_4B h 12 = order_number f" "ANALYZE_DATA_4B h 8 = order_address f"
    by (simp_all add: ANALYZE_4B_be32 order_number_def order_address_def hf)
  define s1 where "s1 = s\<lparr>wc_current_order_number := order_number f\<rparr>"
  have s1: "wc_buf s1 = ?b" "wc_urgent s1 = wc_urgent s" by (simp_all add: s1_def)
  note put = wifi_put [of s1 f rest, unfolded s1, OF assms(1-3)]
  have rec: "WifiRecOrder env s = (case putbuf (of_nat (length f)) s1 of None \<Rightarrow> None
    | Some s \<Rightarrow> (case map_option (\<lambda>s. s\<lparr>wc_last_order_number := order_number f, wc_Print_Queue_Sem := OSSemPost (wc_Print_Queue_Sem s)\<rparr>)
                (AckToWifi (order_number f) (order_address f) s) of None \<Rightarrow> None
      | Some s \<Rightarrow> Some (s\<lparr>wc_buf := snd (WifiDeleteBuf env (of_nat (length f)) (wc_buf s)), wc_heap := ChangeCpa (wc_heap s) (of_nat (length f)),
                 wc_Capacity_Change_Sem := OSSemPost (wc_Capacity_Change_Sem s)\<rparr>)))"
    using read len wait num wifi_check [OF assms(1)]
    by (simp add: WifiRecOrder_def Let_def s1_def split: option.split)
  show ?thesis
  proof (cases "unat (sq_read ?b) + length f = unat (sq_MAX ?b)")
    case True
    then show ?thesis using put rec by simp
  next
    case False
    then obtain buf cap where p: "putbuf (of_nat (length f)) s1 = Some (s1\<lparr>wc_urgent := buf, wc_capacity := cap\<rparr>)" "ring buf"
      "contents buf = contents (wc_urgent s) @ f" using put by auto
    obtain frame where fr: "Pack_Req_Or_Status_Message (replicate 20 0) ACK_STATUS 0 Get_MCU_ID (order_address f) (order_number f) = Some frame"
      using pack_defined [of "replicate 20 0" ACK_STATUS 0 Get_MCU_ID "order_address f" "order_number f"] by auto
    then have ack: "AckToWifi (order_number f) (order_address f) x = Some (x\<lparr>wc_sent := wc_sent x @ [frame]\<rparr>)" for x
      using pack_length [OF fr] by (simp add: AckToWifi_def WifiSendData_def)
    have nz: "of_nat (length f) \<noteq> (0 :: u16)" using f(2,3) by (metis le_zero_eq unsigned_0 zero_neq_numeral)
    have del: "snd (WifiDeleteBuf env (of_nat (length f)) ?b) = skip_bytes ?b (length f)"
      using WifiDeleteBuf_skip [OF u(1,2) _ u(4) assms(4), of "of_nat (length f)"] f(1,3) nz by simp
    have "0 < length f" using f(2) by linarith
    then have sk: "ring (skip_bytes ?b (length f))" "contents (skip_bytes ?b (length f)) = rest"
      using skip_ring [OF u(1)] skip_contents [OF u(1)] f(1) u(3) by simp_all
    have uc: "ucast (of_nat (length f) :: u16) = (of_nat (length f) :: u32)"
    proof -
      have "length f < 65536" using f(1) used_less [OF u(1)] by linarith
      then have "unat (of_nat (length f) :: u32) = length f" by (simp add: unat_of_nat take_bit_nat_eq_self)
      moreover have "unat (ucast (of_nat (length f) :: u16) :: u32) = length f"
        using f(3) \<open>length f < 65536\<close> by (simp add: unsigned_ucast_eq take_bit_nat_eq_self)
      ultimately show ?thesis by (simp add: word_unat_eq_iff)
    qed
    show ?thesis using False rec p ack fr sk uc
      by (simp add: s1_def del wifi_taken_def ChangeCpa_def)
  qed
qed

lemma wifi_order_turn:
  assumes "front_order (wc_buf s) f rest" "ring (wc_urgent s)" "length f \<le> room (wc_urgent s)" "we_buf_err env \<noteq> BUF_ARG_ERR"
    "\<forall>p < 19. \<not> (f ! p = 0xCF \<and> f ! (p + 1) = 0xFC)" "28 \<le> length (we_after env)"
  shows "if unat (sq_read (wc_buf s)) + length f = unat (sq_MAX (wc_buf s)) then wifi_turn env s = None
    else \<exists>s'. wifi_turn env s = Some s' \<and> wifi_taken f rest s s'"
proof -
  let ?b = "wc_buf s"
  note f = front_facts [OF assms(1)] and a = assms(1) [unfolded front_order_def]
  have u: "ring ?b" "used ?b < unat (sq_MAX ?b)" "contents ?b = f @ rest" "0 < used ?b" using a f(1,2) by auto
  note len = WifiBufLen_used(2) [OF u(1,2)]
  have head: "wifi_wait_head env s = Some s"
    using len f(1,2) by (subst wifi_wait_head.simps) (simp add: word_less_nat_alt)
  have "unat (20 :: u16) \<le> used ?b" using f(1,2) by simp
  then have "WifiReadAssignBytes env (we_stack env) 20 0 s = Some (BUF_OK, take 20 f @ drop 20 (we_stack env), s)"
    using wifi_read [OF u(1,2) _ u(4), of 20 env "we_stack env" 0] u(3) f(2) by simp
  moreover have "find_substr_head (take 20 f @ drop 20 (we_stack env)) [0xCF, 0xFC] 20 2 = None"
    by (rule no_head) (use assms(5) f(2) in \<open>auto simp: nth_append\<close>)
  ultimately have req: "wifi_request env s = Some (False, s)" by (simp add: wifi_request_def)
  define data where "data = drop (unat (sq_read ?b)) (sq_base ?b) @ we_after env"
  note b = ring_bounds [OF u(1)]
  have d: "data ! 0 = 0x3e" "data ! 1 = 0x11"
  proof -
    have r: "unat (sq_read ?b) + 1 < length (sq_base ?b)" "f ! 0 = 0x3e" "f ! 1 = 0x11" using a b by (simp_all add: order_frame_def)
    have "f \<noteq> []" "1 < length f" "0 < used ?b" "1 < used ?b" using f(1,2) by auto
    then have "sq_base ?b ! unat (sq_read ?b) = f ! 0" "sq_base ?b ! (unat (sq_read ?b) + 1) = f ! 1"
      using base_at [OF u(1), of 0] base_at [OF u(1), of 1] b r(1) u(3)
      by (simp_all add: ring_pos_def nth_append del: One_nat_def)
    moreover have "data ! 0 = sq_base ?b ! unat (sq_read ?b)" "data ! 1 = sq_base ?b ! (unat (sq_read ?b) + 1)"
      using r(1) less_diff_conv [of 1 "length (sq_base ?b)" "unat (sq_read ?b)"] by (simp_all add: data_def nth_append)
    ultimately show "data ! 0 = 0x3e" "data ! 1 = 0x11" using r by simp_all
  qed
  have find: "find_substr_head data [0x3e, 0x11] 28 2 = Some (0, 28)" by (rule head_at_0) (use d in simp_all)
  have sub: "(if ORDER_HEAD_LENGTH < used ?b then ORDER_HEAD_LENGTH else used ?b) = 28" using f(1,2) by simp
  have del: "snd (WifiDeleteBuf env 0 ?b) = ?b"
    using WifiDeleteBuf_skip [OF u(1,2) _ u(4) assms(4), of 0] by simp
  have "\<not> length data < 28" using assms(6) by (simp add: data_def)
  then have "wifi_turn env s = WifiRecOrder env s"
    unfolding wifi_turn_def head option.case req prod.case bool.case Let_def len sub data_def [symmetric]
    using find del by simp
  then show ?thesis using wifi_order_rec [OF assms(1-4)] by simp
qed

text \<open>C32. A whole order at the front of the wifi ring buffer, with its head not on the last cell, no mark
  \<^verbatim>\<open>CF FC\<close> among its first twenty bytes and, when it reaches the end of the array, two pieces of even
  length, is appended to the urgent buffer, acknowledged to its sender, removed from the ring, told to the print queue
  and its length given back to the capacity of the requests, provided that there is room for it and the uninitialised
  error code is not by chance \<^verbatim>\<open>BUF_ARG_ERR\<close>; but one that ends exactly at the end of the array makes the
  task wait for ever, since the second piece of no bytes can never be written.\<close>

theorem wifi_order_received:
  assumes "front_order (wc_buf s) f rest" "ring (wc_urgent s)" "length f \<le> room (wc_urgent s)" "we_buf_err env \<noteq> BUF_ARG_ERR"
    "\<forall>p < 19. \<not> (f ! p = 0xCF \<and> f ! (p + 1) = 0xFC)" "28 \<le> length (we_after env)"
  shows "if unat (sq_read (wc_buf s)) + length f = unat (sq_MAX (wc_buf s)) then wifi_turn env s = None
    else \<exists>s'. wifi_turn env s = Some s' \<and> wifi_taken f rest s s'"
  using assms by (rule wifi_order_turn)

definition wifi_start :: "SqQueue \<Rightarrow> wifi_conf" where
  "wifi_start buf = \<lparr>wc_buf = buf, wc_last_order_number = 0, wc_current_order_number = 0, wc_heap = InitHeap zero_heap,
     wc_Rec_Wifi_Req_Sem = 0, wc_Capacity_Change_Sem = 0, wc_Print_Queue_Sem = 0, wc_Wifi_Rec_Data_Sem = 1,
     wc_urgent = init_SqQueue MAXUSIZE, wc_capacity = 20480, wc_sent = [], wc_time = 0\<rparr>"

definition still_env :: wifi_env where
  "still_env = \<lparr>we_bytes = (\<lambda>n. []), we_buf_err = 0, we_ret = True, we_stack = replicate 28 0, we_after = replicate 28 0\<rparr>"

text \<open>The order at the start of the array, and one that ends with it.\<close>

definition ring_start :: SqQueue where "ring_start = foldl put_byte (init_SqQueue 64) serial_order"

definition ring_end :: SqQueue where
  "ring_end = skip_bytes (foldl put_byte (init_SqQueue 64) (replicate 34 0 @ serial_order)) 34"

lemma serial_marks: "\<forall>p < 19. \<not> (serial_order ! p = 0xCF \<and> serial_order ! (p + 1) = 0xFC)"
proof -
  have "list_all (\<lambda>p. \<not> (serial_order ! p = 0xCF \<and> serial_order ! (p + 1) = 0xFC)) [0 ..< 19]" by code_simp
  then show ?thesis by (simp add: list_all_iff)
qed

lemma puts_fields: "sq_read (foldl put_byte buf cs) = sq_read buf" "sq_MAX (foldl put_byte buf cs) = sq_MAX buf"
  by (induction cs arbitrary: buf) simp_all

lemma ring_start_front: "front_order ring_start serial_order [] \<and> sq_read ring_start = 0 \<and> sq_MAX ring_start = 64"
proof -
  have "ring ring_start \<and> contents ring_start = contents (init_SqQueue 64) @ serial_order"
    unfolding ring_start_def using rb.puts [of "init_SqQueue 64" serial_order] by (simp add: init_ring init_room serial_bytes)
  then have r: "ring ring_start" "contents ring_start = serial_order" by (simp_all add: init_ring)
  moreover have "used ring_start = 30" using arg_cong [OF r(2), of length] by (simp add: serial_bytes)
  moreover have "sq_read ring_start = 0" "sq_MAX ring_start = 64" by (simp_all add: ring_start_def puts_fields init_SqQueue_def)
  ultimately show ?thesis using serial_frame serial_check by (simp add: front_order_def serial_bytes)
qed

lemma ring_end_front: "front_order ring_end serial_order [] \<and> sq_read ring_end = 34 \<and> sq_MAX ring_end = 64"
proof -
  let ?p = "foldl put_byte (init_SqQueue 64) (replicate 34 0 @ serial_order)"
  have "ring ?p \<and> contents ?p = contents (init_SqQueue 64) @ replicate 34 0 @ serial_order"
    using rb.puts [of "init_SqQueue 64" "replicate 34 0 @ serial_order"] by (simp add: init_ring init_room serial_bytes)
  then have r: "ring ?p" "contents ?p = replicate 34 0 @ serial_order" by (simp_all add: init_ring)
  have "34 \<le> used ?p" using arg_cong [OF r(2), of length] by (simp add: serial_bytes)
  then have e: "ring ring_end" "contents ring_end = serial_order"
    unfolding ring_end_def using skip_ring [OF r(1)] skip_contents [OF r(1)] r(2) by simp_all
  moreover have "used ring_end = 30" using arg_cong [OF e(2), of length] by (simp add: serial_bytes)
  moreover have "sq_read ring_end = 34" "sq_MAX ring_end = 64" by (simp_all add: ring_end_def puts_fields init_SqQueue_def)
  ultimately show ?thesis using serial_frame serial_check by (simp add: front_order_def serial_bytes)
qed

theorem wifi_order_received_witness:
  "(\<exists>s'. wifi_turn still_env (wifi_start ring_start) = Some s' \<and> wifi_taken serial_order [] (wifi_start ring_start) s')
   \<and> wifi_turn still_env (wifi_start ring_end) = None"
proof -
  have u: "ring (wc_urgent (wifi_start b))" "length serial_order \<le> room (wc_urgent (wifi_start b))" "wc_buf (wifi_start b) = b" for b
    by (simp_all add: wifi_start_def init_ring init_room serial_bytes)
  have e: "we_buf_err still_env \<noteq> BUF_ARG_ERR" "28 \<le> length (we_after still_env)" by (simp_all add: still_env_def)
  have f: "front_order (wc_buf (wifi_start ring_start)) serial_order []" "front_order (wc_buf (wifi_start ring_end)) serial_order []"
    using ring_start_front ring_end_front u(3) by simp_all
  show ?thesis
    using wifi_order_received [OF f(1) u(1,2) e(1) serial_marks e(2)] wifi_order_received [OF f(2) u(1,2) e(1) serial_marks e(2)]
      ring_start_front ring_end_front by (simp add: u(3) serial_bytes)
qed

end
