(* ===== verification/Interrupts.thy ===== *)
theory Interrupts
  imports Os_Behaviour Print_Cells Local_Conf Wifi_Conf
begin

text \<open>
  The handlers of the serial lines in \<^verbatim>\<open>User/src/stm32f2xx_it.c\<close>: what a received byte does, and how
  the printers' boards stop and release the transmission with \<^verbatim>\<open>Xoff\<close> and \<^verbatim>\<open>Xon\<close>.
\<close>

section \<open>The handlers\<close>

abbreviation Xoff :: u8 where "Xoff \<equiv> 0x13"
abbreviation Xon :: u8 where "Xon \<equiv> 0x11"

text \<open>The kernel, the static \<^verbatim>\<open>sus_print_task\<close> and the states of the components behind the lines.\<close>

record board =
  os :: kernel
  sus_print_task :: "u8 list"
  printers :: print_sys
  serial :: local_state
  wifi :: wifi_conf

definition set_sus :: "nat \<Rightarrow> u8 \<Rightarrow> board \<Rightarrow> board" where
  "set_sus i p b = b\<lparr>sus_print_task := (sus_print_task b)[i := p]\<rparr>"

text \<open>
  The byte is \<open>None\<close> when the flag of the receiver is not set.  The handlers of the two printers differ
  in their index and their hook only; they do not tell the kernel that an interrupt is served.
\<close>

definition printer_irq :: "nat \<Rightarrow> (u8 \<Rightarrow> print_sys \<Rightarrow> print_sys option) \<Rightarrow> u8 option \<Rightarrow> board \<Rightarrow> board option" where
  "printer_irq i hook rx b =
     (case rx of
        None \<Rightarrow> Some b
      | Some ch \<Rightarrow>
          (if ch \<noteq> Xoff \<and> ch \<noteq> Xon then map_option (\<lambda>p. b\<lparr>printers := p\<rparr>) (hook ch (printers b))
           else if ch = Xoff
           then let b = set_sus i (OSPrioHighRdy (os b)) b
                in Some (b\<lparr>os := snd (OSTaskSuspend (OSPrioHighRdy (os b)) (os b))\<rparr>)
           else if sus_print_task b ! i \<noteq> 0xFF
           then let b = b\<lparr>os := snd (OSTaskResume (sus_print_task b ! i) (os b))\<rparr> in Some (set_sus i 0xFF b)
           else Some b))"

definition USART1_IRQHandler :: "write_dev \<Rightarrow> u8 option \<Rightarrow> board \<Rightarrow> board option" where
  "USART1_IRQHandler dev = printer_irq 0 (USART1_Hook dev)"

definition UART4_IRQHandler :: "write_dev \<Rightarrow> u8 option \<Rightarrow> board \<Rightarrow> board option" where
  "UART4_IRQHandler dev = printer_irq 1 (UART4_Hook dev)"

definition USART3_IRQHandler :: "u8 option \<Rightarrow> board \<Rightarrow> board" where
  "USART3_IRQHandler rx b = (case rx of None \<Rightarrow> b | Some ch \<Rightarrow> b\<lparr>serial := USART3_Hook (serial b) ch\<rparr>)"

definition USART6_IRQHandler :: "u8 option \<Rightarrow> board \<Rightarrow> board" where
  "USART6_IRQHandler rx b = (case rx of None \<Rightarrow> b | Some ch \<Rightarrow> b\<lparr>wifi := UART6_Hook (wifi b) ch\<rparr>)"

lemma set_sus_fields [simp]:
  "os (set_sus i p b) = os b" "sus_print_task (set_sus i p b) = (sus_print_task b)[i := p]"
  "printers (set_sus i p b) = printers b"
  by (simp_all add: set_sus_def)

section \<open>Stopping and releasing a task\<close>

lemma sched_view:
  "OSTCBStat (tcb (OS_Sched k) i) = OSTCBStat (tcb k i)" "OSTCBDly (tcb (OS_Sched k) i) = OSTCBDly (tcb k i)"
  "OSTCBPrio (tcb (OS_Sched k) i) = OSTCBPrio (tcb k i)" "OSTCBPrioTbl (OS_Sched k) = OSTCBPrioTbl k"
  "OSTCBList (OS_Sched k) = OSTCBList k" "OSRunning (OS_Sched k) = OSRunning k" "OSIntNesting (OS_Sched k) = OSIntNesting k"
  "OSLockNesting (OS_Sched k) = OSLockNesting k"
  by (simp_all add: OS_Sched_def switch_tcb switch_fields)
    (simp add: switch_to_highest_def OS_SchedNew_def OS_CPU_PendSVHandler_def set_tcb_def Let_def)

lemma suspend_other:
  assumes "OSTCBPrioTbl k p \<noteq> Tcb i" "p \<noteq> OS_PRIO_SELF"
  shows "OSTCBStat (tcb (snd (OSTaskSuspend p k)) i) = OSTCBStat (tcb k i)"
  using assms by (cases "OSTCBPrioTbl k p") (auto simp: OSTaskSuspend_def Let_def sched_view set_tcb_def make_unready_def)

lemma resume_other:
  assumes "OSTCBPrioTbl k p \<noteq> Tcb i"
  shows "OSTCBStat (tcb (snd (OSTaskResume p k)) i) = OSTCBStat (tcb k i)"
  using assms by (cases "OSTCBPrioTbl k p") (auto simp: OSTaskResume_def Let_def sched_view set_tcb_def make_ready_def)

lemma dly_kept:
  "OSTCBDly (tcb (snd (OSTaskSuspend p k)) i) = OSTCBDly (tcb k i)" "OSTCBDly (tcb (snd (OSTaskResume p k)) i) = OSTCBDly (tcb k i)"
  "OSTCBPrio (tcb (snd (OSTaskSuspend p k)) i) = OSTCBPrio (tcb k i)" "OSTCBPrio (tcb (snd (OSTaskResume p k)) i) = OSTCBPrio (tcb k i)"
  by (auto simp: OSTaskSuspend_def OSTaskResume_def Let_def sched_view set_tcb_def make_ready_def make_unready_def)

lemma resume_suspended:
  assumes "OSTCBPrioTbl k p = Tcb i" "p < OS_LOWEST_PRIO" "OSTCBStat (tcb k i) = OS_STAT_SUSPEND"
  shows "OSTCBStat (tcb (snd (OSTaskResume p k)) i) = OS_STAT_RDY"
  using assms by (simp add: OSTaskResume_def Let_def sched_view set_tcb_def make_ready_def)

lemma suspend_view:
  "OSTCBPrioTbl (snd (OSTaskSuspend p k)) = OSTCBPrioTbl k" "OSRunning (snd (OSTaskSuspend p k)) = OSRunning k"
  "OSIntNesting (snd (OSTaskSuspend p k)) = OSIntNesting k" "OSLockNesting (snd (OSTaskSuspend p k)) = OSLockNesting k"
  "OSTCBList (snd (OSTaskSuspend p k)) = OSTCBList k"
  "OSTCBList (snd (OSTaskResume p k)) = OSTCBList k" "OSRunning (snd (OSTaskResume p k)) = OSRunning k"
  "OSIntNesting (snd (OSTaskResume p k)) = OSIntNesting k" "OSLockNesting (snd (OSTaskResume p k)) = OSLockNesting k"
  by (simp_all add: OSTaskSuspend_def OSTaskResume_def Let_def sched_view set_tcb_def make_ready_def make_unready_def)

text \<open>The task that an \<^verbatim>\<open>Xoff\<close> stops is the one that runs.\<close>

definition in_task :: "kernel \<Rightarrow> bool" where
  "in_task k \<longleftrightarrow> reachable k \<and> OSRunning k \<and> OSIntNesting k = 0 \<and> OSLockNesting k = 0"

lemma in_task_cur:
  assumes "in_task k"
  shows "OSTCBCur k = Tcb (cur k)" "live k (cur k)" "OSPrioHighRdy k = OSTCBPrio (tcb k (cur k))"
    "OSTCBPrioTbl k (OSPrioHighRdy k) = Tcb (cur k)" "OSTCBStat (tcb k (cur k)) = 0" "OSTCBDly (tcb k (cur k)) = 0"
    "OSPrioHighRdy k \<le> 25" "sys_ok k"
proof -
  have s: "sys_ok k" using reachable_ok assms by (simp add: in_task_def)
  have r: "OSRunning k" "OSIntNesting k = 0" "OSLockNesting k = 0" using assms by (simp_all add: in_task_def)
  note c = cur_live [OF sys_okD(2) [OF s] r(1)]
  show "OSTCBCur k = Tcb (cur k)" "live k (cur k)" "sys_ok k" using c s by blast+
  show p: "OSPrioHighRdy k = OSTCBPrio (tcb k (cur k))" using sys_okD(2) [OF s] r(1) c by (simp add: cur_ok_def)
  have l: "live k (cur k)" using c by blast
  show "OSTCBPrioTbl k (OSPrioHighRdy k) = Tcb (cur k)" using task_okD(2) [OF kernel_okD(4) [OF sys_okD(1) [OF s] l]] p by simp
  show "OSTCBStat (tcb k (cur k)) = 0" "OSTCBDly (tcb k (cur k)) = 0" using runnable_cur [OF s r] by (simp_all add: runnable_def)
  show "OSPrioHighRdy k \<le> 25" using kernel_okD(8) [OF sys_okD(1) [OF s] l] p by (simp add: tcb_ok_def word_le_nat_alt)
qed

lemma suspend_in_task:
  assumes "in_task k"
  shows "in_task (snd (OSTaskSuspend (OSPrioHighRdy k) k))"
    "OSPrioHighRdy k \<noteq> OS_TASK_IDLE_PRIO \<Longrightarrow> OSTCBStat (tcb (snd (OSTaskSuspend (OSPrioHighRdy k) k)) (cur k)) = OS_STAT_SUSPEND"
    "OSPrioHighRdy k \<noteq> OS_TASK_IDLE_PRIO \<Longrightarrow> OSTCBDly (tcb (snd (OSTaskSuspend (OSPrioHighRdy k) k)) (cur k)) = 0"
    "OSPrioHighRdy k = OS_TASK_IDLE_PRIO \<Longrightarrow> snd (OSTaskSuspend (OSPrioHighRdy k) k) = k"
proof -
  let ?p = "OSPrioHighRdy k"
  note c = in_task_cur [OF assms]
  have ns: "?p \<noteq> OS_PRIO_SELF" using c(7) by auto
  have "reachable (snd (OSTaskSuspend ?p k))"
    using assms ns by (intro reachable.step [OF _ kernel_step.suspend]) (simp_all add: in_task_def)
  then show "in_task (snd (OSTaskSuspend ?p k))" using assms by (simp add: in_task_def suspend_view)
  show "snd (OSTaskSuspend ?p k) = k" if "?p = OS_TASK_IDLE_PRIO" using that by (simp add: OSTaskSuspend_def)
  assume n: "?p \<noteq> OS_TASK_IDLE_PRIO"
  then have "?p < 25" using c(7) by simp
  then show "OSTCBStat (tcb (snd (OSTaskSuspend ?p k)) (cur k)) = OS_STAT_SUSPEND" "OSTCBDly (tcb (snd (OSTaskSuspend ?p k)) (cur k)) = 0"
    using n ns c(4,5,6) by (simp_all add: OSTaskSuspend_def Let_def sched_view set_tcb_def make_unready_def linorder_not_le)
qed


lemma printer_irq_flow:
  "printer_irq i hook (Some Xoff) b = Some ((set_sus i (OSPrioHighRdy (os b)) b)\<lparr>os := snd (OSTaskSuspend (OSPrioHighRdy (os b)) (os b))\<rparr>)"
  "printer_irq i hook (Some Xon) b = (if sus_print_task b ! i = 0xFF then Some b
     else Some (set_sus i 0xFF (b\<lparr>os := snd (OSTaskResume (sus_print_task b ! i) (os b))\<rparr>)))"
  by (simp_all add: printer_irq_def Let_def set_sus_def)

text \<open>An \<^verbatim>\<open>Xoff\<close> of a printer stops whichever task the byte interrupts, whether it feeds that printer
  or not: afterwards that task cannot run and another one does; only when the idle task was interrupted nothing is
  stopped.  The next \<^verbatim>\<open>Xon\<close>, before anything else happens, makes the stopped task run again.\<close>

lemma xoff_then_xon:
  assumes "in_task (os b)" "sus_print_task b = [x, y]"
  shows "\<exists>b1 b2. USART1_IRQHandler dev (Some Xoff) b = Some b1 \<and> USART1_IRQHandler dev (Some Xon) b1 = Some b2
    \<and> (if OSPrioHighRdy (os b) = OS_TASK_IDLE_PRIO then os b1 = os b
       else \<not> runnable (tcb (os b1) (cur (os b))) \<and> OSTCBCur (os b1) \<noteq> OSTCBCur (os b))
    \<and> OSTCBCur (os b2) = OSTCBCur (os b) \<and> sus_print_task b2 = [0xFF, y]"
proof -
  let ?k = "os b" and ?p = "OSPrioHighRdy (os b)"
  let ?k1 = "snd (OSTaskSuspend ?p ?k)" and ?i = "cur (os b)"
  let ?k2 = "snd (OSTaskResume ?p ?k1)"
  note c = in_task_cur [OF assms(1)]
  note s1 = suspend_in_task [OF assms(1)]
  note c1 = in_task_cur [OF s1(1)]
  have b1: "USART1_IRQHandler dev (Some Xoff) b = Some ((set_sus 0 ?p b)\<lparr>os := ?k1\<rparr>)"
    by (simp add: USART1_IRQHandler_def printer_irq_flow)
  have ns: "?p \<noteq> 0xFF" using c(7) by auto
  have b2: "USART1_IRQHandler dev (Some Xon) ((set_sus 0 ?p b)\<lparr>os := ?k1\<rparr>) = Some (set_sus 0 0xFF ((set_sus 0 ?p b)\<lparr>os := ?k2\<rparr>))"
    using ns assms(2) by (simp add: USART1_IRQHandler_def printer_irq_flow set_sus_def)
  have sus: "sus_print_task (set_sus 0 0xFF ((set_sus 0 ?p b)\<lparr>os := ?k2\<rparr>)) = [0xFF, y]" using assms(2) by (simp add: set_sus_def)
  have m: "(if ?p = OS_TASK_IDLE_PRIO then ?k1 = ?k else \<not> runnable (tcb ?k1 ?i) \<and> OSTCBCur ?k1 \<noteq> OSTCBCur ?k)
      \<and> OSTCBCur ?k2 = OSTCBCur ?k"
  proof (cases "?p = OS_TASK_IDLE_PRIO")
    case True
    then show ?thesis using s1(4) [OF True] by (simp add: OSTaskResume_def)
  next
    case False
    have nr: "\<not> runnable (tcb ?k1 ?i)" using s1(2) [OF False] by (simp add: runnable_def)
    have "cur ?k1 \<noteq> ?i" using nr c1(5,6) by (auto simp: runnable_def)
    then have ne: "OSTCBCur ?k1 \<noteq> OSTCBCur ?k" using c(1) c1(1) by metis
    have "reachable ?k2" using s1(1) by (intro reachable.step [OF _ kernel_step.resume]) (simp_all add: in_task_def)
    then have t2: "in_task ?k2" using s1(1) by (simp add: in_task_def suspend_view)
    note c2 = in_task_cur [OF t2]
    have pt: "OSTCBPrioTbl ?k1 ?p = Tcb ?i" "?p < 25" using c(4,7) False by (simp_all add: suspend_view)
    have i2: "OSTCBStat (tcb ?k2 ?i) = 0" "OSTCBDly (tcb ?k2 ?i) = 0"
      using resume_suspended [OF pt s1(2) [OF False]] s1(3) [OF False] by (simp_all add: dly_kept)
    have oth: "runnable (tcb ?k2 j) = runnable (tcb ?k j)" for j
    proof (cases "j = ?i")
      case True
      then show ?thesis using i2 c(5,6) by (simp add: runnable_def)
    next
      case False
      then show ?thesis
        using suspend_other [of ?k ?p j] resume_other [of ?k1 ?p j] c(4) pt(1) ns by (simp add: runnable_def dly_kept)
    qed
    have m: "prio_of x (cur x) \<le> prio_of x j" if "in_task x" "live x j" "runnable (tcb x j)" for x j
    proof -
      have s: "sys_ok x" "OSRunning x" "OSIntNesting x = 0" "OSLockNesting x = 0" using that(1) in_task_cur(8) by (simp_all add: in_task_def)
      have "prio_of x j \<in> ready x" using task_okD(3) [OF kernel_okD(4) [OF sys_okD(1) [OF s(1)] that(2)]] that(3) by simp
      then show ?thesis by (rule sys_ok_min(4) [OF s])
    qed
    have l: "live ?k2 j = live ?k j" "prio_of ?k2 j = prio_of ?k j" for j by (simp_all add: suspend_view prio_of_def dly_kept)
    have "runnable (tcb ?k2 (cur ?k2))" "runnable (tcb ?k ?i)" using c(5,6) c2(5,6) by (simp_all add: runnable_def)
    then have "prio_of ?k2 (cur ?k2) = prio_of ?k2 ?i"
      using m [OF assms(1), of "cur ?k2"] m [OF t2, of ?i] oth l c(2) c2(2) by (intro order_antisym) auto
    then have "cur ?k2 = ?i" using same_prio [OF sys_okD(1) [OF c2(8)] c2(2)] l c(2) by blast
    then show ?thesis using False nr ne c(1) c2(1) by simp
  qed
  let ?b1 = "(set_sus 0 ?p b)\<lparr>os := ?k1\<rparr>" and ?b2 = "set_sus 0 0xFF ((set_sus 0 ?p b)\<lparr>os := ?k2\<rparr>)"
  have os12: "os ?b1 = ?k1" "os ?b2 = ?k2" by simp_all
  show ?thesis
    by (rule exI [of _ ?b1], rule exI [of _ ?b2], unfold os12) (intro conjI b1 b2 sus m [THEN conjunct1] m [THEN conjunct2])
qed

text \<open>C40. A printer that sends \<^verbatim>\<open>Xoff\<close> twice before its \<^verbatim>\<open>Xon\<close> loses a task: the second byte
  overwrites the note of the first, so the \<^verbatim>\<open>Xon\<close> leaves the first task suspended and the note empty, and a
  further \<^verbatim>\<open>Xon\<close> of this printer does nothing.\<close>

theorem second_xoff_loses:
  assumes "in_task (os b)" "OSPrioHighRdy (os b) \<noteq> OS_TASK_IDLE_PRIO" "sus_print_task b = [x, y]"
  shows "\<exists>b1 b2 b3. USART1_IRQHandler dev (Some Xoff) b = Some b1 \<and> USART1_IRQHandler dev (Some Xoff) b1 = Some b2
    \<and> USART1_IRQHandler dev (Some Xon) b2 = Some b3 \<and> OSTCBStat (tcb (os b3) (cur (os b))) = OS_STAT_SUSPEND
    \<and> sus_print_task b3 = [0xFF, y] \<and> USART1_IRQHandler dev (Some Xon) b3 = Some b3"
proof -
  let ?k = "os b" and ?i = "cur (os b)"
  let ?p = "OSPrioHighRdy ?k"
  let ?k1 = "snd (OSTaskSuspend ?p ?k)"
  let ?q = "OSPrioHighRdy ?k1"
  let ?k2 = "snd (OSTaskSuspend ?q ?k1)"
  let ?k3 = "snd (OSTaskResume ?q ?k2)"
  note s1 = suspend_in_task [OF assms(1)]
  note c1 = in_task_cur [OF s1(1)]
  have st: "OSTCBStat (tcb ?k1 ?i) = OS_STAT_SUSPEND" by (rule s1(2) [OF assms(2)])
  have ne: "cur ?k1 \<noteq> ?i" using st c1(5) by auto
  have ns: "?q \<noteq> 0xFF" using c1(7) by auto
  have st2: "OSTCBStat (tcb ?k2 ?i) = OS_STAT_SUSPEND" using suspend_other [of ?k1 ?q ?i] c1(4) ne ns st by simp
  have st3: "OSTCBStat (tcb ?k3 ?i) = OS_STAT_SUSPEND" using resume_other [of ?k2 ?q ?i] c1(4) ne st2 by (simp add: suspend_view)
  let ?b1 = "(set_sus 0 ?p b)\<lparr>os := ?k1\<rparr>"
  let ?b2 = "(set_sus 0 ?q ?b1)\<lparr>os := ?k2\<rparr>"
  let ?b3 = "set_sus 0 0xFF (?b2\<lparr>os := ?k3\<rparr>)"
  have "USART1_IRQHandler dev (Some Xoff) b = Some ?b1" "USART1_IRQHandler dev (Some Xoff) ?b1 = Some ?b2"
    "USART1_IRQHandler dev (Some Xon) ?b2 = Some ?b3" "sus_print_task ?b3 = [0xFF, y]" "USART1_IRQHandler dev (Some Xon) ?b3 = Some ?b3"
    using ns assms(3) by (simp_all add: USART1_IRQHandler_def printer_irq_flow set_sus_def)
  moreover have "OSTCBStat (tcb (os ?b3) ?i) = OS_STAT_SUSPEND" using st3 by simp
  ultimately show ?thesis by blast
qed

text \<open>The board with the two tasks of the example above.\<close>

lemma two_tasks_in_task: "in_task two_tasks" "OSPrioHighRdy two_tasks = 9" "cur two_tasks = 2"
  using two_tasks_reachable by (simp_all add: in_task_def two_tasks_eq)

definition two_task_board :: "print_sys \<Rightarrow> local_state \<Rightarrow> wifi_conf \<Rightarrow> board" where
  "two_task_board p l w = \<lparr>os = two_tasks, sus_print_task = [0xFF, 0xFF], printers = p, serial = l, wifi = w\<rparr>"

lemma xoff_then_xon_witness:
  "\<forall>dev p l w. \<exists>b1. USART1_IRQHandler dev (Some Xoff) (two_task_board p l w) = Some b1 \<and> \<not> runnable (tcb (os b1) 2)"
proof (intro allI)
  fix dev p l w
  have a: "in_task (os (two_task_board p l w))" "sus_print_task (two_task_board p l w) = [0xFF, 0xFF]"
    "OSPrioHighRdy (os (two_task_board p l w)) = 9" "cur (os (two_task_board p l w)) = 2"
    using two_tasks_in_task by (simp_all add: two_task_board_def)
  show "\<exists>b1. USART1_IRQHandler dev (Some Xoff) (two_task_board p l w) = Some b1 \<and> \<not> runnable (tcb (os b1) 2)"
    using xoff_then_xon [OF a(1,2), of dev] a(3,4) by auto
qed

lemma second_xoff_loses_witness:
  "\<forall>dev p l w. \<exists>b3. USART1_IRQHandler dev (Some Xon) b3 = Some b3 \<and> OSTCBStat (tcb (os b3) 2) = OS_STAT_SUSPEND"
proof (intro allI)
  fix dev p l w
  have a: "in_task (os (two_task_board p l w))" "OSPrioHighRdy (os (two_task_board p l w)) \<noteq> OS_TASK_IDLE_PRIO"
    "sus_print_task (two_task_board p l w) = [0xFF, 0xFF]" "cur (os (two_task_board p l w)) = 2"
    using two_tasks_in_task by (simp_all add: two_task_board_def)
  show "\<exists>b3. USART1_IRQHandler dev (Some Xon) b3 = Some b3 \<and> OSTCBStat (tcb (os b3) 2) = OS_STAT_SUSPEND"
    using second_xoff_loses [OF a(1-3), of dev] a(4) by auto
qed

end
