(* ===== verification/Os_Mutex.thy ===== *)
theory Os_Mutex
  imports Os_Behaviour
begin

text \<open>
  What the mutexes of the kernel promise: who owns one and who is told so, and what the priorities
  that this program gives to its mutexes make of them.
\<close>

section \<open>Who owns a mutex\<close>

lemma owner_view [simp]:
  "ev_owner (OS_Sched k) e = ev_owner k e" "ev_owner (switch_to_highest k) e = ev_owner k e" "ev_owner (set_cnt x c k) e = ev_owner k e"
  "ev_owner (set_tcb i t k) e = ev_owner k e" "ev_owner (make_ready i k) e = ev_owner k e" "ev_owner (make_unready i k) e = ev_owner k e"
  "ev_owner (OS_EventTaskRemove i x k) e = ev_owner k e"
  "ev_owner (wait_for x st n k) e = ev_owner k e" "ev_owner (snd (OS_EventTaskRdy x msg msk st k)) e = ev_owner k e"
  by (simp_all add: ev_owner_def OS_Sched_def switch_fields set_cnt_def set_event_view set_tcb_def make_ready_def make_unready_def
      OS_EventTaskRemove_def OS_EventTaskWait_def wait_for_def OS_EventTaskRdy_def Let_def set_event_def)

lemma owner_fields [simp]:
  "ev_owner (k\<lparr>OSTime := a\<rparr>) e = ev_owner k e" "ev_owner (k\<lparr>OSIntNesting := n\<rparr>) e = ev_owner k e"
  "ev_owner (k\<lparr>OSLockNesting := n\<rparr>) e = ev_owner k e" "ev_owner (k\<lparr>OSTickStepState := n\<rparr>) e = ev_owner k e"
  "ev_owner (k\<lparr>OSTaskCtr := n\<rparr>) e = ev_owner k e"
  by (simp_all add: ev_owner_def)

lemma owner_tick: "ev_owner (SysTick_Handler k) e = ev_owner k e"
proof -
  have "ev_owner (tick_task i x) e = ev_owner x e" for i x by (simp add: tick_task_def Let_def)
  then have "ev_owner (tick_tasks is x) e = ev_owner x e" for "is" x by (induction "is" arbitrary: x) simp_all
  then show ?thesis by (simp add: SysTick_Handler_def OSTimeTick_def OSIntExit_def Let_def)
qed

lemma owner_wake_all: "ev_owner (snd (wake_all n x msk st k)) e = ev_owner k e"
  by (induction n arbitrary: k) (simp_all add: split_beta)

lemma owner_new_event:
  assumes "kernel_ok k" "OSEventFreeList k = EventPtr x" "ev_type k e \<noteq> OS_EVENT_TYPE_UNUSED"
  shows "x \<noteq> e"
proof -
  obtain es where es: "event_chain (OSEvents k) (EventPtr x) es" "\<forall>y \<in> set es. ev_type k y = OS_EVENT_TYPE_UNUSED"
    using kernel_okD(6) [OF assms(1)] assms(2) by (auto simp: free_ok_def)
  then show ?thesis using assms(3) by (cases es) auto
qed

lemma mutex_post_same:
  assumes "OSTCBCur k = Tcb (cur k)"
    and "\<not> (\<exists>y. x = Some y \<and> ev_type k y = OS_EVENT_TYPE_MUTEX \<and> OSIntNesting k = 0 \<and> ev_owner k y = OwnerPtr (cur k))"
  shows "snd (mutex_post x k) = k"
proof (cases x)
  case (Some y)
  consider "OSIntNesting k \<noteq> 0" | "ev_type k y \<noteq> OS_EVENT_TYPE_MUTEX"
    | "OSIntNesting k = 0" "ev_type k y = OS_EVENT_TYPE_MUTEX" "ev_owner k y \<noteq> OwnerPtr (cur k)"
    using assms(2) Some by blast
  then show ?thesis
  proof cases
    case 3
    then show ?thesis using mutex_post_refused [OF 3(1,2) assms(1) 3(3)] Some by simp
  qed (simp_all add: Some mutex_post_def ev_type_def word_neq_0_conv)
qed (simp add: mutex_post_def)

text \<open>A mutex is taken from its owner by nobody but the owner: whatever step the kernel makes, it has the
  same owner after it, unless the current task is the owner himself.\<close>

lemma mutex_owner_kept:
  assumes "reachable k" "kernel_step k k'" "ev_type k e = OS_EVENT_TYPE_MUTEX" "ev_owner k e = OwnerPtr i" "OSTCBCur k \<noteq> Tcb i"
  shows "ev_owner k' e = OwnerPtr i"
proof -
  have s: "sys_ok k" using reachable_ok assms(1) .
  note k = sys_okD(1) [OF s]
  have ty: "OSEventType (OSEvents k e) = OS_EVENT_TYPE_MUTEX" using assms(3) by (simp add: ev_type_def)
  have lw: "lower8 (OSEvents k e) \<noteq> 0xFF" using mutex_okD(3) [OF k assms(3)] assms(4) by auto
  then have busy: "OSEventCnt (OSEvents k e) AND OS_MUTEX_KEEP_LOWER_8 \<noteq> OS_MUTEX_AVAILABLE" using free_mutex by (simp add: lower8_def)
  have ne: "x \<noteq> e" if "OSEventFreeList k = EventPtr x" for x using owner_new_event [OF k that] assms(3) by simp
  have take: "ev_owner (snd (mutex_take x k)) e = ev_owner k e" if "OSEventCnt (OSEvents k x) AND OS_MUTEX_KEEP_LOWER_8 = OS_MUTEX_AVAILABLE" for x
    using that busy by (auto simp: mutex_take_def Let_def ev_owner_def set_event_view)
  have raise: "\<not> mutex_pip (OSEvents k x) < OSTCBPrio (tcb k (owner_index (OSEventPtr (OSEvents k x))))"
    if "OSEventType (OSEvents k x) = OS_EVENT_TYPE_MUTEX" "OSEventCnt (OSEvents k x) AND OS_MUTEX_KEEP_LOWER_8 \<noteq> OS_MUTEX_AVAILABLE" for x
    using owner_not_raised [OF k, of x] that free_mutex by (simp add: ev_type_def lower8_def)
  have "ev_owner k' e = ev_owner k e"
    using assms(2)
  proof cases
    case tick
    then show ?thesis by (simp add: owner_tick)
  next
    case start
    then show ?thesis by (simp add: OSStart_def OS_SchedNew_def OSStartHighRdy_def OS_CPU_PendSVHandler_def ev_owner_def Let_def)
  next
    case (task_create p)
    have "ev_owner (add_task p i f k) e = ev_owner k e" for i f by (simp add: add_task_def ev_owner_def)
    then show ?thesis using task_create by (simp add: task_create_eq Let_def split: list.split)
  next
    case (create_sem c)
    then show ?thesis using ne by (auto simp: sem_create_def ev_owner_def set_event_view Let_def split: event_ptr.split)
  next
    case (create_mutex p)
    then show ?thesis using ne by (auto simp: mutex_create_def ev_owner_def set_event_view Let_def split: event_ptr.split)
  next
    case (create_q xs)
    then show ?thesis using ne by (auto simp: q_create_def ev_owner_def set_event_view Let_def split: event_ptr.split)
  next
    case (post_q x m)
    have "x \<noteq> Some e" if "x = Some y" "OSEventType (OSEvents k y) = OS_EVENT_TYPE_Q" for y using that ty by auto
    then show ?thesis
      using post_q(1) by (auto simp: q_post_def Let_def ev_owner_def [of "set_event _ _ _"] set_event_view ev_owner_def [symmetric] split: option.split prod.split bool.split)
  next
    case (pend_q x n)
    have "x \<noteq> Some e" if "x = Some y" "OSEventType (OSEvents k y) = OS_EVENT_TYPE_Q" for y using that ty by auto
    then show ?thesis
      using pend_q(1) by (auto simp: q_pend_def Let_def ev_owner_def [of "set_event _ _ _"] set_event_view ev_owner_def [symmetric] split: option.split)
  next
    case (pend_q_done x)
    then show ?thesis by (simp add: q_pend_end_def Let_def)
  next
    case (abort_sem x b)
    then show ?thesis by (auto simp: sem_pend_abort_def split_beta owner_wake_all simp del: wake_all.simps split: option.split)
  next
    case (accept_mutex x)
    then show ?thesis using take by (auto simp: mutex_accept_def split_beta split: option.split)
  next
    case (pend_mutex x n)
    then show ?thesis using take raise by (auto simp: mutex_pend_def split_beta Let_def split: option.split)
  next
    case (post_mutex x)
    show ?thesis
    proof (cases "\<exists>y. x = Some y \<and> ev_type k y = OS_EVENT_TYPE_MUTEX \<and> OSIntNesting k = 0 \<and> ev_owner k y = OwnerPtr (cur k)")
      case True
      then obtain y where y: "x = Some y" "ev_type k y = OS_EVENT_TYPE_MUTEX" "OSIntNesting k = 0" "ev_owner k y = OwnerPtr (cur k)" by blast
      have l: "OSTCBCur k = Tcb (cur k)" using cur_live [OF sys_okD(2) [OF s]] post_mutex(2) by (simp add: calling_def)
      have "y \<noteq> e" using y(4) assms(4,5) l by auto
      then show ?thesis
        using mutex_post_eq [OF k y(3,2,4) l] post_mutex(1) y(1) by (cases "waiters k y = {}") (simp_all add: ev_owner_def [of "set_event _ _ _"] set_event_view ev_owner_def [symmetric])
    next
      case False
      have l: "OSTCBCur k = Tcb (cur k)" using cur_live [OF sys_okD(2) [OF s]] post_mutex(2) by (simp add: calling_def)
      have "snd (mutex_post x k) = k"
        using mutex_post_same [OF l] False by blast
      then show ?thesis using post_mutex(1) by simp
    qed
  next
    case (pend_done x)
    then show ?thesis by (simp add: pend_end_def Let_def)
  qed (auto simp: OSSchedLock_def OSSchedUnlock_def OSTimeSet_def OSTimeDly_def OSTimeDlyHMSM_def OSTimeDlyResume_def OSTaskSuspend_def
      OSTaskResume_def sem_accept_def sem_pend_def sem_post_def sem_set_def Let_def split: option.split)
  then show ?thesis using assms(4) by simp
qed

text \<open>
  The task of priority 9 takes the mutex and delays itself; that of 12 waits for the mutex; after the tick the
  first one posts, which hands the mutex over, and delays itself again, so that the second comes back from its call.
\<close>

definition nine_owns :: kernel where
  "nine_owns = OSTimeDly 1 (snd (mutex_pend (Some 1) 0 two_tasks))"

definition twelve_waits :: kernel where
  "twelve_waits = SysTick_Handler (snd (mutex_pend (Some 1) 0 nine_owns))"

definition twelve_owns :: kernel where
  "twelve_owns = OSTimeDly 1 (snd (mutex_post (Some 1) twelve_waits))"

lemma nine_takes:
  "snd (mutex_pend (Some 1) 0 two_tasks) = world 0 0 (10, [0, 18, 0, 3]) 9 2 (new_tcb 24) (new_tcb 9) (new_tcb 12) (sem_event 0 list_empty)
     (mutex_event (OwnerPtr 2) 0x1009 list_empty)"
  by (simp add: two_tasks_eq mutex_pend_def mutex_take_def set_event_def new_tcb_def Let_def)

lemma nine_owns_eq:
  "nine_owns = world 0 1 (10, [0, 16, 0, 3]) 12 3 (new_tcb 24) ((new_tcb 9)\<lparr>OSTCBDly := 1\<rparr>) ((new_tcb 12)\<lparr>OSTCBCtxSwCtr := 1\<rparr>)
     (sem_event 0 list_empty) (mutex_event (OwnerPtr 2) 0x1009 list_empty)"
  unfolding nine_owns_def nine_takes by (simp add: eval_step OSTimeDly_def Let_def)

lemma twelve_waits_1:
  "snd (mutex_pend (Some 1) 0 nine_owns) = world 0 2 (8, [0, 0, 0, 3]) 24 1 ((new_tcb 24)\<lparr>OSTCBCtxSwCtr := 1\<rparr>) ((new_tcb 9)\<lparr>OSTCBDly := 1\<rparr>)
     ((new_tcb 12)\<lparr>OSTCBCtxSwCtr := 1, OSTCBEventPtr := Some 1, OSTCBStat := OS_STAT_MUTEX\<rparr>)
     (sem_event 0 list_empty) (mutex_event (OwnerPtr 2) 0x1009 (2, [0, 16, 0, 0]))"
  unfolding nine_owns_eq by (simp add: mutex_pend_def eval_step Let_def)

lemma twelve_waits_eq:
  "twelve_waits = world 1 3 (10, [0, 2, 0, 3]) 9 2 ((new_tcb 24)\<lparr>OSTCBCtxSwCtr := 1\<rparr>) ((new_tcb 9)\<lparr>OSTCBCtxSwCtr := 1\<rparr>)
     ((new_tcb 12)\<lparr>OSTCBCtxSwCtr := 1, OSTCBEventPtr := Some 1, OSTCBStat := OS_STAT_MUTEX\<rparr>)
     (sem_event 0 list_empty) (mutex_event (OwnerPtr 2) 0x1009 (2, [0, 16, 0, 0]))"
  unfolding twelve_waits_def twelve_waits_1
  by (simp add: SysTick_Handler_def OSTimeTick_def tick_task_def end_delay_def OSIntExit_def eval_step Let_def)

lemma twelve_owns_1:
  "snd (mutex_post (Some 1) twelve_waits) = world 1 3 (10, [0, 18, 0, 3]) 9 2 ((new_tcb 24)\<lparr>OSTCBCtxSwCtr := 1\<rparr>) ((new_tcb 9)\<lparr>OSTCBCtxSwCtr := 1\<rparr>)
     ((new_tcb 12)\<lparr>OSTCBCtxSwCtr := 1, OSTCBEventPtr := Some 1\<rparr>)
     (sem_event 0 list_empty) (mutex_event (OwnerPtr 3) 0x100C list_empty)"
  unfolding twelve_waits_eq
  by (simp add: mutex_post_def OS_EventTaskRdy_def OS_EventTaskRemove_def mutex_pip_def drop_bit_eq_div eval_step Let_def)

lemma twelve_owns_eq:
  "twelve_owns = world 1 4 (10, [0, 16, 0, 3]) 12 3 ((new_tcb 24)\<lparr>OSTCBCtxSwCtr := 1\<rparr>) ((new_tcb 9)\<lparr>OSTCBCtxSwCtr := 1, OSTCBDly := 1\<rparr>)
     ((new_tcb 12)\<lparr>OSTCBCtxSwCtr := 2, OSTCBEventPtr := Some 1\<rparr>)
     (sem_event 0 list_empty) (mutex_event (OwnerPtr 3) 0x100C list_empty)"
  unfolding twelve_owns_def twelve_owns_1 by (simp add: eval_step OSTimeDly_def Let_def)

lemma nine_owns_reachable: "reachable nine_owns"
proof -
  have "calling two_tasks" "above_pip two_tasks (Some 1)"
    by (simp_all add: two_tasks_eq calling_def new_tcb_def above_pip_def ev_pip_def mutex_pip_def drop_bit_eq_div)
  then have "kernel_step two_tasks (snd (mutex_pend (Some 1) 0 two_tasks))" by (rule kernel_step.pend_mutex)
  then have r: "reachable (snd (mutex_pend (Some 1) 0 two_tasks))" by (rule reachable.step [OF two_tasks_reachable])
  have "calling (snd (mutex_pend (Some 1) 0 two_tasks))" unfolding nine_takes by (simp add: calling_def new_tcb_def)
  then show ?thesis unfolding nine_owns_def by (intro reachable.step [OF r] kernel_step.delay)
qed

lemma twelve_owns_reachable: "reachable twelve_owns"
proof -
  have "calling nine_owns" "above_pip nine_owns (Some 1)"
    by (simp_all add: nine_owns_eq calling_def new_tcb_def above_pip_def ev_pip_def mutex_pip_def drop_bit_eq_div)
  then have "reachable (snd (mutex_pend (Some 1) 0 nine_owns))"
    by (intro reachable.step [OF nine_owns_reachable] kernel_step.pend_mutex)
  then have r: "reachable twelve_waits" unfolding twelve_waits_def by (rule reachable.step [OF _ kernel_step.tick])
  have "calling twelve_waits" by (simp add: twelve_waits_eq calling_def new_tcb_def)
  then have r: "reachable (snd (mutex_post (Some 1) twelve_waits))" by (intro reachable.step [OF r] kernel_step.post_mutex)
  have "calling (snd (mutex_post (Some 1) twelve_waits))" unfolding twelve_owns_1 by (simp add: calling_def new_tcb_def)
  then show ?thesis unfolding twelve_owns_def by (intro reachable.step [OF r] kernel_step.delay)
qed

lemma mutex_owner_kept_witness: "ev_owner (SysTick_Handler nine_owns) 1 = OwnerPtr 2"
  by (rule mutex_owner_kept [OF nine_owns_reachable kernel_step.tick]) (simp_all add: nine_owns_eq ev_type_def ev_owner_def)

text \<open>A task that comes back from \<^verbatim>\<open>OSMutexPend\<close> after waiting without an error is the owner of the
  mutex from then on; one that comes back with a time-out or an abort leaves the owner as it was.\<close>

lemma told_is_the_owner:
  assumes "reachable k" "returning e k" "ev_type k e = OS_EVENT_TYPE_MUTEX"
  shows "let (err, k') = pend_end e k in
    if err = OS_ERR_NONE then ev_owner k' e = OwnerPtr (cur k) else ev_owner k' e = ev_owner k e"
proof -
  have s: "sys_ok k" using reachable_ok assms(1) .
  note k = sys_okD(1) [OF s]
  have r: "OSRunning k" "OSIntNesting k = 0" "OSLockNesting k = 0" "OSTCBEventPtr (tcb k (cur k)) = Some e"
    using assms(2) by (simp_all add: returning_def)
  have l: "live k (cur k)" by (rule sys_ok_min(2) [OF s r(1-3)])
  have "\<not> pending (tcb k (cur k))" using runnable_cur [OF s r(1-3)] by (simp add: runnable_def pending_def)
  then have "OSTCBStatPend (tcb k (cur k)) = OS_STAT_PEND_OK \<Longrightarrow> ev_owner k e = OwnerPtr (cur k)"
    using told_is_owner [OF k l r(4) assms(3)] by blast
  then show ?thesis by (simp add: pend_end_def Let_def)
qed

lemma told_is_the_owner_witness: "fst (pend_end 1 twelve_owns) = OS_ERR_NONE \<and> ev_owner (snd (pend_end 1 twelve_owns)) 1 = OwnerPtr 3"
proof -
  have "returning 1 twelve_owns" "ev_type twelve_owns 1 = OS_EVENT_TYPE_MUTEX" "cur twelve_owns = 3"
    by (simp_all add: twelve_owns_eq returning_def new_tcb_def ev_type_def)
  moreover have "fst (pend_end 1 twelve_owns) = OS_ERR_NONE" by (simp add: pend_end_def twelve_owns_eq new_tcb_def)
  ultimately show ?thesis using told_is_the_owner [OF twelve_owns_reachable] by (metis (mono_tags, lifting) case_prod_unfold)
qed


section \<open>The mutexes of this program\<close>

text \<open>C36. When the inheritance priority of a mutex is below that of every task that asks for it, as the
  configuration of this program has it, no task is ever raised: a free mutex is taken but the call returns
  the error \<^verbatim>\<open>OS_ERR_PIP_LOWER\<close>, and of a mutex in use the caller waits while its owner keeps its priority.\<close>

theorem mutex_reports_error:
  assumes "reachable k" "calling k" "OSIntNesting k = 0" "OSLockNesting k = 0" "ev_type k e = OS_EVENT_TYPE_MUTEX"
    "OSTCBPrio (tcb k (cur k)) < ev_pip k e"
  shows "(if ev_owner k e = NullPtr
          then mutex_pend (Some e) n k = (Some OS_ERR_PIP_LOWER, snd (mutex_take e k)) \<and> ev_owner (snd (mutex_take e k)) e = OwnerPtr (cur k)
          else mutex_pend (Some e) n k = (None, OS_Sched (wait_for e OS_STAT_MUTEX n k)))
    \<and> OSTCBPrio (tcb (snd (mutex_pend (Some e) n k)) i) = OSTCBPrio (tcb k i)"
proof -
  have s: "sys_ok k" using reachable_ok assms(1) .
  note k = sys_okD(1) [OF s]
  have ty: "OSEventType (OSEvents k e) = OS_EVENT_TYPE_MUTEX" using assms(5) by (simp add: ev_type_def)
  have l: "OSTCBCur k = Tcb (cur k)" "live k (cur k)" using cur_live [OF sys_okD(2) [OF s]] assms(2) by (simp_all add: calling_def)
  have free: "OSEventCnt (OSEvents k e) AND OS_MUTEX_KEEP_LOWER_8 = OS_MUTEX_AVAILABLE \<longleftrightarrow> ev_owner k e = NullPtr"
    using mutex_okD(3,4) [OF k assms(5)] free_mutex [of "OSEventCnt (OSEvents k e)"] unfolding lower8_def by force
  show ?thesis
  proof (cases "ev_owner k e = NullPtr")
    case True
    have "fst (mutex_take e k) = OS_ERR_PIP_LOWER"
      using assms(6) by (simp add: mutex_take_def ev_pip_def Let_def)
    moreover have "ev_owner (snd (mutex_take e k)) e = OwnerPtr (cur k)"
      using l(1) by (cases "OSTCBCur k") (simp_all add: mutex_take_def ev_owner_def set_event_view Let_def)
    moreover have "OSTCBPrio (tcb (snd (mutex_take e k)) i) = OSTCBPrio (tcb k i)"
      by (simp add: mutex_take_def set_event_view Let_def)
    ultimately show ?thesis using free True assms(3,4) ty by (simp add: mutex_pend_def split_beta)
  next
    case False
    have low: "\<not> mutex_pip (OSEvents k e) < OSTCBPrio (tcb k (owner_index (OSEventPtr (OSEvents k e))))"
      using owner_not_raised [OF k assms(5)] free False free_mutex by (simp add: lower8_def)
    have "OSTCBPrio (tcb (OS_Sched x) i) = OSTCBPrio (tcb x i)" for x by (simp add: OS_Sched_def switch_tcb)
    then have "OSTCBPrio (tcb (OS_Sched (wait_for e OS_STAT_MUTEX n k)) i) = OSTCBPrio (tcb k i)"
      using wait_for_cpu [OF kernel_okD(8) [OF k l(2)], of e OS_STAT_MUTEX n] by (simp add: same_cpu_def)
    then show ?thesis using free False low assms(3,4) ty by (simp add: mutex_pend_def Let_def)
  qed
qed

lemma mutex_reports_error_witness:
  "fst (mutex_pend (Some 1) 0 two_tasks) = Some OS_ERR_PIP_LOWER \<and> fst (mutex_pend (Some 1) 0 nine_owns) = None"
proof -
  have a: "calling two_tasks" "OSIntNesting two_tasks = 0" "OSLockNesting two_tasks = 0" "ev_type two_tasks 1 = OS_EVENT_TYPE_MUTEX"
    "OSTCBPrio (tcb two_tasks (cur two_tasks)) < ev_pip two_tasks 1" "ev_owner two_tasks 1 = NullPtr"
    by (simp_all add: two_tasks_eq calling_def new_tcb_def ev_type_def ev_owner_def ev_pip_def mutex_pip_def drop_bit_eq_div)
  have b: "calling nine_owns" "OSIntNesting nine_owns = 0" "OSLockNesting nine_owns = 0" "ev_type nine_owns 1 = OS_EVENT_TYPE_MUTEX"
    "OSTCBPrio (tcb nine_owns (cur nine_owns)) < ev_pip nine_owns 1" "ev_owner nine_owns 1 \<noteq> NullPtr"
    by (simp_all add: nine_owns_eq calling_def new_tcb_def ev_type_def ev_owner_def ev_pip_def mutex_pip_def drop_bit_eq_div)
  show ?thesis
    using mutex_reports_error [OF two_tasks_reachable a(1-5)] mutex_reports_error [OF nine_owns_reachable b(1-5)] a(6) b(6) by simp
qed

end
