(* ===== verification/Start_Up.thy ===== *)
theory Start_Up
  imports Os_Behaviour
begin

text \<open>
  What \<^verbatim>\<open>main\<close> (\<^verbatim>\<open>User/src/main.c\<close>) does to the kernel between \<^verbatim>\<open>OSInit\<close> and \<^verbatim>\<open>OSStart\<close>: the
  semaphores, mutexes and the queue that it and the functions it calls create, and the tasks.  The
  calls are listed in their order and run by one function, so that an interrupt can come between any
  two of them.
\<close>

section \<open>The calls\<close>

text \<open>The variables that hold a pointer to an event.\<close>

datatype event_var = Local_Send_Data_Mutex | Wifi_Send_Data_Mutex | Recon_To_Server | Print_Sema | Print_Queue_Sema
  | Batch_Rec | Ack_Rec_Order | Ack_Rec_Printer | Printer_Status_Rec | Print_Done | Local_Rec_Data | Wifi_Rec_Data
  | Capacity_Change | Rec_Wifi_Req | Mesg_Queue_Ptr | Block_1K | Block_2K | Block_4K | Block_10K | LWIP_Init
  | PCMgr_resrcSem | cell_printBeginSem nat | cell_printDoneSem nat | queue_buf_mutex | urgent_buf_mutex
  | order_print_table_mutex | heap_mutex

datatype new_event = NewMutex u8 | NewSem u16 | NewQueue nat

text \<open>
  \<open>CreateOrHalt\<close> is a creation inside the macro \<^verbatim>\<open>assert\<close>, which stops in an endless loop when the
  pointer is null; the result of \<^verbatim>\<open>OSTaskCreate\<close> is not looked at.
\<close>

datatype boot_call = CreateOrHalt event_var new_event | Create event_var new_event | TaskCreate u8 | TimeSet u32 | Start

record startup =
  kern :: kernel
  vars :: "event_var \<Rightarrow> nat option"

fun create_event :: "new_event \<Rightarrow> kernel \<Rightarrow> nat option \<times> kernel" where
  "create_event (NewMutex prio) k = (let ((err, e), k) = mutex_create prio k in (e, k))"
| "create_event (NewSem cnt) k = sem_create cnt k"
| "create_event (NewQueue n) k = q_create (replicate n 0) k"

text \<open>\<open>None\<close>: the processor hangs in the loop of an \<^verbatim>\<open>assert\<close>.\<close>

fun exec :: "boot_call \<Rightarrow> startup \<Rightarrow> startup option" where
  "exec (CreateOrHalt v ev) s =
     (let (e, k) = create_event ev (kern s) in if e = None then None else Some (s\<lparr>kern := k, vars := (vars s)(v := e)\<rparr>))"
| "exec (Create v ev) s = (let (e, k) = create_event ev (kern s) in Some (s\<lparr>kern := k, vars := (vars s)(v := e)\<rparr>))"
| "exec (TaskCreate prio) s = Some (s\<lparr>kern := snd (OSTaskCreate prio (kern s))\<rparr>)"
| "exec (TimeSet ticks) s = Some (s\<lparr>kern := OSTimeSet ticks (kern s)\<rparr>)"
| "exec Start s = Some (s\<lparr>kern := OSStart (kern s)\<rparr>)"

fun boot :: "boot_call list \<Rightarrow> startup \<Rightarrow> startup option" where
  "boot [] s = Some s"
| "boot (c # cs) s = (case exec c s of None \<Rightarrow> None | Some s \<Rightarrow> boot cs s)"

definition InitSemAndMutex :: "boot_call list" where
  "InitSemAndMutex =
     [CreateOrHalt Local_Send_Data_Mutex (NewMutex 16), CreateOrHalt Wifi_Send_Data_Mutex (NewMutex 17),
      CreateOrHalt Recon_To_Server (NewSem 0), CreateOrHalt Print_Sema (NewSem 0), CreateOrHalt Print_Queue_Sema (NewSem 0),
      CreateOrHalt Batch_Rec (NewSem 0), CreateOrHalt Ack_Rec_Order (NewSem 0), CreateOrHalt Ack_Rec_Printer (NewSem 0),
      CreateOrHalt Printer_Status_Rec (NewSem 0), CreateOrHalt Print_Done (NewSem 0), CreateOrHalt Local_Rec_Data (NewSem 0),
      CreateOrHalt Wifi_Rec_Data (NewSem 0), CreateOrHalt Capacity_Change (NewSem 0), CreateOrHalt Rec_Wifi_Req (NewSem 0),
      CreateOrHalt Mesg_Queue_Ptr (NewQueue 20),
      CreateOrHalt Block_1K (NewSem 4), CreateOrHalt Block_2K (NewSem 3), CreateOrHalt Block_4K (NewSem 3),
      CreateOrHalt Block_10K (NewSem 1), CreateOrHalt LWIP_Init (NewSem 0)]"

text \<open>
  The tasks in the order of \<^verbatim>\<open>main\<close>: lwIP, UDP, printing, batches, print queue, serial line, wifi,
  health, messages, wifi requests and the two transmitters.
\<close>

definition create_tasks :: "boot_call list" where
  "create_tasks = map TaskCreate [3, 7, 9, 10, 11, 8, 14, 5, 4, 6, 12, 13]"

definition InitPrintCellsMgr_sems :: "boot_call list" where
  "InitPrintCellsMgr_sems =
     Create PCMgr_resrcSem (NewSem 0)
     # concat (map (\<lambda>i. [Create (cell_printBeginSem i) (NewSem 0), Create (cell_printDoneSem i) (NewSem 0)]) [0, 1])"

definition Init_Queue_mutexes :: "boot_call list" where
  "Init_Queue_mutexes = [CreateOrHalt queue_buf_mutex (NewMutex 19), CreateOrHalt urgent_buf_mutex (NewMutex 18)]"

definition Init_Order_Table_mutex :: "boot_call list" where
  "Init_Order_Table_mutex = [CreateOrHalt order_print_table_mutex (NewMutex 20)]"

definition main_calls :: "boot_call list" where
  "main_calls = InitSemAndMutex @ create_tasks @ [TimeSet 0] @ InitPrintCellsMgr_sems @ Init_Queue_mutexes
     @ Init_Order_Table_mutex"

text \<open>After \<^verbatim>\<open>System_Setup\<close> and \<^verbatim>\<open>OSInit\<close> all pointers are null.\<close>

definition power_on :: startup where
  "power_on = \<lparr>kern = OSInit, vars = (\<lambda>_. None)\<rparr>"

lemma boot_append: "boot (cs @ ds) s = (case boot cs s of None \<Rightarrow> None | Some s \<Rightarrow> boot ds s)"
  by (induction cs arbitrary: s) (auto split: option.split)

section \<open>The start as a plan\<close>

text \<open>
  What the calls amount to as long as no table is full and no priority is used twice: the events in
  the order of their control blocks and the priorities of the tasks in the order of theirs.
\<close>

record plan =
  made :: "(event_var \<times> new_event) list"
  tasks :: "u8 list"

definition pips :: "plan \<Rightarrow> u8 list" where
  "pips P = concat (map (\<lambda>(v, ev). case ev of NewMutex p \<Rightarrow> [p] | _ \<Rightarrow> []) (made P))"

definition queues :: "plan \<Rightarrow> nat" where
  "queues P = length (filter (\<lambda>(v, ev). case ev of NewQueue n \<Rightarrow> True | _ \<Rightarrow> False) (made P))"

definition task_prios :: "plan \<Rightarrow> u8 list" where
  "task_prios P = [OS_TASK_IDLE_PRIO, OS_TASK_STAT_PRIO] @ tasks P"

definition taken :: "plan \<Rightarrow> u8 list" where
  "taken P = pips P @ task_prios P"

fun room_for :: "new_event \<Rightarrow> plan \<Rightarrow> bool" where
  "room_for (NewMutex p) P \<longleftrightarrow> p < OS_LOWEST_PRIO \<and> p \<notin> set (taken P)"
| "room_for (NewSem c) P \<longleftrightarrow> True"
| "room_for (NewQueue n) P \<longleftrightarrow> queues P < OS_MAX_QS"

fun plan_call :: "boot_call \<Rightarrow> plan \<Rightarrow> plan option" where
  "plan_call (CreateOrHalt v ev) P =
     (if v \<notin> fst ` set (made P) \<and> length (made P) < OS_MAX_EVENTS - 1 \<and> room_for ev P
      then Some (P\<lparr>made := made P @ [(v, ev)]\<rparr>) else None)"
| "plan_call (Create v ev) P =
     (if v \<notin> fst ` set (made P) \<and> length (made P) < OS_MAX_EVENTS - 1 \<and> room_for ev P
      then Some (P\<lparr>made := made P @ [(v, ev)]\<rparr>) else None)"
| "plan_call (TaskCreate p) P =
     (if p \<le> OS_LOWEST_PRIO \<and> p \<notin> set (taken P) \<and> length (task_prios P) < OS_MAX_TCBS
      then Some (P\<lparr>tasks := tasks P @ [p]\<rparr>) else None)"
| "plan_call (TimeSet n) P = Some P"
| "plan_call Start P = None"

fun plan_calls :: "boot_call list \<Rightarrow> plan \<Rightarrow> plan option" where
  "plan_calls [] P = Some P"
| "plan_calls (c # cs) P = (case plan_call c P of None \<Rightarrow> None | Some P \<Rightarrow> plan_calls cs P)"

fun event_of :: "new_event \<Rightarrow> OS_EVENT" where
  "event_of (NewMutex p) = \<lparr>OSEventType = OS_EVENT_TYPE_MUTEX, OSEventPtr = NullPtr,
     OSEventCnt = push_bit 8 (ucast p) OR OS_MUTEX_AVAILABLE, OSEventList = list_empty\<rparr>"
| "event_of (NewSem c) = \<lparr>OSEventType = OS_EVENT_TYPE_SEM, OSEventPtr = NullPtr, OSEventCnt = c, OSEventList = list_empty\<rparr>"
| "event_of (NewQueue n) = \<lparr>OSEventType = OS_EVENT_TYPE_Q, OSEventPtr = QueuePtr (OSQCreate (replicate n 0)), OSEventCnt = 0,
     OSEventList = list_empty\<rparr>"

definition follows :: "startup \<Rightarrow> plan \<Rightarrow> bool" where
  "follows s P \<longleftrightarrow>
     OSIntNesting (kern s) = 0 \<and> \<not> OSRunning (kern s) \<and> OSLockNesting (kern s) = 0
     \<and> OSEventFreeList (kern s) = EventPtr (length (made P)) \<and> OSQFree (kern s) = OS_MAX_QS - queues P
     \<and> (\<forall>e. OSEvents (kern s) e = (if e < length (made P) then event_of (snd (made P ! e)) else OS_InitEventList e))
     \<and> OSTCBFreeList (kern s) = [length (task_prios P) ..< OS_MAX_TCBS]
     \<and> OSTCBList (kern s) = rev [0 ..< length (task_prios P)]
     \<and> (\<forall>i < length (task_prios P). tcb (kern s) i = new_tcb (task_prios P ! i))
     \<and> (\<forall>p. OSTCBPrioTbl (kern s) p = NoTcb \<longleftrightarrow> p \<notin> set (taken P))
     \<and> vars s = map_of (zip (map fst (made P)) [0 ..< length (made P)])"


lemma plan_fields [simp]:
  "pips (P\<lparr>tasks := ts\<rparr>) = pips P" "queues (P\<lparr>tasks := ts\<rparr>) = queues P"
  "taken (P\<lparr>tasks := tasks P @ ts\<rparr>) = taken P @ ts"
  "task_prios (P\<lparr>tasks := tasks P @ ts\<rparr>) = task_prios P @ ts" "task_prios (P\<lparr>made := ms\<rparr>) = task_prios P"
  by (simp_all add: pips_def queues_def taken_def task_prios_def)

lemma plan_made [simp]:
  "pips (P\<lparr>made := made P @ [(v, ev)]\<rparr>) = pips P @ (case ev of NewMutex p \<Rightarrow> [p] | _ \<Rightarrow> [])"
  "queues (P\<lparr>made := made P @ [(v, ev)]\<rparr>) = queues P + (case ev of NewQueue n \<Rightarrow> 1 | _ \<Rightarrow> 0)"
  "set (taken (P\<lparr>made := made P @ [(v, ev)]\<rparr>)) = set (taken P) \<union> (case ev of NewMutex p \<Rightarrow> {p} | _ \<Rightarrow> {})"
  by (auto simp: pips_def queues_def taken_def task_prios_def split: new_event.splits)

lemma create_follows:
  assumes f: "follows s P" and n: "length (made P) < OS_MAX_EVENTS - 1" and r: "room_for ev P"
  shows "create_event ev (kern s) = (Some (length (made P)), (kern s)\<lparr>OSEventFreeList := EventPtr (length (made P) + 1),
      OSEvents := (OSEvents (kern s))(length (made P) := event_of ev),
      OSQFree := OS_MAX_QS - (queues P + (case ev of NewQueue n \<Rightarrow> 1 | _ \<Rightarrow> 0)),
      OSTCBPrioTbl := (case ev of NewMutex p \<Rightarrow> (OSTCBPrioTbl (kern s))(p := Reserved) | _ \<Rightarrow> OSTCBPrioTbl (kern s))\<rparr>)"
proof -
  let ?k = "kern s" and ?n = "length (made P)"
  have k: "OSIntNesting ?k = 0" "OSEventFreeList ?k = EventPtr ?n" "OSQFree ?k = OS_MAX_QS - queues P"
    "OSEvents ?k ?n = OS_InitEventList ?n" "\<And>p. OSTCBPrioTbl ?k p = NoTcb \<longleftrightarrow> p \<notin> set (taken P)"
    using f by (simp_all add: follows_def)
  have i: "OSEventPtr (OS_InitEventList ?n) = EventPtr (?n + 1)" using n by (simp add: OS_InitEventList_def)
  show ?thesis
  proof (cases ev)
    case (NewMutex p)
    then show ?thesis using k i r
      by (simp add: mutex_create_def Let_def set_event_def OS_EventWaitListInit_def OS_InitEventList_def linorder_not_le split_beta)
  next
    case (NewSem c)
    then show ?thesis using k i r
      by (simp add: sem_create_def Let_def set_event_def OS_EventWaitListInit_def OS_InitEventList_def)
  next
    case (NewQueue m)
    then show ?thesis using k i r
      by (simp add: q_create_def Let_def set_event_def OS_EventWaitListInit_def OS_InitEventList_def)
  qed
qed

lemma map_of_snoc:
  assumes "length xs = length ys" "v \<notin> set xs"
  shows "map_of (zip (xs @ [v]) (ys @ [n])) = (map_of (zip xs ys))(v := Some n)"
  using assms by (induction xs ys rule: list_induct2) (auto simp: fun_upd_twist)

lemma made_follows:
  assumes f: "follows s P" and n: "length (made P) < OS_MAX_EVENTS - 1" and r: "room_for ev P" and v: "v \<notin> fst ` set (made P)"
  shows "follows (s\<lparr>kern := snd (create_event ev (kern s)), vars := (vars s)(v := Some (length (made P)))\<rparr>)
    (P\<lparr>made := made P @ [(v, ev)]\<rparr>)"
proof -
  have "map_of (zip (map fst (made P) @ [v]) ([0 ..< length (made P)] @ [length (made P)]))
      = (map_of (zip (map fst (made P)) [0 ..< length (made P)]))(v := Some (length (made P)))"
    using v by (intro map_of_snoc) auto
  then show ?thesis
    using f unfolding follows_def create_follows [OF f n r]
    by (auto simp: nth_append less_Suc_eq split: new_event.split)
qed

lemma task_follows:
  assumes f: "follows s P" and p: "p \<le> OS_LOWEST_PRIO" "p \<notin> set (taken P)" and n: "length (task_prios P) < OS_MAX_TCBS"
  shows "follows (s\<lparr>kern := snd (OSTaskCreate p (kern s))\<rparr>) (P\<lparr>tasks := tasks P @ [p]\<rparr>)"
proof -
  let ?k = "kern s" and ?n = "length (task_prios P)"
  have k: "OSIntNesting ?k = 0" "\<not> OSRunning ?k" "OSTCBFreeList ?k = ?n # [?n + 1 ..< OS_MAX_TCBS]" "OSTCBPrioTbl ?k p = NoTcb"
    using f p n by (simp_all add: follows_def upt_conv_Cons)
  have "snd (OSTaskCreate p ?k) = (add_task p ?n [?n + 1 ..< OS_MAX_TCBS] ?k)\<lparr>OSTaskCtr := OSTaskCtr ?k + 1\<rparr>"
    using p(1) k by (simp add: task_create_eq add_task_def Let_def linorder_not_less)
  then show ?thesis
    using f unfolding follows_def
    by (auto simp: add_task_def nth_append less_Suc_eq)
qed

text \<open>The kernel carries a plan out.\<close>

lemma exec_follows:
  assumes f: "follows s P" and c: "plan_call c P = Some P'"
  shows "\<exists>s'. exec c s = Some s' \<and> follows s' P'"
proof (cases c)
  case (CreateOrHalt v ev)
  then have "v \<notin> fst ` set (made P)" "length (made P) < OS_MAX_EVENTS - 1" "room_for ev P" "P' = P\<lparr>made := made P @ [(v, ev)]\<rparr>"
    using c by (auto split: if_splits)
  then show ?thesis using made_follows [OF f, of ev v] create_follows [OF f, of ev] CreateOrHalt by simp
next
  case (Create v ev)
  then have "v \<notin> fst ` set (made P)" "length (made P) < OS_MAX_EVENTS - 1" "room_for ev P" "P' = P\<lparr>made := made P @ [(v, ev)]\<rparr>"
    using c by (auto split: if_splits)
  then show ?thesis using made_follows [OF f, of ev v] create_follows [OF f, of ev] Create by simp
next
  case (TaskCreate p)
  then show ?thesis using c task_follows [OF f] by (auto split: if_splits)
next
  case (TimeSet n)
  then show ?thesis using c f by (auto simp: follows_def OSTimeSet_def)
qed (use c in simp)

lemma boot_follows: "follows s P \<Longrightarrow> plan_calls cs P = Some P' \<Longrightarrow> \<exists>s'. boot cs s = Some s' \<and> follows s' P'"
proof (induction cs arbitrary: s P)
  case (Cons c cs)
  obtain P1 where P1: "plan_call c P = Some P1" "plan_calls cs P1 = Some P'" using Cons.prems(2) by (auto split: option.splits)
  obtain s1 where "exec c s = Some s1" "follows s1 P1" using exec_follows [OF Cons.prems(1) P1(1)] by blast
  then show ?case using Cons.IH [OF _ P1(2)] by auto
qed simp

lemma power_on_follows: "follows power_on \<lparr>made = [], tasks = []\<rparr>"
proof -
  have init: "OSInit = \<lparr>OSTime = 0, OSIntNesting = 0, OSLockNesting = 0, OSTaskCtr = 2, OSRunning = False,
     OSTickStepState = 0, OSCtxSwCtr = 0, OSRdy = (8, [0, 0, 0, 3]), OSPrioCur = 0, OSPrioHighRdy = 0,
     OSTCBCur = NoTcb, OSTCBHighRdy = NoTcb, OSTCBPrioTbl = (\<lambda>_. NoTcb)(25 := Tcb 0, 24 := Tcb 1),
     OSTCBs = (\<lambda>_. clear_tcb)(0 := new_tcb 25, 1 := new_tcb 24), OSTCBList = [1, 0], OSTCBFreeList = 2 # 3 # [4 ..< OS_MAX_TCBS],
     OSEvents = OS_InitEventList, OSEventFreeList = EventPtr 0, OSQFree = 10\<rparr>"
    by (simp add: OSInit_def task_create_eq add_task_def new_tcb_def OS_InitMisc_def first_tcbs eval_list Let_def)
  have free: "2 # 3 # [4 ..< OS_MAX_TCBS] = [2 ..< OS_MAX_TCBS]" by (simp add: upt_conv_Cons)
  show ?thesis
    unfolding follows_def power_on_def init free
    by (simp add: pips_def queues_def taken_def task_prios_def less_Suc_eq numeral_2_eq_2)
qed


section \<open>The start of the program\<close>

text \<open>What a list of calls creates.\<close>

definition created :: "boot_call list \<Rightarrow> (event_var \<times> new_event) list" where
  "created cs = concat (map (\<lambda>c. case c of CreateOrHalt v ev \<Rightarrow> [(v, ev)] | Create v ev \<Rightarrow> [(v, ev)] | _ \<Rightarrow> []) cs)"

lemma created_main: "created main_calls =
  [(Local_Send_Data_Mutex, NewMutex 16), (Wifi_Send_Data_Mutex, NewMutex 17), (Recon_To_Server, NewSem 0), (Print_Sema, NewSem 0),
   (Print_Queue_Sema, NewSem 0), (Batch_Rec, NewSem 0), (Ack_Rec_Order, NewSem 0), (Ack_Rec_Printer, NewSem 0),
   (Printer_Status_Rec, NewSem 0), (Print_Done, NewSem 0), (Local_Rec_Data, NewSem 0), (Wifi_Rec_Data, NewSem 0),
   (Capacity_Change, NewSem 0), (Rec_Wifi_Req, NewSem 0), (Mesg_Queue_Ptr, NewQueue 20), (Block_1K, NewSem 4),
   (Block_2K, NewSem 3), (Block_4K, NewSem 3), (Block_10K, NewSem 1), (LWIP_Init, NewSem 0), (PCMgr_resrcSem, NewSem 0),
   (cell_printBeginSem 0, NewSem 0), (cell_printDoneSem 0, NewSem 0), (cell_printBeginSem 1, NewSem 0),
   (cell_printDoneSem 1, NewSem 0), (queue_buf_mutex, NewMutex 19), (urgent_buf_mutex, NewMutex 18),
   (order_print_table_mutex, NewMutex 20)]"
  by (simp add: created_def main_calls_def InitSemAndMutex_def create_tasks_def InitPrintCellsMgr_sems_def
      Init_Queue_mutexes_def Init_Order_Table_mutex_def)

lemma main_plan:
  "plan_calls main_calls \<lparr>made = [], tasks = []\<rparr> = Some \<lparr>made = created main_calls, tasks = [3, 7, 9, 10, 11, 8, 14, 5, 4, 6, 12, 13]\<rparr>"
  unfolding created_main
  by (simp add: main_calls_def InitSemAndMutex_def create_tasks_def InitPrintCellsMgr_sems_def Init_Queue_mutexes_def
      Init_Order_Table_mutex_def taken_def pips_def queues_def task_prios_def)


fun call_ok :: "boot_call \<Rightarrow> bool" where
  "call_ok (CreateOrHalt v (NewQueue n)) \<longleftrightarrow> n \<noteq> 0"
| "call_ok (Create v (NewQueue n)) \<longleftrightarrow> n \<noteq> 0"
| "call_ok _ \<longleftrightarrow> True"

lemma create_step: "ev \<noteq> NewQueue 0 \<Longrightarrow> kernel_step k (snd (create_event ev k))"
proof (cases ev)
  case (NewMutex p)
  have "snd (create_event ev k) = snd (mutex_create p k)" by (simp add: NewMutex split_beta Let_def)
  then show ?thesis using kernel_step.create_mutex by simp
qed (use kernel_step.create_sem kernel_step.create_q [of "replicate n 0" for n] in auto)

lemma exec_reachable: "exec c s = Some s' \<Longrightarrow> call_ok c \<Longrightarrow> reachable (kern s) \<Longrightarrow> reachable (kern s')"
proof -
  assume e: "exec c s = Some s'" and ok: "call_ok c" and r: "reachable (kern s)"
  have "kernel_step (kern s) (kern s')"
  proof (cases c)
    case (CreateOrHalt v ev)
    have "kern s' = snd (create_event ev (kern s))" using e CreateOrHalt by (auto simp: split_beta split: if_splits)
    moreover have "ev \<noteq> NewQueue 0" using ok CreateOrHalt by auto
    ultimately show ?thesis using create_step by simp
  next
    case (Create v ev)
    have "kern s' = snd (create_event ev (kern s))" using e Create by (auto simp: split_beta)
    moreover have "ev \<noteq> NewQueue 0" using ok Create by auto
    ultimately show ?thesis using create_step by simp
  qed (use e kernel_step.intros(1-12) in auto)
  then show "reachable (kern s')" by (rule reachable.step [OF r])
qed

lemma boot_reachable: "boot cs s = Some s' \<Longrightarrow> list_all call_ok cs \<Longrightarrow> reachable (kern s) \<Longrightarrow> reachable (kern s')"
proof (induction cs arbitrary: s)
  case (Cons c cs)
  then obtain s1 where "exec c s = Some s1" "boot cs s1 = Some s'" by (auto split: option.splits)
  then show ?case using Cons exec_reachable by auto
qed simp

lemma main_calls_ok: "list_all call_ok (main_calls @ [Start])"
  by (simp add: main_calls_def InitSemAndMutex_def create_tasks_def InitPrintCellsMgr_sems_def Init_Queue_mutexes_def
      Init_Order_Table_mutex_def)

lemma booted:
  obtains s where "boot main_calls power_on = Some s"
    "follows s \<lparr>made = created main_calls, tasks = [3, 7, 9, 10, 11, 8, 14, 5, 4, 6, 12, 13]\<rparr>"
  using boot_follows [OF power_on_follows main_plan] by blast

text \<open>Which priorities there are when the kernel follows a plan.\<close>

lemma follows_prios:
  assumes "follows s P"
  shows "prio_of (kern s) ` {i. live (kern s) i} = unat ` set (task_prios P)"
    "live (kern s) i \<Longrightarrow> runnable (tcb (kern s) i)"
proof -
  have l: "live (kern s) i \<longleftrightarrow> i < length (task_prios P)" for i using assms by (auto simp: follows_def)
  have t: "tcb (kern s) i = new_tcb (task_prios P ! i)" if "live (kern s) i" for i using assms that l by (simp add: follows_def)
  show "live (kern s) i \<Longrightarrow> runnable (tcb (kern s) i)" using t by (simp add: runnable_def new_tcb_def)
  have "prio_of (kern s) ` {i. live (kern s) i} = (\<lambda>i. unat (task_prios P ! i)) ` {i. i < length (task_prios P)}"
    using l t by (auto simp: prio_of_def new_tcb_def image_iff)
  also have "\<dots> = unat ` set (task_prios P)" by (auto simp: in_set_conv_nth image_iff) (use nth_mem in blast)
  finally show "prio_of (kern s) ` {i. live (kern s) i} = unat ` set (task_prios P)" .
qed

lemma start_fields:
  assumes "sys_ok k" "\<not> OSRunning k"
  shows "OSRunning (OSStart k)" "OSTCBList (OSStart k) = OSTCBList k" "tcb (OSStart k) = tcb k" "OSRdy (OSStart k) = OSRdy k"
    "OSEvents (OSStart k) = OSEvents k" "OSIntNesting (OSStart k) = OSIntNesting k" "OSLockNesting (OSStart k) = OSLockNesting k"
  using assms(2) by (simp_all add: OSStart_def OSStartHighRdy_def OS_CPU_PendSVHandler_def OS_SchedNew_def Let_def)



lemma boot_succeeds_vars:
  "boot (main_calls @ [Start]) power_on = Some s \<Longrightarrow> vars s = map_of (zip (map fst (created main_calls)) [0 ..< length (created main_calls)])"
proof -
  assume b: "boot (main_calls @ [Start]) power_on = Some s"
  obtain s1 where "boot main_calls power_on = Some s1"
    "follows s1 \<lparr>made = created main_calls, tasks = [3, 7, 9, 10, 11, 8, 14, 5, 4, 6, 12, 13]\<rparr>" by (rule booted)
  then show ?thesis using b by (auto simp: boot_append follows_def)
qed

text \<open>C38. The mutex of the heap of wifi requests, \<^verbatim>\<open>heap.mutex\<close>, is not created by the start of the
  program, and by nothing after it: every call that means to lock or unlock it gets a null pointer, returns an error at
  once and changes nothing, so that two tasks can be in the heap together.\<close>

theorem heap_never_locked:
  assumes "boot (main_calls @ [Start]) power_on = Some s"
  shows "mutex_pend (vars s heap_mutex) n k = (Some OS_ERR_PEVENT_NULL, k)
    \<and> fst (mutex_post (vars s heap_mutex) k) \<noteq> OS_ERR_NONE \<and> snd (mutex_post (vars s heap_mutex) k) = k"
proof -
  have "vars s heap_mutex = None"
    unfolding boot_succeeds_vars [OF assms] by (simp add: map_of_eq_None_iff created_main)
  then show ?thesis by (simp add: mutex_pend_def mutex_post_def)
qed

lemma heap_never_locked_witness:
  "\<exists>s. boot (main_calls @ [Start]) power_on = Some s \<and> mutex_pend (vars s heap_mutex) 0 OSInit = (Some OS_ERR_PEVENT_NULL, OSInit)"
proof -
  obtain s where "boot main_calls power_on = Some s" using booted by blast
  then have "boot (main_calls @ [Start]) power_on = Some (s\<lparr>kern := OSStart (kern s)\<rparr>)" by (simp add: boot_append)
  then show ?thesis using heap_never_locked by blast
qed

section \<open>A tick before the start\<close>

text \<open>
  \<^verbatim>\<open>System_Setup\<close> starts the tick timer before \<^verbatim>\<open>OSInit\<close>.  Its handler counts the nesting up always,
  \<^verbatim>\<open>OSIntExit\<close> counts it down only when the kernel runs.
\<close>

definition boot_tick :: "nat \<Rightarrow> boot_call list \<Rightarrow> startup \<Rightarrow> startup option" where
  "boot_tick n cs s =
     (case boot (take n cs) s of None \<Rightarrow> None | Some s \<Rightarrow> boot (drop n cs) (s\<lparr>kern := SysTick_Handler (kern s)\<rparr>))"

lemma early_nesting: "\<not> OSRunning k \<Longrightarrow> OSIntNesting (SysTick_Handler k) = OSIntNesting k + 1 \<and> \<not> OSRunning (SysTick_Handler k)"
  by (simp add: SysTick_Handler_def OSTimeTick_def OSIntExit_def Let_def)

lemma boot_quiet:
  "boot cs s = Some s' \<Longrightarrow> Start \<notin> set cs \<Longrightarrow> \<not> OSRunning (kern s) \<Longrightarrow>
   OSIntNesting (kern s') = OSIntNesting (kern s) \<and> \<not> OSRunning (kern s')"
proof (induction cs arbitrary: s)
  case (Cons c cs)
  obtain s1 where s1: "exec c s = Some s1" "boot cs s1 = Some s'" using Cons.prems(1) by (auto split: option.splits)
  have cr: "OSIntNesting (snd (create_event ev k)) = OSIntNesting k \<and> OSRunning (snd (create_event ev k)) = OSRunning k" for ev k
    by (cases ev) (auto simp: mutex_create_def sem_create_def q_create_def set_event_def Let_def split_beta split: event_ptr.split)
  have "OSIntNesting (kern s1) = OSIntNesting (kern s) \<and> \<not> OSRunning (kern s1)"
    using s1(1) Cons.prems(2,3) cr
    by (cases c) (auto simp: split_beta task_create_eq add_task_def OSTimeSet_def Let_def split: if_splits list.splits)
  then show ?case using Cons.IH [OF s1(2)] Cons.prems(2) by simp
qed simp

lemma create_nested: "0 < OSIntNesting k \<Longrightarrow> create_event ev k = (None, k)"
  by (cases ev) (simp_all add: mutex_create_def sem_create_def q_create_def)

lemma boot_nested:
  assumes "0 < OSIntNesting (kern s)" "c \<in> set cs" "c = CreateOrHalt v ev"
  shows "boot cs s = None"
  using assms
proof (induction cs arbitrary: s)
  case (Cons d ds)
  have "0 < OSIntNesting (kern s')" if "exec d s = Some s'" for s'
    using that Cons.prems(1)
    by (cases d) (auto simp: create_nested task_create_eq OSTimeSet_def OSStart_def OSStartHighRdy_def OS_CPU_PendSVHandler_def
        OS_SchedNew_def Let_def)
  then show ?case using Cons create_nested [OF Cons.prems(1)] by (auto split: option.split)
qed simp

text \<open>With the nesting stuck at one no service and no tick gives the processor to another task.\<close>

definition stuck :: "tcb_ptr \<Rightarrow> kernel \<Rightarrow> bool" where
  "stuck t k \<longleftrightarrow> OSRunning k \<and> OSIntNesting k = 1 \<and> OSTCBCur k = t"

lemma stuck_parts [simp]:
  "stuck c (set_tcb i t k) = stuck c k" "stuck c (set_event e v k) = stuck c k" "stuck c (make_ready i k) = stuck c k"
  "stuck c (make_unready i k) = stuck c k" "stuck c (set_cnt e n k) = stuck c k" "stuck c (OS_EventTaskRemove i e k) = stuck c k"
  "stuck c (snd (OS_EventTaskRdy e m msk st k)) = stuck c k" "stuck c (k\<lparr>OSTCBPrioTbl := pt\<rparr>) = stuck c k"
  "stuck c (k\<lparr>OSRdy := rdy\<rparr>) = stuck c k" "stuck c (k\<lparr>OSTime := a\<rparr>) = stuck c k" "stuck c (k\<lparr>OSLockNesting := l\<rparr>) = stuck c k"
  by (simp_all add: stuck_def set_tcb_def set_event_def make_ready_def make_unready_def set_cnt_def OS_EventTaskRemove_def
      OS_EventTaskRdy_def Let_def)

lemma stuck_sched [simp]: "stuck c k \<Longrightarrow> stuck c (OS_Sched k)"
  by (simp add: stuck_def OS_Sched_def)

lemma stuck_tick: "stuck c k \<Longrightarrow> stuck c (SysTick_Handler k)"
proof -
  assume s: "stuck c k"
  have t: "same_cpu k (tick_tasks is k)" for k "is"
    by (induction "is" arbitrary: k) (auto intro: same_cpu_trans [OF tick_task_fields(1)])
  let ?P = "\<lambda>x. OSRunning x \<and> OSIntNesting x = 2 \<and> OSTCBCur x = c"
  have "?P (tick_tasks is x) = ?P x" for "is" x using t [of x "is"] by (auto simp: same_cpu_def)
  then have "?P (OSTimeTick x)" if "?P x" for x using that by (simp add: OSTimeTick_def Let_def)
  moreover have "?P (k\<lparr>OSIntNesting := OSIntNesting k + 1\<rparr>)" using s by (simp add: stuck_def)
  ultimately have "?P (OSTimeTick (k\<lparr>OSIntNesting := OSIntNesting k + 1\<rparr>))" by blast
  then show "stuck c (SysTick_Handler k)" by (simp add: SysTick_Handler_def stuck_def OSIntExit_def Let_def)
qed

lemma stuck_step: "kernel_step k k' \<Longrightarrow> stuck c k \<Longrightarrow> stuck c k'"
proof -
  assume st: "kernel_step k k'" and s: "stuck c k"
  have n: "0 < OSIntNesting k" "OSRunning k" using s by (simp_all add: stuck_def)
  from st show "stuck c k'"
  proof cases
    case (abort_sem e b)
    have w: "stuck c (snd (wake_all n x msk st k)) = stuck c k" for n x msk st k
      by (induction n arbitrary: k) (simp_all add: split_beta)
    show ?thesis using abort_sem s
      by (auto simp: sem_pend_abort_def split_beta w simp del: wake_all.simps split: option.split)
  qed (use s n in \<open>auto simp: stuck_tick returning_def OSStart_def task_create_eq sem_create_def mutex_create_def q_create_def
    OSSchedLock_def OSSchedUnlock_def OSTimeSet_def OSTimeDly_def OSTimeDlyHMSM_def OSTimeDlyResume_def OSTaskSuspend_def
    OSTaskResume_def sem_accept_def sem_pend_def sem_post_def sem_set_def mutex_accept_def mutex_pend_def mutex_post_def
    q_post_def q_pend_def Let_def split: option.split bool.split prod.split\<close>)
qed

text \<open>C39. A tick that comes while \<^verbatim>\<open>main\<close> runs, after \<^verbatim>\<open>OSInit\<close> and before \<^verbatim>\<open>OSStart\<close>, is not survived:
  before the last creation the next \<^verbatim>\<open>assert\<close> hangs, since no event can be created from what looks like an
  interrupt; after it the kernel starts, but whatever is called and however many ticks come, the first task
  is never left.\<close>

theorem early_tick:
  assumes "n \<le> length main_calls"
  shows "if n < length main_calls then boot_tick n (main_calls @ [Start]) power_on = None
    else \<exists>s. boot_tick n (main_calls @ [Start]) power_on = Some s \<and> OSRunning (kern s) \<and> OSIntNesting (kern s) = 1
       \<and> (\<forall>k. kernel_step\<^sup>*\<^sup>* (kern s) k \<longrightarrow> OSTCBCur k = OSTCBCur (kern s))"
proof (cases "n < length main_calls")
  case True
  have nested: "boot (drop n (main_calls @ [Start])) (s\<lparr>kern := SysTick_Handler (kern s)\<rparr>) = None"
    if "boot (take n (main_calls @ [Start])) power_on = Some s" for s
  proof (rule boot_nested)
    let ?c = "CreateOrHalt order_print_table_mutex (NewMutex 20)"
    obtain xs where m: "main_calls = xs @ [?c]"
      using that by (metis append_assoc main_calls_def Init_Order_Table_mutex_def)
    have "set (take n main_calls) \<subseteq> set main_calls" by (rule set_take_subset)
    moreover have "Start \<notin> set main_calls"
      by (auto simp: main_calls_def InitSemAndMutex_def create_tasks_def InitPrintCellsMgr_sems_def Init_Queue_mutexes_def
          Init_Order_Table_mutex_def)
    ultimately have ns: "Start \<notin> set (take n main_calls)" by blast
    have p: "OSIntNesting (kern power_on) = 0" "\<not> OSRunning (kern power_on)" using power_on_follows by (simp_all add: follows_def)
    have "OSIntNesting (kern s) = 0 \<and> \<not> OSRunning (kern s)" using boot_quiet [OF _ ns p(2)] that True p(1) by simp
    then show "0 < OSIntNesting (kern (s\<lparr>kern := SysTick_Handler (kern s)\<rparr>))" using early_nesting [of "kern s"] by simp
    show "?c \<in> set (drop n (main_calls @ [Start]))" using True unfolding m by simp
  qed simp
  then show ?thesis using True by (simp add: boot_tick_def split: option.split)
next
  case False
  then have n: "n = length main_calls" using assms by simp
  obtain s where s: "boot main_calls power_on = Some s"
    "follows s \<lparr>made = created main_calls, tasks = [3, 7, 9, 10, 11, 8, 14, 5, 4, 6, 12, 13]\<rparr>" by (rule booted)
  let ?k = "SysTick_Handler (kern s)"
  have nr: "\<not> OSRunning ?k" "OSIntNesting ?k = 1" using early_nesting [of "kern s"] s(2) by (simp_all add: follows_def)
  have r: "reachable ?k" using boot_reachable [OF s(1)] main_calls_ok kernel_step.tick by (simp add: power_on_def reachable.init reachable.step)
  note f = start_fields [OF reachable_ok [OF r] nr(1)]
  have st0: "stuck (OSTCBCur (OSStart ?k)) (OSStart ?k)" using f(1,6) nr(2) by (simp add: stuck_def)
  have st: "stuck (OSTCBCur (OSStart ?k)) k" if "kernel_step\<^sup>*\<^sup>* (OSStart ?k) k" for k
    using that by (induction rule: rtranclp_induct) (use st0 stuck_step in blast)+
  have "\<forall>k. kernel_step\<^sup>*\<^sup>* (OSStart ?k) k \<longrightarrow> OSTCBCur k = OSTCBCur (OSStart ?k)"
    using st unfolding stuck_def by blast
  moreover have "OSRunning (OSStart ?k)" "OSIntNesting (OSStart ?k) = 1" using f(1,6) nr(2) by simp_all
  moreover have "boot_tick n (main_calls @ [Start]) power_on = Some (s\<lparr>kern := OSStart ?k\<rparr>)"
    by (simp add: boot_tick_def n s(1))
  moreover have "kern (s\<lparr>kern := OSStart ?k\<rparr>) = OSStart ?k" by simp
  ultimately show ?thesis unfolding if_not_P [OF False] by metis
qed

lemma early_tick_witness:
  "boot_tick 0 (main_calls @ [Start]) power_on = None
    \<and> (\<exists>s. boot_tick (length main_calls) (main_calls @ [Start]) power_on = Some s \<and> OSIntNesting (kern s) = 1
         \<and> OSTCBCur (SysTick_Handler (kern s)) = OSTCBCur (kern s))"
proof -
  have "length main_calls \<noteq> 0" by (simp add: main_calls_def Init_Order_Table_mutex_def)
  then have "boot_tick 0 (main_calls @ [Start]) power_on = None" using early_tick [of 0] by simp
  moreover obtain s where s: "boot_tick (length main_calls) (main_calls @ [Start]) power_on = Some s" "OSIntNesting (kern s) = 1"
    "\<forall>k. kernel_step\<^sup>*\<^sup>* (kern s) k \<longrightarrow> OSTCBCur k = OSTCBCur (kern s)"
    using early_tick [of "length main_calls"] by auto
  moreover have "kernel_step\<^sup>*\<^sup>* (kern s) (SysTick_Handler (kern s))" by (intro r_into_rtranclp kernel_step.tick)
  ultimately show ?thesis by blast
qed

end
