(* ===== verification/Spec2Isabelle.thy ===== *)
theory Spec2Isabelle
  imports Wire_Codec Request_Heap Print_Job Print_Queue Interrupts Os_Mutex Start_Up
begin

text \<open>
  The control board of a network printer: orders come from a server (Ethernet), from a serial line and from
  a wifi module, are kept in ring buffers, taken into memory blocks and a print queue, and sent to two
  printers whose status is watched.  The program is \<^verbatim>\<open>src/project/User\<close>, C under uC/OS-II.  This
  development models its logic in HOL and proves what keeps orders from being lost, mixed or printed wrongly,
  and where the code falls short of that.

  \<^bold>\<open>How the parts work together.\<close>  A received order frame goes into the urgent or the common ring buffer and
  \<^verbatim>\<open>Print_Queue_Sem\<close> is posted (server, serial line, wifi).  The print queue task takes the order out of the
  buffer into a block of one of four memory partitions, links its node into the print queue and posts
  \<^verbatim>\<open>Print_Sem\<close>.  The printing task takes the first node, checks the data and hands it to an idle print cell,
  whose task sends the fields to the printer and asks for its status; the answer releases the block and the cell,
  or keeps the order for printing it again.  Every step is reported through a ring of status messages to the
  source of the order.

  \<^bold>\<open>Theories and code.\<close>
  \<^item> \<^verbatim>\<open>Prelude\<close>: machine integers, big-endian words of bytes, slices of arrays, folds that may fail.
  \<^item> \<^verbatim>\<open>Data_Form\<close>: the tables, codes and offsets of \<^verbatim>\<open>inc/data_form.h\<close>.
  \<^item> \<^verbatim>\<open>Wire_Codec\<close>: \<^verbatim>\<open>pack_data.c\<close>, \<^verbatim>\<open>analyze_data.c\<close> and the checksums of \<^verbatim>\<open>more_infomation.c\<close>.
    Packed frames are read back field by field and pass the check; one changed byte is noticed, but for the last of an
    odd length.
  \<^item> \<^verbatim>\<open>Ring_Buffer\<close>: \<^verbatim>\<open>queue_buf.c\<close>.  Writing, reading and the request for orders against the list of the
    bytes held; the locale \<^verbatim>\<open>byte_fifo\<close> is the contract of the buffer.
  \<^item> \<^verbatim>\<open>Os_Memory\<close>, \<^verbatim>\<open>Os_Queue\<close>: the kernel services as the program's own components see them,
    memory partitions and semaphores as counts (\<^verbatim>\<open>os_mem.c\<close>, \<^verbatim>\<open>os_sem.c\<close>) and message queues (\<^verbatim>\<open>os_q.c\<close>), with the
    contracts \<^verbatim>\<open>block_pool\<close> and \<^verbatim>\<open>message_queue\<close>.
  \<^item> \<^verbatim>\<open>Os_Ready\<close>, \<^verbatim>\<open>Os_Kernel\<close>, \<^verbatim>\<open>Os_Services\<close>: the kernel itself, \<^verbatim>\<open>os_core.c\<close>, \<^verbatim>\<open>os_task.c\<close>,
    \<^verbatim>\<open>os_time.c\<close>, \<^verbatim>\<open>os_sem.c\<close>, \<^verbatim>\<open>os_mutex.c\<close> and \<^verbatim>\<open>os_q.c\<close> with the tasks that wait: the bit tables of
    priorities (contract \<^verbatim>\<open>prio_set\<close>), the scheduler, the tick and the services the program calls.
  \<^item> \<^verbatim>\<open>Os_Invariant\<close>, \<^verbatim>\<open>Os_Calls\<close>, \<^verbatim>\<open>Os_System\<close>: the invariant of the kernel's tables, that every call and the tick
    keep it, and the step relation of these calls with its reachable states.  \<^verbatim>\<open>Os_Behaviour\<close> and \<^verbatim>\<open>Os_Mutex\<close>
    derive from it: the highest task that can run runs, delays end, semaphores and queues refine counters and
    lists with a set of waiting tasks (which the other theories use in their simple form), owners of mutexes, and what
    the priorities that the program gives its mutexes do.
  \<^item> \<^verbatim>\<open>Start_Up\<close>: the kernel calls of \<^verbatim>\<open>main\<close> in their order, what they leave, which mutex they forget, and what a
    tick among them does.  \<^verbatim>\<open>Interrupts\<close>: the handlers of \<^verbatim>\<open>stm32f2xx_it.c\<close> and the flow control of the printers.
  \<^item> \<^verbatim>\<open>Request_Heap\<close>: \<^verbatim>\<open>RequestHeap.c\<close>, the wifi requests in order of time, what deleting the first of them loses, and
    their granting as a step relation; the contract is \<^verbatim>\<open>earliest_first\<close>.
  \<^item> \<^verbatim>\<open>Net_Receive\<close>, \<^verbatim>\<open>Local_Conf\<close>, \<^verbatim>\<open>Wifi_Conf\<close>: the three sources of orders, \<^verbatim>\<open>netconf.c\<close>,
    \<^verbatim>\<open>local_conf.c\<close> and \<^verbatim>\<open>wifi_conf.c\<close>.  What the environment does while a task sleeps is an argument.  A good
    order reaches the buffer and is answered; a bad batch is taken back.
  \<^item> \<^verbatim>\<open>Order_Table\<close>, \<^verbatim>\<open>Order_Store\<close>: the node table, the print queue and the blocks of \<^verbatim>\<open>print_queue.c\<close>.
    The queue refines a line of two classes (locale \<^verbatim>\<open>two_class_line\<close>); the resource invariant says that
    semaphores, partitions and nodes agree and that no block is shared, and adding and deleting keep it.
  \<^item> \<^verbatim>\<open>Print_Queue\<close>: the task that moves orders from the buffers into the queue, with its handling of
    wrong and of unfitting orders.
  \<^item> \<^verbatim>\<open>Printer_Port\<close>, \<^verbatim>\<open>Bitmap_Codec\<close>: the bytes sent to a printer and the decoding of its status
    (\<^verbatim>\<open>printerException.c\<close>), compressed pictures and enlarged lines (\<^verbatim>\<open>compress.c\<close>, \<^verbatim>\<open>print_bmp.c\<close>).
  \<^item> \<^verbatim>\<open>Status_Messages\<close>: the message ring and the reports of \<^verbatim>\<open>status_mesg.c\<close>.
  \<^item> \<^verbatim>\<open>Eeprom\<close>, \<^verbatim>\<open>Print_Cells\<close>, \<^verbatim>\<open>Print_Job\<close>: page writes (\<^verbatim>\<open>i2c_ee.c\<close>), the printers, their totals and
    health check (\<^verbatim>\<open>print_cells.c\<close>), and the way of one order through printing, with the tasks of \<^verbatim>\<open>main.c\<close>.

  \<^bold>\<open>How state is represented.\<close>  A C structure is a record, its machine integers are words of their width, a byte
  array is a list (an access out of range, where the code does not exclude it, is \<^term>\<open>None\<close>), memory that
  is addressed is a function from addresses to bytes.  A wait of a task on a semaphore whose count is 0 is a step that
  is not enabled, or \<^term>\<open>None\<close> where a single function runs to its end; in the theories of the kernel the task joins
  the list of those that wait.  Values the code reads without having written them are arguments.

  \<^bold>\<open>What is one step.\<close>  Code between the lock and the unlock of a mutex and code with interrupts off is one step, and so is
  a kernel call up to the point where its task gives up the processor.  Three places of the program do not keep to
  this, and the theorems about them do not claim it: the mutex of the heap of wifi requests is never created
  (\<^verbatim>\<open>Start_Up.heap_never_locked\<close>), the index of the status messages is advanced after the post without a lock
  (\<^verbatim>\<open>Status_Messages.put_node\<close>), and the status of a print cell can change between a wait or a timeout and what
  follows it (\<^verbatim>\<open>Print_Cells.cells_step\<close> leaves these interleavings out, \<^verbatim>\<open>Print_Cells.cell_races\<close> shows what they do).

  \<^bold>\<open>Bounds.\<close>  Loops with a counter in the code are total functions with their counter as measure.  Loops
  that wait for bytes, for room or for a connection, and loops whose end depends on data of the sender, are partial
  functions, and the theorems about them state that they return a result, or that they do not.  No definition
  takes an artificial bound on its steps but the loop that readies all waiting tasks: 32 rounds, one for each bit of
  its list.

  \<^bold>\<open>Not modelled.\<close>  The set-up of the hardware (\<^verbatim>\<open>stm32f207_init.c\<close>), the network start-up and connection
  (\<^verbatim>\<open>LwIP_Init\<close>, \<^verbatim>\<open>con_to_server\<close>) and the simulated servers of \<^verbatim>\<open>agent_tcp.c\<close> and \<^verbatim>\<open>agent_udp.c\<close> only set
  registers or call other libraries.  lwIP and the vendor drivers are third-party code: their results are arguments.
  Of the kernel the calls that nothing makes are left out: deletion of tasks and events, change of priority,
  queries, event flags, mailboxes and timers; stacks, saved registers and names are not part of its state.  In the
  theories of the program's components delays have no duration, and debug output is left out.
\<close>

end
